(* ===== verification/Prelude.thy ===== *)
theory Prelude
  imports Main "HOL-Library.Char_ord" "HOL-Library.List_Lexorder" "HOL-Library.Sublist"
begin

text \<open>
  Shared vocabulary of the development: C strings as NUL-free \<^typ>\<open>string\<close>s, the handful of
  \<^verbatim>\<open>string.h\<close> functions the comparison tools call (\<open>strcmp\<close>, \<open>strrchr\<close>,
  \<open>strstr\<close>), splitting a path at its slashes, the result type of a C function that may
  stop the process, and the facts about lists that several components use.
\<close>

named_theorems run_simps \<open>rewrite rules for sequencing steps that may stop\<close>
named_theorems path_simps \<open>rewrite rules for path names and their components\<close>

section \<open>Characters and C strings\<close>

definition NUL :: char where
  "NUL = CHR 0x00"

definition SLASH :: char where
  "SLASH = CHR ''/''"

definition NL :: string where
  "NL = [CHR 0x0A]"

definition cstring :: "string \<Rightarrow> bool" where
  "cstring s \<longleftrightarrow> NUL \<notin> set s"

fun strcmp :: "string \<Rightarrow> string \<Rightarrow> int" where
  "strcmp [] [] = 0"
| "strcmp [] (b # bs) = - int (of_char b)"
| "strcmp (a # as) [] = int (of_char a)"
| "strcmp (a # as) (b # bs) = (if a = b then strcmp as bs else int (of_char a) - int (of_char b))"

fun strrchr :: "string \<Rightarrow> char \<Rightarrow> nat option" where
  "strrchr [] c = None"
| "strrchr (x # xs) c =
     (case strrchr xs c of Some i \<Rightarrow> Some (Suc i) | None \<Rightarrow> if x = c then Some 0 else None)"

fun strstr :: "string \<Rightarrow> string \<Rightarrow> nat option" where
  "strstr [] n = (if n = [] then Some 0 else None)"
| "strstr (x # xs) n = (if prefix n (x # xs) then Some 0 else map_option Suc (strstr xs n))"

fun split_on :: "'a \<Rightarrow> 'a list \<Rightarrow> 'a list list" where
  "split_on c [] = [[]]"
| "split_on c (x # xs) =
     (if x = c then [] # split_on c xs
      else (case split_on c xs of [] \<Rightarrow> [[x]] | y # ys \<Rightarrow> (x # y) # ys))"

section \<open>Steps that may stop\<close>

definition run_bind :: "'e + 'a \<Rightarrow> ('a \<Rightarrow> 'e + 'b) \<Rightarrow> 'e + 'b" where
  "run_bind m f = (case m of Inl e \<Rightarrow> Inl e | Inr x \<Rightarrow> f x)"

lemma run_bind_Inl [simp, run_simps]: "run_bind (Inl e) f = Inl e"
  by (simp add: run_bind_def)

lemma run_bind_Inr [simp, run_simps]: "run_bind (Inr x) f = f x"
  by (simp add: run_bind_def)

lemma run_bind_cong [fundef_cong]:
  "m = m' \<Longrightarrow> (\<And>x. m' = Inr x \<Longrightarrow> f x = f' x) \<Longrightarrow> run_bind m f = run_bind m' f'"
  by (cases m') auto

lemma run_bind_eq_Inr [run_simps]:
  "run_bind m f = Inr y \<longleftrightarrow> (\<exists>x. m = Inr x \<and> f x = Inr y)"
  by (cases m) auto

lemma run_bind_assoc: "run_bind (run_bind m f) g = run_bind m (\<lambda>x. run_bind (f x) g)"
  by (cases m) auto

section \<open>String comparison\<close>

lemma of_char_pos: "a \<noteq> NUL \<Longrightarrow> 0 < (of_char a :: nat)"
proof (rule ccontr)
  assume "a \<noteq> NUL" "\<not> 0 < (of_char a :: nat)"
  then have "(of_char a :: nat) = of_char NUL" by (simp add: NUL_def)
  then show False using \<open>a \<noteq> NUL\<close> by (simp only: of_char_eq_iff)
qed

lemma cstring_Cons [simp]: "cstring (a # s) \<longleftrightarrow> a \<noteq> NUL \<and> cstring s"
  by (auto simp: cstring_def)

lemma cstring_Nil [simp]: "cstring []"
  by (simp add: cstring_def)

lemma cstring_append [simp]: "cstring (s @ t) \<longleftrightarrow> cstring s \<and> cstring t"
  by (auto simp: cstring_def)

lemma strcmp_sign:
  "cstring a \<Longrightarrow> cstring b \<Longrightarrow>
     (strcmp a b < 0 \<longleftrightarrow> a < b) \<and> (strcmp a b = 0 \<longleftrightarrow> a = b)"
proof (induction a b rule: strcmp.induct)
  case (2 b bs)
  then show ?case using of_char_pos [of b] by simp
next
  case (3 a as)
  then show ?case using of_char_pos [of a] by simp
next
  case (4 a as b bs)
  then show ?case by (auto simp: less_char_def)
qed simp

lemma strcmp_less [simp]: "cstring a \<Longrightarrow> cstring b \<Longrightarrow> strcmp a b < 0 \<longleftrightarrow> a < b"
  using strcmp_sign by blast

lemma strcmp_eq [simp]: "cstring a \<Longrightarrow> cstring b \<Longrightarrow> strcmp a b = 0 \<longleftrightarrow> a = b"
  using strcmp_sign by blast

lemma strcmp_refl [simp]: "strcmp a a = 0"
  by (induction a) auto

section \<open>Searching\<close>

lemma strrchr_None: "strrchr s c = None \<longleftrightarrow> c \<notin> set s"
  by (induction s) (auto split: option.splits)

lemma strrchr_append:
  "c \<notin> set t \<Longrightarrow> strrchr (s @ c # t) c = Some (length s)"
  by (induction s) (auto simp: strrchr_None split: option.splits)

lemma strrchr_Some_iff:
  "strrchr s c = Some i \<longleftrightarrow> (\<exists>u v. s = u @ c # v \<and> c \<notin> set v \<and> i = length u)"
proof
  assume "strrchr s c = Some i"
  then have "c \<in> set s" using strrchr_None [of s c] by auto
  then obtain u v where s: "s = u @ c # v" "c \<notin> set v"
    by (meson split_list_last)
  then show "\<exists>u v. s = u @ c # v \<and> c \<notin> set v \<and> i = length u"
    using \<open>strrchr s c = Some i\<close> strrchr_append [of c v u] by auto
qed (auto simp: strrchr_append)

lemma strstr_iff: "strstr h n \<noteq> None \<longleftrightarrow> sublist n h"
proof (induction h)
  case (Cons x xs)
  then show ?case by (auto simp: sublist_Cons_right)
qed auto

section \<open>Splitting at a separator\<close>

lemma split_on_nonempty [simp]: "split_on c xs \<noteq> []"
  by (induction xs) (auto split: list.splits)

lemma split_on_notin [path_simps]: "c \<notin> set xs \<Longrightarrow> split_on c xs = [xs]"
  by (induction xs) auto

lemma split_on_append [path_simps]:
  "split_on c (xs @ c # ys) = split_on c xs @ split_on c ys"
  by (induction xs) (auto split: list.splits)

lemma split_on_snoc:
  "c \<notin> set n \<Longrightarrow> split_on c (xs @ c # n) = split_on c xs @ [n]"
  by (simp add: split_on_append split_on_notin)

end
