(* ===== verification/Posix.thy ===== *)
theory Posix
  imports Prelude "HOL-Library.AList"
begin

text \<open>
  The part of POSIX and of the C library that the tools under \<open>3-3/src/comp_kernel\<close> use:
  a file system of directories and regular files, path resolution with \<open>.\<close>, \<open>..\<close> and
  repeated slashes, \<open>access\<close>, \<open>stat\<close>, \<open>mkdir\<close>, \<open>rmdir\<close>, \<open>scandir\<close>,
  \<open>open\<close>/\<open>write\<close>/\<open>read\<close>, the standard streams, and the two ways a process can
  leave the normal path: \<open>exit\<close> and undefined behaviour.

  Files are keyed by their canonical component list; the root is the empty list. Symbolic links,
  devices and permission bits are not represented, so every existing object is accessible.
  Calls whose result the tools ignore return only the new state.
\<close>

section \<open>State\<close>

datatype fnode = Reg string | Directory

type_synonym fs = "(string list \<times> fnode) list"

record world =
  files :: fs
  cwd :: "string list"
  outs :: string
  errs :: string
  cmds :: "string list"

datatype ub = Buffer_Overflow | Null_Pointer | Uninitialised | Out_Of_Bounds

datatype stop = Exit int world | Undef ub

type_synonym run = "stop + world"

abbreviation BUFMAX :: nat where
  "BUFMAX \<equiv> 4096"

abbreviation PATH_MAX :: nat where
  "PATH_MAX \<equiv> 4096"

abbreviation NAME_MAX :: nat where
  "NAME_MAX \<equiv> 255"

abbreviation HASHLEN :: nat where
  "HASHLEN \<equiv> 33"

section \<open>The store\<close>

definition fs_get :: "fs \<Rightarrow> string list \<Rightarrow> fnode option" where
  "fs_get f p = (if p = [] then Some Directory else map_of f p)"

definition fs_put :: "string list \<Rightarrow> fnode \<Rightarrow> fs \<Rightarrow> fs" where
  "fs_put p n f = AList.update p n f"

definition fs_del :: "string list \<Rightarrow> fs \<Rightarrow> fs" where
  "fs_del p f = AList.delete p f"

definition fs_children :: "fs \<Rightarrow> string list \<Rightarrow> string list" where
  "fs_children f p = map last (filter (\<lambda>k. k \<noteq> [] \<and> butlast k = p) (map fst f))"

definition valid_name :: "string \<Rightarrow> bool" where
  "valid_name n \<longleftrightarrow> n \<noteq> [] \<and> n \<noteq> ''.'' \<and> n \<noteq> ''..'' \<and> length n \<le> NAME_MAX
     \<and> SLASH \<notin> set n \<and> cstring n"

definition fs_wf :: "fs \<Rightarrow> bool" where
  "fs_wf f \<longleftrightarrow> distinct (map fst f) \<and>
     (\<forall>k \<in> set (map fst f). k \<noteq> [] \<and> valid_name (last k) \<and> fs_get f (butlast k) = Some Directory)"

section \<open>Path resolution\<close>

fun namei :: "fs \<Rightarrow> string list \<Rightarrow> string list \<Rightarrow> string list option" where
  "namei f cur [] = Some cur"
| "namei f cur (c # cs) =
     (if fs_get f cur \<noteq> Some Directory then None
      else if c = [] \<or> c = ''.'' then namei f cur cs
      else if c = ''..'' then namei f (butlast cur) cs
      else if fs_get f (cur @ [c]) = None then None
      else namei f (cur @ [c]) cs)"

definition start_dir :: "world \<Rightarrow> string \<Rightarrow> string list" where
  "start_dir w p = (if p \<noteq> [] \<and> hd p = SLASH then [] else cwd w)"

definition resolve :: "world \<Rightarrow> string \<Rightarrow> string list option" where
  "resolve w p =
     (if p = [] \<or> length p \<ge> PATH_MAX then None
      else namei (files w) (start_dir w p) (split_on SLASH p))"

definition strip_slashes :: "string \<Rightarrow> string" where
  "strip_slashes p = rev (dropWhile (\<lambda>c. c = SLASH) (rev p))"

definition resolve_new :: "world \<Rightarrow> string \<Rightarrow> string list option" where
  "resolve_new w p =
     (if p = [] \<or> length p \<ge> PATH_MAX then None
      else case namei (files w) (start_dir w p) (butlast (split_on SLASH p)) of
        None \<Rightarrow> None
      | Some d \<Rightarrow>
          if fs_get (files w) d = Some Directory \<and> valid_name (last (split_on SLASH p))
          then Some (d @ [last (split_on SLASH p)]) else None)"

fun join_path :: "string list \<Rightarrow> string" where
  "join_path [] = []"
| "join_path (c # cs) = SLASH # c @ join_path cs"

section \<open>System calls and library functions\<close>

definition access_ok :: "world \<Rightarrow> string \<Rightarrow> bool" where
  "access_ok w p \<longleftrightarrow> resolve w p \<noteq> None"

definition stat_node :: "world \<Rightarrow> string \<Rightarrow> fnode option" where
  "stat_node w p = (case resolve w p of None \<Rightarrow> None | Some c \<Rightarrow> fs_get (files w) c)"

definition is_dir :: "world \<Rightarrow> string \<Rightarrow> bool" where
  "is_dir w p \<longleftrightarrow> stat_node w p = Some Directory"

definition stat_buf :: "world \<Rightarrow> string \<Rightarrow> bool option \<Rightarrow> bool option" where
  "stat_buf w p old =
     (case stat_node w p of None \<Rightarrow> old | Some n \<Rightarrow> Some (n = Directory))"

definition realpath :: "world \<Rightarrow> string \<Rightarrow> string option" where
  "realpath w p =
     (case resolve w p of None \<Rightarrow> None
      | Some c \<Rightarrow> if c = [] then Some [SLASH]
                  else if length (join_path c) < PATH_MAX then Some (join_path c) else None)"

definition mkdir :: "string \<Rightarrow> world \<Rightarrow> world" where
  "mkdir p w =
     (case resolve_new w (strip_slashes p) of None \<Rightarrow> w
      | Some c \<Rightarrow> if fs_get (files w) c = None
                  then w\<lparr>files := fs_put c Directory (files w)\<rparr> else w)"

definition rmdir :: "string \<Rightarrow> world \<Rightarrow> world" where
  "rmdir p w =
     (case resolve_new w (strip_slashes p) of None \<Rightarrow> w
      | Some c \<Rightarrow> if fs_get (files w) c = Some Directory \<and> fs_children (files w) c = []
                  then w\<lparr>files := fs_del c (files w)\<rparr> else w)"

definition scandir :: "(string \<Rightarrow> bool) \<Rightarrow> world \<Rightarrow> string \<Rightarrow> string list option" where
  "scandir filt w p =
     (case resolve w p of None \<Rightarrow> None
      | Some c \<Rightarrow>
          if fs_get (files w) c = Some Directory
          then Some (sort (filter filt (''.'' # ''..'' # fs_children (files w) c))) else None)"

definition open_trunc :: "string \<Rightarrow> world \<Rightarrow> (string list \<times> world) option" where
  "open_trunc p w =
     (case resolve_new w p of None \<Rightarrow> None
      | Some c \<Rightarrow> if fs_get (files w) c = Some Directory then None
                  else Some (c, w\<lparr>files := fs_put c (Reg []) (files w)\<rparr>))"

definition write_fd :: "string list \<Rightarrow> string \<Rightarrow> world \<Rightarrow> world" where
  "write_fd c s w =
     (case fs_get (files w) c of
        Some (Reg t) \<Rightarrow> w\<lparr>files := fs_put c (Reg (t @ s)) (files w)\<rparr>
      | _ \<Rightarrow> w)"

definition open_read :: "world \<Rightarrow> string \<Rightarrow> string option" where
  "open_read w p =
     (case stat_node w p of None \<Rightarrow> None | Some (Reg s) \<Rightarrow> Some s | Some Directory \<Rightarrow> Some [])"

definition printf_out :: "string \<Rightarrow> world \<Rightarrow> world" where
  "printf_out s w = w\<lparr>outs := outs w @ s\<rparr>"

definition printf_err :: "string \<Rightarrow> world \<Rightarrow> world" where
  "printf_err s w = w\<lparr>errs := errs w @ s\<rparr>"

definition sprintf_buf :: "nat \<Rightarrow> string \<Rightarrow> stop + string" where
  "sprintf_buf n s = (if length s < n then Inr s else Inl (Undef Buffer_Overflow))"

definition abs_path :: "world \<Rightarrow> string \<Rightarrow> stop + string" where
  "abs_path w a =
     (if a = [] \<or> hd a \<noteq> SLASH
      then (case realpath w a of None \<Rightarrow> Inl (Undef Uninitialised) | Some q \<Rightarrow> Inr q)
      else sprintf_buf BUFMAX a)"

definition init_read :: "'a option \<Rightarrow> stop + 'a" where
  "init_read x = (case x of None \<Rightarrow> Inl (Undef Uninitialised) | Some v \<Rightarrow> Inr v)"

definition read_buf :: "nat \<Rightarrow> string \<Rightarrow> char option list" where
  "read_buf n s = map Some (take n s) @ replicate (n - length s) None"

fun buf_str :: "char option list \<Rightarrow> stop + string" where
  "buf_str [] = Inl (Undef Out_Of_Bounds)"
| "buf_str (None # b) = Inl (Undef Uninitialised)"
| "buf_str (Some c # b) = (if c = NUL then Inr [] else run_bind (buf_str b) (\<lambda>s. Inr (c # s)))"

fun strcmp_buf :: "char option list \<Rightarrow> char option list \<Rightarrow> stop + int" where
  "strcmp_buf (Some a # as) (Some b # bs) =
     (if a \<noteq> b then Inr (int (of_char a) - int (of_char b))
      else if a = NUL then Inr 0 else strcmp_buf as bs)"
| "strcmp_buf (None # as) bs = Inl (Undef Uninitialised)"
| "strcmp_buf as (None # bs) = Inl (Undef Uninitialised)"
| "strcmp_buf as bs = Inl (Undef Out_Of_Bounds)"

definition system :: "(string \<Rightarrow> world \<Rightarrow> fs) \<Rightarrow> string \<Rightarrow> world \<Rightarrow> world" where
  "system sh cmd w = w\<lparr>files := sh cmd w, cmds := cmds w @ [cmd]\<rparr>"

section \<open>The store's contract\<close>

text \<open>
  What the tools rely on: reading back a write, the listing of a directory, and that every object
  sits in a directory under a legal name. \<open>below\<close> facts are derived once from the contract.
\<close>

locale file_store =
  fixes get :: "'f \<Rightarrow> string list \<Rightarrow> fnode option"
    and put :: "string list \<Rightarrow> fnode \<Rightarrow> 'f \<Rightarrow> 'f"
    and del :: "string list \<Rightarrow> 'f \<Rightarrow> 'f"
    and children :: "'f \<Rightarrow> string list \<Rightarrow> string list"
    and ok :: "'f \<Rightarrow> bool"
  assumes get_root: "get f [] = Some Directory"
    and get_put: "p \<noteq> [] \<Longrightarrow> get (put p n f) q = (if q = p then Some n else get f q)"
    and get_del: "p \<noteq> [] \<Longrightarrow> get (del p f) q = (if q = p then None else get f q)"
    and children_iff: "ok f \<Longrightarrow> m \<in> set (children f p) \<longleftrightarrow> get f (p @ [m]) \<noteq> None"
    and children_distinct: "ok f \<Longrightarrow> distinct (children f p)"
    and ok_child: "ok f \<Longrightarrow> get f (p @ [m]) \<noteq> None \<Longrightarrow> valid_name m \<and> get f p = Some Directory"
    and ok_put: "ok f \<Longrightarrow> get f d = Some Directory \<Longrightarrow> valid_name m
      \<Longrightarrow> (get f (d @ [m]) = Some Directory \<longrightarrow> n = Directory) \<Longrightarrow> ok (put (d @ [m]) n f)"
    and ok_del: "ok f \<Longrightarrow> p \<noteq> [] \<Longrightarrow> children f p = [] \<Longrightarrow> ok (del p f)"
begin

lemma get_above: "ok f \<Longrightarrow> get f (p @ m # r) \<noteq> None \<Longrightarrow> get f p = Some Directory \<and> valid_name m"
proof (induction r arbitrary: p m rule: rev_induct)
  case Nil
  then show ?case using ok_child [of f p m] by simp
next
  case (snoc x xs)
  have "get f ((p @ m # xs) @ [x]) \<noteq> None" using snoc.prems(2) by simp
  then have "get f (p @ m # xs) = Some Directory"
    using ok_child [OF snoc.prems(1)] by blast
  then have "get f (p @ m # xs) \<noteq> None" by simp
  then show ?case by (rule snoc.IH [OF snoc.prems(1)])
qed

lemma names_valid: "ok f \<Longrightarrow> get f p \<noteq> None \<Longrightarrow> m \<in> set p \<Longrightarrow> valid_name m"
  using get_above by (metis split_list)

lemma none_below: "ok f \<Longrightarrow> get f p \<noteq> Some Directory \<Longrightarrow> get f (p @ m # r) = None"
  using get_above [of f p m r] by blast

lemma none_below_None: "ok f \<Longrightarrow> get f p = None \<Longrightarrow> get f (p @ r) = None"
  using none_below [of f p] by (cases r) auto

lemma put_file_other: "p \<noteq> [] \<Longrightarrow> q \<noteq> p \<Longrightarrow> get (put p n f) q = get f q"
  by (simp add: get_put)

end

lemma map_fst_update: "map fst (AList.update k v al) =
    (if k \<in> fst ` set al then map fst al else map fst al @ [k])"
  by (induction al) auto

lemma fs_get_put [simp]:
  "p \<noteq> [] \<Longrightarrow> fs_get (fs_put p n f) q = (if q = p then Some n else fs_get f q)"
  by (auto simp: fs_get_def fs_put_def update_conv')

lemma fs_get_del [simp]:
  "p \<noteq> [] \<Longrightarrow> fs_get (fs_del p f) q = (if q = p then None else fs_get f q)"
  by (auto simp: fs_get_def fs_del_def delete_conv')

lemma fs_get_root [simp]: "fs_get f [] = Some Directory"
  by (simp add: fs_get_def)

lemma set_fs_children: "m \<in> set (fs_children f p) \<longleftrightarrow> fs_get f (p @ [m]) \<noteq> None"
  by (force simp: fs_children_def fs_get_def map_of_eq_None_iff image_iff
      intro: append_butlast_last_id [symmetric])

lemma distinct_fs_children: "distinct (map fst f) \<Longrightarrow> distinct (fs_children f p)"
proof -
  let ?ks = "filter (\<lambda>k. k \<noteq> [] \<and> butlast k = p) (map fst f)"
  assume "distinct (map fst f)"
  then have "distinct ?ks" by (rule distinct_filter)
  moreover have "inj_on last (set ?ks)"
    by (rule inj_onI) (metis (mono_tags, lifting) append_butlast_last_id filter_set Set.filter_eq mem_Collect_eq)
  ultimately show ?thesis unfolding fs_children_def distinct_map by blast
qed

lemma fs_get_in_keys: "k \<noteq> [] \<Longrightarrow> fs_get f k \<noteq> None \<longleftrightarrow> k \<in> set (map fst f)"
  unfolding fs_get_def by (simp only: if_False map_of_eq_None_iff set_map not_not)

lemma fs_wf_iff:
  "fs_wf f \<longleftrightarrow> distinct (map fst f) \<and> [] \<notin> set (map fst f) \<and>
     (\<forall>p m. fs_get f (p @ [m]) \<noteq> None \<longrightarrow> valid_name m \<and> fs_get f p = Some Directory)"
    (is "_ \<longleftrightarrow> ?d \<and> ?r \<and> ?c")
proof
  assume wf: "fs_wf f"
  then have ?c unfolding fs_wf_def
    by (metis append_is_Nil_conv butlast_snoc fs_get_in_keys last_snoc not_Cons_self2)
  with wf show "?d \<and> ?r \<and> ?c" unfolding fs_wf_def by blast
next
  assume a: "?d \<and> ?r \<and> ?c"
  have "k \<noteq> [] \<and> valid_name (last k) \<and> fs_get f (butlast k) = Some Directory"
    if k: "k \<in> set (map fst f)" for k
  proof -
    have ne: "k \<noteq> []" using a k by metis
    then have "fs_get f (butlast k @ [last k]) \<noteq> None" using k fs_get_in_keys [of k f] by simp
    with a ne show ?thesis by blast
  qed
  with a show "fs_wf f" unfolding fs_wf_def by blast
qed

lemma keys_put: "k \<in> set (map fst (fs_put p n f)) \<longleftrightarrow> k = p \<or> k \<in> set (map fst f)"
  by (auto simp: fs_put_def map_fst_update simp flip: set_map)

lemma fs_wf_put:
  assumes "fs_wf f" "fs_get f d = Some Directory" "valid_name m"
    and "fs_get f (d @ [m]) = Some Directory \<longrightarrow> n = Directory"
  shows "fs_wf (fs_put (d @ [m]) n f)"
proof -
  have "distinct (map fst (fs_put (d @ [m]) n f))"
    using assms(1) unfolding fs_wf_def fs_put_def by (blast intro: distinct_update)
  moreover have "[] \<notin> set (map fst (fs_put (d @ [m]) n f))"
    using assms(1) unfolding fs_wf_iff keys_put by blast
  moreover have "valid_name x \<and> fs_get (fs_put (d @ [m]) n f) p = Some Directory"
    if "fs_get (fs_put (d @ [m]) n f) (p @ [x]) \<noteq> None" for p x
    using that assms unfolding fs_wf_iff by (fastforce split: if_splits)
  ultimately show ?thesis unfolding fs_wf_iff by blast
qed

lemma fs_wf_del:
  assumes "fs_wf f" "p \<noteq> []" "fs_children f p = []"
  shows "fs_wf (fs_del p f)"
proof -
  have "distinct (map fst (fs_del p f))" "[] \<notin> set (map fst (fs_del p f))"
    using assms(1) unfolding fs_wf_iff fs_del_def
    by (simp_all only: delete_keys set_removeAll distinct_removeAll Diff_iff simp_thms)
  moreover have "fs_get f (p @ [x]) = None" for x
    using assms(3) set_fs_children [of x f p] by simp
  then have "valid_name x \<and> fs_get (fs_del p f) q = Some Directory"
    if "fs_get (fs_del p f) (q @ [x]) \<noteq> None" for q x
    using that assms unfolding fs_wf_iff by (fastforce split: if_splits)
  ultimately show ?thesis unfolding fs_wf_iff by blast
qed

interpretation fstore: file_store fs_get fs_put fs_del fs_children fs_wf
proof unfold_locales
  show "fs_wf f \<Longrightarrow> fs_get f (p @ [m]) \<noteq> None \<Longrightarrow> valid_name m \<and> fs_get f p = Some Directory"
    for f p m unfolding fs_wf_iff by blast
  show "fs_wf f \<Longrightarrow> distinct (fs_children f p)" for f p
    unfolding fs_wf_iff by (blast intro: distinct_fs_children)
qed (simp_all add: set_fs_children fs_wf_put fs_wf_del)

section \<open>Path resolution facts\<close>

lemma namei_append:
  "namei f cur (xs @ ys) = (case namei f cur xs of None \<Rightarrow> None | Some c \<Rightarrow> namei f c ys)"
  by (induction f cur xs rule: namei.induct) auto

lemma namei_exists: "fs_get f cur \<noteq> None \<Longrightarrow> fs_wf f \<Longrightarrow> namei f cur cs = Some c \<Longrightarrow> fs_get f c \<noteq> None"
proof (induction f cur cs rule: namei.induct)
  case (2 f cur c cs)
  have "fs_get f (butlast cur) \<noteq> None"
    using fstore.get_above [of f "butlast cur" "last cur" "[]"] "2.prems"
    by (cases "cur = []") auto
  with 2 show ?case by (auto split: if_splits)
qed auto

definition fs_mono :: "fs \<Rightarrow> fs \<Rightarrow> bool" where
  "fs_mono f g \<longleftrightarrow> (\<forall>p. (fs_get f p = Some Directory \<longrightarrow> fs_get g p = Some Directory)
     \<and> (fs_get f p \<noteq> None \<longrightarrow> fs_get g p \<noteq> None))"

lemma fs_mono_refl [simp]: "fs_mono f f"
  by (simp add: fs_mono_def)

lemma fs_mono_trans: "fs_mono f g \<Longrightarrow> fs_mono g h \<Longrightarrow> fs_mono f h"
  unfolding fs_mono_def by blast

lemma fs_mono_put:
  "p \<noteq> [] \<Longrightarrow> (fs_get f p = Some Directory \<longrightarrow> n = Directory) \<Longrightarrow> fs_mono f (fs_put p n f)"
  by (auto simp: fs_mono_def)

lemma namei_mono: "fs_mono f g \<Longrightarrow> namei f cur cs = Some c \<Longrightarrow> namei g cur cs = Some c"
  by (induction f cur cs rule: namei.induct) (auto simp: fs_mono_def split: if_splits)

lemma resolve_mono:
  "fs_mono (files w) (files v) \<Longrightarrow> cwd v = cwd w \<Longrightarrow> resolve w p = Some c \<Longrightarrow> resolve v p = Some c"
  by (auto simp: resolve_def start_dir_def namei_mono split: if_splits)

lemma resolve_cong: "files v = files w \<Longrightarrow> cwd v = cwd w \<Longrightarrow> resolve v p = resolve w p"
  by (simp add: resolve_def start_dir_def)

lemma printf_frame [simp]:
  "files (printf_out s w) = files w" "files (printf_err s w) = files w"
  "cwd (printf_out s w) = cwd w" "cwd (printf_err s w) = cwd w"
  "resolve (printf_out s w) p = resolve w p" "resolve (printf_err s w) p = resolve w p"
  by (simp_all add: printf_out_def printf_err_def resolve_def start_dir_def)

lemma resolve_nonempty: "resolve w p = Some c \<Longrightarrow> p \<noteq> []"
  by (auto simp: resolve_def split: if_splits)

lemma resolve_length: "resolve w p = Some c \<Longrightarrow> length p < PATH_MAX"
  by (auto simp: resolve_def split: if_splits)

lemma start_dir_child [simp]: "p \<noteq> [] \<Longrightarrow> start_dir w (p @ q) = start_dir w p"
  by (simp add: start_dir_def)

lemma resolve_child:
  assumes "resolve w p = Some c" "fs_get (files w) c = Some Directory" "valid_name n"
    and "length p + 1 + length n < PATH_MAX"
  shows "resolve w (p @ SLASH # n) =
     (if fs_get (files w) (c @ [n]) = None then None else Some (c @ [n]))"
proof -
  have "p \<noteq> []" using assms(1) by (rule resolve_nonempty)
  moreover have "namei (files w) (start_dir w p) (split_on SLASH p) = Some c"
    using assms(1) by (auto simp: resolve_def split: if_splits)
  ultimately show ?thesis using assms
    by (simp add: resolve_def valid_name_def split_on_snoc namei_append)
qed

lemma resolve_new_child:
  assumes "resolve w p = Some c" "fs_get (files w) c = Some Directory" "valid_name n"
    and "length p + 1 + length n < PATH_MAX"
  shows "resolve_new w (p @ SLASH # n) = Some (c @ [n])"
proof -
  have "p \<noteq> []" using assms(1) by (rule resolve_nonempty)
  moreover have "namei (files w) (start_dir w p) (split_on SLASH p) = Some c"
    using assms(1) by (auto simp: resolve_def split: if_splits)
  ultimately show ?thesis using assms
    by (simp add: resolve_new_def valid_name_def split_on_snoc)
qed

lemma strip_slashes_child [simp]: "valid_name n \<Longrightarrow> strip_slashes (p @ SLASH # n) = p @ SLASH # n"
  by (cases n rule: rev_cases) (auto simp: valid_name_def strip_slashes_def)

lemma mkdir_child:
  assumes "resolve w p = Some c" "fs_get (files w) c = Some Directory" "valid_name n"
    and "length p + 1 + length n < PATH_MAX" "fs_get (files w) (c @ [n]) = None"
  shows "mkdir (p @ SLASH # n) w = w\<lparr>files := fs_put (c @ [n]) Directory (files w)\<rparr>"
  using assms resolve_new_child [OF assms(1-4)] by (simp add: mkdir_def)

lemma open_trunc_child:
  assumes "resolve w p = Some c" "fs_get (files w) c = Some Directory" "valid_name n"
    and "length p + 1 + length n < PATH_MAX" "fs_get (files w) (c @ [n]) \<noteq> Some Directory"
  shows "open_trunc (p @ SLASH # n) w =
     Some (c @ [n], w\<lparr>files := fs_put (c @ [n]) (Reg []) (files w)\<rparr>)"
  using assms resolve_new_child [OF assms(1-4)] by (simp add: open_trunc_def)

section \<open>Listings and frames\<close>

definition visible :: "string list \<Rightarrow> bool" where
  "visible r \<longleftrightarrow> ''.git'' \<notin> set r"

definition only_files :: "world \<Rightarrow> world \<Rightarrow> bool" where
  "only_files w w' \<longleftrightarrow> cwd w' = cwd w \<and> outs w' = outs w \<and> errs w' = errs w \<and> cmds w' = cmds w"

lemma only_files_trans: "only_files w w1 \<Longrightarrow> only_files w1 w2 \<Longrightarrow> only_files w w2"
  by (simp add: only_files_def)

lemma join_path_append [simp]: "join_path (xs @ ys) = join_path xs @ join_path ys"
  by (induction xs) auto

lemma parallel_below: "F \<parallel> S \<Longrightarrow> \<not> prefix (S @ a) (F @ b)"
  by (meson append_prefixD parallelD1 parallelD2 prefix_same_cases prefixI)

lemma valid_name_cstring: "valid_name n \<Longrightarrow> cstring n"
  by (simp add: valid_name_def)

definition tool_filter :: "(string \<Rightarrow> bool) \<Rightarrow> bool" where
  "tool_filter filt \<longleftrightarrow>
     (\<forall>n. cstring n \<longrightarrow> (filt n \<longleftrightarrow> n \<noteq> ''.'' \<and> n \<noteq> ''..'' \<and> n \<noteq> ''.git''))"

lemma scandir_listing:
  assumes filt: "tool_filter filt"
    and w: "fs_wf (files w)" "resolve w p = Some c" "fs_get (files w) c = Some Directory"
  obtains ns where "scandir filt w p = Some ns" "distinct ns" "sorted ns"
    "\<And>n. n \<in> set ns \<longleftrightarrow> fs_get (files w) (c @ [n]) \<noteq> None \<and> n \<noteq> ''.git''"
proof
  let ?ns = "sort (filter filt (''.'' # ''..'' # fs_children (files w) c))"
  show "scandir filt w p = Some ?ns" using w by (simp add: scandir_def)
  have dots: "\<not> filt ''.''" "\<not> filt ''..''"
    using filt by (simp_all add: tool_filter_def cstring_def NUL_def)
  show "distinct ?ns" using fstore.children_distinct [OF w(1)] dots by simp
  show "sorted ?ns" by simp
  fix n
  have "filt n \<longleftrightarrow> n \<noteq> ''.git''" if "fs_get (files w) (c @ [n]) \<noteq> None"
    using fstore.ok_child [OF w(1) that] filt by (auto simp: valid_name_def tool_filter_def)
  then show "n \<in> set ?ns \<longleftrightarrow> fs_get (files w) (c @ [n]) \<noteq> None \<and> n \<noteq> ''.git''"
    using dots by (auto simp: set_fs_children)
qed

lemma resolve_join:
  assumes wf: "fs_wf (files w)" and "resolve w m = Some M" "fs_get (files w) M = Some Directory"
    and "\<forall>n \<in> set r. valid_name n" "length m + length (join_path r) < PATH_MAX"
  shows "resolve w (m @ join_path r) =
    (if fs_get (files w) (M @ r) = None then None else Some (M @ r))"
  using assms(4,5)
proof (induction r rule: rev_induct)
  case Nil
  then show ?case using assms(2,3) by simp
next
  case (snoc n r)
  have IH: "resolve w (m @ join_path r) = (if fs_get (files w) (M @ r) = None then None else Some (M @ r))"
    using snoc by simp
  show ?case
  proof (cases "fs_get (files w) (M @ r) = Some Directory")
    case True
    with IH have "resolve w (m @ join_path r) = Some (M @ r)" by simp
    from resolve_child [OF this True, of n] snoc.prems show ?thesis by simp
  next
    case False
    then have none: "fs_get (files w) ((M @ r) @ [n]) = None" by (rule fstore.none_below [OF wf])
    have mne: "m \<noteq> []" using assms(2) by (rule resolve_nonempty)
    have "namei (files w) (start_dir w m) (split_on SLASH (m @ join_path r)) \<noteq> Some c"
      if "fs_get (files w) c = Some Directory" for c
      using that IH False snoc.prems(2) mne
      by (auto simp: resolve_def split: if_splits)
    then have "namei (files w) (start_dir w m) (split_on SLASH (m @ join_path r) @ [n]) = None"
      using snoc.prems(1) by (auto simp: namei_append valid_name_def split: option.splits)
    moreover have "split_on SLASH (m @ join_path (r @ [n])) = split_on SLASH (m @ join_path r) @ [n]"
      using split_on_snoc [of SLASH n "m @ join_path r"] snoc.prems(1) by (simp add: valid_name_def)
    ultimately show ?thesis using none mne by (simp add: resolve_def del: join_path_append)
  qed
qed

lemma buf_str_map: "cstring s \<Longrightarrow> buf_str (map Some s @ Some NUL # b) = Inr s"
  by (induction s) auto

lemma strcmp_buf_map:
  "cstring a \<Longrightarrow> cstring b \<Longrightarrow>
     \<exists>n. strcmp_buf (map Some a @ [Some NUL]) (map Some b @ [Some NUL]) = Inr n \<and> (n = 0 \<longleftrightarrow> a = b)"
proof (induction a b rule: strcmp.induct)
  case (4 a as b bs)
  then show ?case by (cases "a = b") auto
next
  case (2 b bs)
  then show ?case using of_char_pos [of b] by (auto simp: NUL_def)
next
  case (3 a as)
  then show ?case using of_char_pos [of a] by (simp add: NUL_def)
qed simp

section \<open>Finite checks\<close>

text \<open>
  A property of everything below a directory can be checked on the finitely many keys of the store.
\<close>

lemma all_below_check:
  assumes "F \<noteq> []" "\<forall>k \<in> set (map fst f). prefix F k \<longrightarrow> Q (drop (length F) k)" "fs_get f (F @ r) \<noteq> None"
  shows "Q r"
proof -
  have "F @ r \<in> set (map fst f)" using fs_get_in_keys [of "F @ r" f] assms(1,3) by simp
  then show ?thesis using assms(2) by fastforce
qed

definition boot_world :: "fs \<Rightarrow> world" where
  "boot_world f = \<lparr>files = f, cwd = [], outs = [], errs = [], cmds = []\<rparr>"

lemmas world_eval = boot_world_def fs_wf_def fs_get_def valid_name_def cstring_def NUL_def SLASH_def
  resolve_def start_dir_def visible_def

end
