(* ===== verification/SkinFormat.thy ===== *)
theory SkinFormat
  imports Posix
begin

text \<open>
  The record that \<open>skin.c\<close> writes for a file and that \<open>molt.c\<close> and \<open>ssu_diff.c\<close> read back:
  32 hexadecimal digits, a bar, the path of the file, and a NUL. The readers take the first 33
  bytes into a buffer, overwrite the bar with a NUL and compare the digits as C strings.
\<close>

definition skin_rec :: "string \<Rightarrow> string \<Rightarrow> string" where
  "skin_rec h p = h @ CHR ''|'' # p @ [NUL]"

definition skin_hash :: "string \<Rightarrow> string" where
  "skin_hash s = take (HASHLEN - 1) s"

definition skin_path :: "string \<Rightarrow> string" where
  "skin_path s = takeWhile (\<lambda>c. c \<noteq> NUL) (drop HASHLEN s)"

definition wf_skin :: "string \<Rightarrow> bool" where
  "wf_skin s \<longleftrightarrow> (\<exists>h p. s = skin_rec h p \<and> length h = HASHLEN - 1 \<and> cstring h \<and> cstring p
     \<and> length p < BUFMAX)"

lemma hash_buf:
  assumes "length h = HASHLEN - 1"
  shows "(read_buf HASHLEN (skin_rec h p))[HASHLEN - 1 := Some NUL] = map Some h @ [Some NUL]"
  using assms by (simp add: read_buf_def skin_rec_def list_update_append)

lemma path_buf:
  assumes "length h = HASHLEN - 1" "length p < BUFMAX"
  shows "\<exists>b. read_buf BUFMAX (drop HASHLEN (skin_rec h p)) = map Some p @ Some NUL # b"
  using assms by (simp add: read_buf_def skin_rec_def)

lemma skin_rec_parts [simp]:
  assumes "length h = HASHLEN - 1" "cstring p"
  shows "skin_hash (skin_rec h p) = h" "skin_path (skin_rec h p) = p"
  using assms by (auto simp: skin_hash_def skin_path_def skin_rec_def cstring_def takeWhile_append)

lemma wf_skin_hash_buf:
  assumes "wf_skin s"
  shows "(read_buf HASHLEN s)[HASHLEN - 1 := Some NUL] = map Some (skin_hash s) @ [Some NUL]" "cstring (skin_hash s)"
  using assms hash_buf by (auto simp: wf_skin_def)

lemma wf_skin_path_buf:
  assumes "wf_skin s"
  shows "\<exists>b. read_buf BUFMAX (drop HASHLEN s) = map Some (skin_path s) @ Some NUL # b" "cstring (skin_path s)"
  using assms path_buf by (auto simp: wf_skin_def)

lemma wf_skinI:
  "length h = HASHLEN - 1 \<Longrightarrow> cstring h \<Longrightarrow> cstring p \<Longrightarrow> length p < BUFMAX \<Longrightarrow> wf_skin (skin_rec h p)"
  unfolding wf_skin_def by blast

end
