(* ===== verification/Skin.thy ===== *)
theory Skin
  imports SkinFormat
begin

text \<open>
  \<open>3-3/src/comp_kernel/skin.c\<close>: the tool that mirrors a kernel tree into a \<^emph>\<open>skin\<close>, a tree of
  the same shape whose files hold the MD5 digest of the original file and its path. OpenSSL's
  three MD5 entry points are a parameter; the contract \<open>md5_contract\<close> is what their manual
  page promises.
\<close>

record 'c md5_api =
  MD5_Init :: 'c
  MD5_Update :: "'c \<Rightarrow> string \<Rightarrow> 'c"
  MD5_Final :: "'c \<Rightarrow> string"

section \<open>Operations\<close>

definition SKIN_SUFFIX :: string where
  "SKIN_SUFFIX = ''__skin''"

definition skin_filter :: "string \<Rightarrow> bool" where
  "skin_filter d_name =
     (if strcmp d_name ''.'' = 0 \<or> strcmp d_name ''..'' = 0 \<or> strcmp d_name ''.git'' = 0
      then False else True)"

definition hexdigit :: "nat \<Rightarrow> char" where
  "hexdigit n = ''0123456789abcdef'' ! (n mod 16)"

definition hex2 :: "char \<Rightarrow> string" where
  "hex2 c = [hexdigit (of_char c div 16), hexdigit (of_char c)]"

function md5_feed :: "'c md5_api \<Rightarrow> 'c \<Rightarrow> string \<Rightarrow> 'c" where
  "md5_feed A ctx s =
     (if s = [] then ctx else md5_feed A (MD5_Update A ctx (take 1024 s)) (drop 1024 s))"
  by pat_completeness auto
termination
  by (relation "measure (\<lambda>(A, ctx, s). length s)") auto

declare md5_feed.simps [simp del]

definition md5 :: "'c md5_api \<Rightarrow> string \<Rightarrow> world \<Rightarrow> int \<times> string option \<times> world" where
  "md5 A target_path w =
     (case open_read w target_path of
        None \<Rightarrow> (1, None, printf_out (''ERROR: fopen error for '' @ target_path @ NL) w)
      | Some s \<Rightarrow>
          let hash = MD5_Final A (md5_feed A (MD5_Init A) s)
          in (0, Some (concat (map hex2 (take 16 hash))), w))"

definition skinning_file :: "'c md5_api \<Rightarrow> string \<Rightarrow> string \<Rightarrow> world \<Rightarrow> run" where
  "skinning_file A fpath spath w =
     (let (ret, hash, w1) = md5 A fpath w in
      case open_trunc spath w1 of
        None \<Rightarrow> Inl (Exit 1 (printf_err (''open error for '' @ spath @ NL) w1))
      | Some (fd, w2) \<Rightarrow>
          run_bind (init_read hash) (\<lambda>h.
          run_bind (sprintf_buf BUFMAX (h @ ''|'' @ fpath)) (\<lambda>buf.
          Inr (write_fd fd (buf @ [NUL]) w2))))"

function (sequential)
  skinning_dir :: "'c md5_api \<Rightarrow> string \<Rightarrow> string \<Rightarrow> world \<Rightarrow> run"
and skinning_loop :: "'c md5_api \<Rightarrow> string \<Rightarrow> string \<Rightarrow> bool option \<Rightarrow> string list \<Rightarrow> world \<Rightarrow> run"
where
  "skinning_dir A fpath spath w =
     (case scandir skin_filter w fpath of
        None \<Rightarrow> Inr (printf_err (''in function skinning_dir: scandir error'' @ NL) w)
      | Some filelist \<Rightarrow> skinning_loop A fpath spath None filelist w)"
| "skinning_loop A fpath spath statbuf [] w = Inr w"
| "skinning_loop A fpath spath statbuf (d_name # filelist) w =
     run_bind (sprintf_buf BUFMAX (fpath @ SLASH # d_name)) (\<lambda>tmp_fpath.
     run_bind (sprintf_buf BUFMAX (spath @ SLASH # d_name)) (\<lambda>tmp_spath.
     let statbuf' = stat_buf w tmp_fpath statbuf in
     run_bind (init_read statbuf') (\<lambda>isdir.
     run_bind (if isdir then skinning_dir A tmp_fpath tmp_spath (mkdir tmp_spath w)
               else skinning_file A tmp_fpath tmp_spath w) (\<lambda>w'.
     skinning_loop A fpath spath statbuf' filelist w'))))"
  by pat_completeness auto
termination
  by (relation "measures [
      \<lambda>x. case x of Inl (A, f, s, w) \<Rightarrow> BUFMAX - length f | Inr (A, f, s, b, l, w) \<Rightarrow> BUFMAX - length f,
      \<lambda>x. case x of Inl _ \<Rightarrow> 1 | Inr _ \<Rightarrow> 0,
      \<lambda>x. case x of Inl _ \<Rightarrow> 0 | Inr (A, f, s, b, l, w) \<Rightarrow> length l]")
     (auto simp: sprintf_buf_def split: if_splits)

declare skinning_dir.simps [simp del]

definition skin_body :: "'c md5_api \<Rightarrow> string \<Rightarrow> string list \<Rightarrow> world \<Rightarrow> run" where
  "skin_body A prog args w =
     (if length args < 2
      then Inl (Exit 1 (printf_err
        (''usage : '' @ prog @ '' <directory path> <skin directory path>'' @ NL) w))
      else let arg1 = args ! 0; arg2 = args ! 1 in
      if \<not> access_ok w arg1 \<or> \<not> access_ok w arg2
      then Inl (Exit 1 (printf_err
        (''usage : '' @ prog @ '' <directory path> <skin directory path'' @ NL) w))
      else
      run_bind (init_read (stat_buf w arg1 None)) (\<lambda>isdir1.
      run_bind (init_read (stat_buf w arg2 None)) (\<lambda>isdir2.
      if \<not> isdir1 \<or> \<not> isdir2
      then Inl (Exit 1 (printf_err (arg1 @ '' or '' @ arg2 @ '' is not directory'' @ NL) w))
      else
      run_bind (abs_path w arg1) (\<lambda>fpath.
      run_bind (abs_path w arg2) (\<lambda>spath0.
      let w1 = printf_out (fpath @ '' | '' @ spath0 @ NL) w in
      if strstr spath0 fpath \<noteq> None
      then Inl (Exit 1 (printf_err
        (''<skin directory path> cannot be sub directroy of <directory path>'' @ NL) w1))
      else (case strrchr fpath SLASH of
        None \<Rightarrow> Inl (Undef Null_Pointer)
      | Some i \<Rightarrow>
          let filename = drop (Suc i) fpath in
          run_bind (sprintf_buf BUFMAX (spath0 @ SLASH # filename @ SKIN_SUFFIX)) (\<lambda>spath.
          let w2 = printf_out (spath @ NL) w1;
              w3 = (if access_ok w2 spath then rmdir spath w2 else w2)
          in skinning_dir A fpath spath (mkdir spath w3))))))))"

definition skin_main :: "'c md5_api \<Rightarrow> string \<Rightarrow> string list \<Rightarrow> world \<Rightarrow> stop" where
  "skin_main A prog args w = (case skin_body A prog args w of Inl st \<Rightarrow> st | Inr w' \<Rightarrow> Exit 0 w')"

section \<open>Specification of the skin\<close>

text \<open>
  The image of the tree at \<open>F\<close>: every visible object keeps its place; a file becomes the text
  \<open>digest|path\<close> with its terminating NUL.
\<close>

definition md5_hex :: "'c md5_api \<Rightarrow> string \<Rightarrow> string" where
  "md5_hex A s = concat (map hex2 (take 16 (MD5_Final A (md5_feed A (MD5_Init A) s))))"

definition skin_text :: "'c md5_api \<Rightarrow> string \<Rightarrow> string \<Rightarrow> string" where
  "skin_text A s fpath = md5_hex A s @ ''|'' @ fpath @ [NUL]"

fun skin_node :: "'c md5_api \<Rightarrow> string \<Rightarrow> fnode \<Rightarrow> fnode" where
  "skin_node A fpath Directory = Directory"
| "skin_node A fpath (Reg s) = Reg (skin_text A s fpath)"

definition skin_image :: "'c md5_api \<Rightarrow> fs \<Rightarrow> string list \<Rightarrow> string \<Rightarrow> string list \<Rightarrow> fnode option" where
  "skin_image A f F fpath r =
     (if visible r then map_option (skin_node A (fpath @ join_path r)) (fs_get f (F @ r)) else None)"

definition skin_fits :: "fs \<Rightarrow> string list \<Rightarrow> string \<Rightarrow> string \<Rightarrow> bool" where
  "skin_fits f F fpath spath \<longleftrightarrow>
     (\<forall>r. r \<noteq> [] \<longrightarrow> visible r \<longrightarrow> fs_get f (F @ r) \<noteq> None \<longrightarrow>
        length fpath + length (join_path r) + HASHLEN < BUFMAX \<and>
        length spath + length (join_path r) < BUFMAX)"

definition skin_pre :: "world \<Rightarrow> string \<Rightarrow> string list \<Rightarrow> string \<Rightarrow> string list \<Rightarrow> bool" where
  "skin_pre w fpath F spath S \<longleftrightarrow>
     fs_wf (files w) \<and> resolve w fpath = Some F \<and> fs_get (files w) F = Some Directory \<and>
     resolve w spath = Some S \<and> fs_get (files w) S = Some Directory \<and> F \<parallel> S \<and>
     skin_fits (files w) F fpath spath"

definition skinned ::
  "'c md5_api \<Rightarrow> world \<Rightarrow> string list \<Rightarrow> string \<Rightarrow> string list \<Rightarrow> string list \<Rightarrow> world \<Rightarrow> bool" where
  "skinned A w F fpath S ns w' \<longleftrightarrow>
     only_files w w' \<and> fs_wf (files w') \<and>
     (\<forall>n \<in> set ns. \<forall>r. fs_get (files w') (S @ n # r) = skin_image A (files w) F fpath (n # r)) \<and>
     (\<forall>p. (\<forall>n \<in> set ns. \<not> prefix (S @ [n]) p) \<longrightarrow> fs_get (files w') p = fs_get (files w) p)"

definition skinned_dir ::
  "'c md5_api \<Rightarrow> world \<Rightarrow> string list \<Rightarrow> string \<Rightarrow> string list \<Rightarrow> world \<Rightarrow> bool" where
  "skinned_dir A w F fpath S w' \<longleftrightarrow>
     only_files w w' \<and> fs_wf (files w') \<and>
     (\<forall>r. r \<noteq> [] \<longrightarrow> fs_get (files w') (S @ r) = skin_image A (files w) F fpath r) \<and>
     (\<forall>p. \<not> strict_prefix S p \<longrightarrow> fs_get (files w') p = fs_get (files w) p)"

section \<open>Proof of the traversal\<close>

lemma length_hex2 [simp]: "length (hex2 c) = 2"
  by (simp add: hex2_def)

lemma length_md5_hex: "length (md5_hex A s) \<le> 32"
proof -
  have "length (concat (map hex2 xs)) = 2 * length xs" for xs
    by (induction xs) auto
  then show ?thesis by (simp add: md5_hex_def)
qed

lemma skin_image_cong:
  "(\<And>r. fs_get f (F @ r) = fs_get g (F @ r)) \<Longrightarrow> skin_image A f F fpath r = skin_image A g F fpath r"
  by (simp add: skin_image_def)

lemma skin_image_child:
  "n \<noteq> ''.git'' \<Longrightarrow>
     skin_image A f (F @ [n]) (fpath @ SLASH # n) r = skin_image A f F fpath (n # r)"
  by (simp add: skin_image_def visible_def)

lemma skinned_frame:
  assumes "skinned A w F fpath S ns w'" "F \<parallel> S"
  shows "fs_get (files w') (F @ r) = fs_get (files w) (F @ r)"
  using assms parallel_below [of F S "[_]" r] unfolding skinned_def by blast

lemma skinned_mono:
  assumes "skinned A w F fpath S ns w'" "fs_wf (files w)"
    and "\<forall>n \<in> set ns. fs_get (files w) (S @ [n]) = None"
  shows "fs_mono (files w) (files w')"
proof -
  have "fs_get (files w') p = fs_get (files w) p" if "fs_get (files w) p \<noteq> None" for p
  proof -
    have "\<not> prefix (S @ [n]) p" if "n \<in> set ns" for n
      using that assms(2,3) fstore.none_below_None [of "files w" "S @ [n]"]
        \<open>fs_get (files w) p \<noteq> None\<close> unfolding prefix_def by metis
    with assms(1) show ?thesis unfolding skinned_def by blast
  qed
  then show ?thesis unfolding fs_mono_def by auto
qed

lemma skinned_pre:
  assumes "skinned A w F fpath S ns w'" "skin_pre w fpath F spath S"
    and "\<forall>n \<in> set ns. fs_get (files w) (S @ [n]) = None"
  shows "skin_pre w' fpath F spath S"
proof -
  have par: "F \<parallel> S" and wf: "fs_wf (files w)" using assms(2) by (auto simp: skin_pre_def)
  have mono: "fs_mono (files w) (files w')" using skinned_mono [OF assms(1) wf assms(3)] .
  have "cwd w' = cwd w" using assms(1) by (simp add: skinned_def only_files_def)
  note res = resolve_mono [OF mono this]
  have "fs_get (files w') (F @ r) = fs_get (files w) (F @ r)" for r
    by (rule skinned_frame [OF assms(1) par])
  then have "skin_fits (files w') F fpath spath" and "fs_get (files w') F = Some Directory"
    using assms(2) by (simp_all add: skin_pre_def skin_fits_def) (metis append_Nil2)
  moreover have "fs_get (files w') S = Some Directory"
    using mono assms(2) by (simp add: fs_mono_def skin_pre_def)
  ultimately show ?thesis using assms(1,2) res
    by (auto simp: skin_pre_def skinned_def)
qed

lemma skinned_Cons:
  assumes 1: "skinned A w F fpath S [n] w1" and 2: "skinned A w1 F fpath S ns w2"
    and "F \<parallel> S" "n \<notin> set ns"
  shows "skinned A w F fpath S (n # ns) w2"
proof -
  have img: "skin_image A (files w1) F fpath r = skin_image A (files w) F fpath r" for r
    by (rule skin_image_cong) (rule skinned_frame [OF 1 assms(3)])
  have "\<not> prefix (S @ [m]) (S @ n # r)" if "m \<in> set ns" for m r
    using that assms(4) by auto
  then have "fs_get (files w2) (S @ n # r) = fs_get (files w1) (S @ n # r)" for r
    using 2 unfolding skinned_def by blast
  then have "\<forall>m \<in> set (n # ns). \<forall>r. fs_get (files w2) (S @ m # r) = skin_image A (files w) F fpath (m # r)"
    using 1 2 unfolding skinned_def img by simp
  moreover have "only_files w w2" using 1 2 unfolding skinned_def by (blast intro: only_files_trans)
  ultimately show ?thesis using 1 2 unfolding skinned_def by simp
qed

lemma skin_filter_ok: "tool_filter skin_filter"
  by (simp add: tool_filter_def skin_filter_def cstring_def NUL_def)

lemma skin_pre_child_bounds:
  assumes "skin_pre w fpath F spath S" "fs_get (files w) (F @ [n]) \<noteq> None" "n \<noteq> ''.git''"
  shows "valid_name n" "length fpath + length n + 34 < BUFMAX" "length spath + length n + 1 < BUFMAX"
proof -
  show "valid_name n" using assms fstore.ok_child [of "files w" F n] by (auto simp: skin_pre_def)
  have "length fpath + length (join_path [n]) + HASHLEN < BUFMAX \<and>
        length spath + length (join_path [n]) < BUFMAX"
    using assms unfolding skin_pre_def skin_fits_def
    by (metis (no_types) empty_set insert_iff list.distinct(1) list.set(2) singletonD visible_def)
  then show "length fpath + length n + 34 < BUFMAX" "length spath + length n + 1 < BUFMAX" by auto
qed

lemma skinning_file_step:
  assumes pre: "skin_pre w fpath F spath S" and reg: "fs_get (files w) (F @ [n]) = Some (Reg c)"
    and n: "n \<noteq> ''.git''" and fresh: "fs_get (files w) (S @ [n]) = None"
  shows "\<exists>w'. skinning_file A (fpath @ SLASH # n) (spath @ SLASH # n) w = Inr w' \<and>
              skinned A w F fpath S [n] w'"
proof -
  have bounds: "valid_name n" "length fpath + length n + 34 < BUFMAX" "length spath + length n + 1 < BUFMAX"
    using skin_pre_child_bounds [OF pre _ n] reg by auto
  have res: "resolve w (fpath @ SLASH # n) = Some (F @ [n])"
    using pre reg bounds resolve_child [of w fpath F n] by (simp add: skin_pre_def)
  have rd: "open_read w (fpath @ SLASH # n) = Some c"
    by (simp add: open_read_def stat_node_def res reg)
  let ?g = "fs_put (S @ [n]) (Reg []) (files w)"
  let ?w = "w\<lparr>files := fs_put (S @ [n]) (Reg (skin_text A c (fpath @ SLASH # n))) ?g\<rparr>"
  have op: "open_trunc (spath @ SLASH # n) w = Some (S @ [n], w\<lparr>files := ?g\<rparr>)"
    using pre bounds fresh by (intro open_trunc_child) (auto simp: skin_pre_def)
  have fit: "length (md5_hex A c) + 1 + length (fpath @ SLASH # n) < BUFMAX"
    using length_md5_hex [of A c] bounds by simp
  have fileeq: "skinning_file A (fpath @ SLASH # n) (spath @ SLASH # n) w = Inr ?w"
    using fit by (simp add: skinning_file_def md5_def rd op Let_def init_read_def sprintf_buf_def
        write_fd_def skin_text_def md5_hex_def [symmetric])
  have wf: "fs_wf (files ?w)"
    using pre bounds fresh by (auto intro!: fs_wf_put simp: skin_pre_def)
  have at: "fs_get (files ?w) (S @ n # r) = skin_image A (files w) F fpath (n # r)" for r
  proof (cases r)
    case Nil
    then show ?thesis using n reg by (simp add: skin_image_def visible_def)
  next
    case (Cons m r')
    have "fs_get (files ?w) ((S @ [n]) @ m # r') = None"
      by (rule fstore.none_below [OF wf]) simp
    moreover have "fs_get (files w) ((F @ [n]) @ m # r') = None"
      using pre reg by (intro fstore.none_below) (auto simp: skin_pre_def)
    ultimately show ?thesis using Cons by (simp add: skin_image_def)
  qed
  have "skinned A w F fpath S [n] ?w"
    using wf at by (auto simp: skinned_def only_files_def)
  with fileeq show ?thesis by blast
qed

lemma skinned_dir_step:
  assumes d: "skinned_dir A (w\<lparr>files := fs_put (S @ [n]) Directory (files w)\<rparr>)
      (F @ [n]) (fpath @ SLASH # n) (S @ [n]) w'"
    and "fs_get (files w) (F @ [n]) = Some Directory" "n \<noteq> ''.git''" "F \<parallel> S"
  shows "skinned A w F fpath S [n] w'"
proof -
  let ?g = "fs_put (S @ [n]) Directory (files w)"
  have "F @ [n] @ r \<noteq> S @ [n]" for r
    using parallel_below [OF assms(4), of "[n]" "[n] @ r"] by auto
  then have img: "skin_image A ?g (F @ [n]) (fpath @ SLASH # n) r = skin_image A (files w) F fpath (n # r)" for r
    using assms(3) by (simp add: skin_image_def visible_def)
  have "fs_get (files w') (S @ n # r) = skin_image A (files w) F fpath (n # r)" for r
  proof (cases r)
    case Nil
    have "fs_get (files w') (S @ [n]) = fs_get ?g (S @ [n])"
      using d by (simp add: skinned_dir_def)
    with Nil show ?thesis using assms(2,3) by (simp add: skin_image_def visible_def)
  next
    case Cons
    then have "fs_get (files w') ((S @ [n]) @ r) = skin_image A ?g (F @ [n]) (fpath @ SLASH # n) r"
      using d unfolding skinned_dir_def by simp
    with img show ?thesis by simp
  qed
  moreover have "fs_get (files w') p = fs_get (files w) p" if "\<not> prefix (S @ [n]) p" for p
  proof -
    have "\<not> strict_prefix (S @ [n]) p" "p \<noteq> S @ [n]" using that by (auto simp: strict_prefix_def)
    with d show ?thesis by (simp add: skinned_dir_def)
  qed
  ultimately show ?thesis using d by (simp add: skinned_def skinned_dir_def only_files_def)
qed

lemma skinned_all_dir:
  assumes s: "skinned A w F fpath S ns w'" and wf: "fs_wf (files w)"
    and ns: "\<And>n. n \<in> set ns \<longleftrightarrow> fs_get (files w) (F @ [n]) \<noteq> None \<and> n \<noteq> ''.git''"
    and fresh: "\<And>n. fs_get (files w) (S @ [n]) = None"
  shows "skinned_dir A w F fpath S w'"
proof -
  have "fs_get (files w') (S @ n # r) = skin_image A (files w) F fpath (n # r)" for n r
  proof (cases "n \<in> set ns")
    case True
    with s show ?thesis by (simp add: skinned_def)
  next
    case False
    have "fs_get (files w') (S @ n # r) = fs_get (files w) (S @ n # r)"
    proof -
      have "\<not> prefix (S @ [m]) (S @ n # r)" if "m \<in> set ns" for m using that False by auto
      with s show ?thesis unfolding skinned_def by blast
    qed
    moreover have "fs_get (files w) ((S @ [n]) @ r) = None"
      by (rule fstore.none_below_None [OF wf fresh])
    moreover have "fs_get (files w) ((F @ [n]) @ r) = None \<or> n = ''.git''"
      using False ns fstore.none_below_None [OF wf, of "F @ [n]" r] by blast
    ultimately show ?thesis by (auto simp: skin_image_def visible_def)
  qed
  then have "fs_get (files w') (S @ r) = skin_image A (files w) F fpath r" if "r \<noteq> []" for r
    using that by (cases r) auto
  moreover have "fs_get (files w') p = fs_get (files w) p" if "\<not> strict_prefix S p" for p
  proof -
    have "\<not> prefix (S @ [n]) p" for n using that by (auto simp: strict_prefix_def prefix_def)
    with s show ?thesis by (simp add: skinned_def)
  qed
  ultimately show ?thesis using s by (simp add: skinned_def skinned_dir_def)
qed

lemma skin_pre_child:
  assumes pre: "skin_pre w fpath F spath S" and d: "fs_get (files w) (F @ [n]) = Some Directory"
    and n: "n \<noteq> ''.git''" and fresh: "fs_get (files w) (S @ [n]) = None"
  shows "skin_pre (w\<lparr>files := fs_put (S @ [n]) Directory (files w)\<rparr>)
     (fpath @ SLASH # n) (F @ [n]) (spath @ SLASH # n) (S @ [n])" (is "skin_pre ?w _ _ _ _")
proof -
  have bounds: "valid_name n" "length fpath + length n + 34 < BUFMAX" "length spath + length n + 1 < BUFMAX"
    using skin_pre_child_bounds [OF pre _ n] d by auto
  have par: "F \<parallel> S" using pre by (simp add: skin_pre_def)
  have other: "F @ r \<noteq> S @ [n]" for r
    using parallel_below [OF par, of "[n]" r] by auto
  have mono: "fs_mono (files w) (files ?w)" using fresh by (simp add: fs_mono_put)
  have resF: "resolve ?w fpath = Some F" and resS: "resolve ?w spath = Some S"
    using pre by (auto simp: skin_pre_def intro: resolve_mono [OF mono])
  have dirs: "fs_get (files ?w) F = Some Directory" "fs_get (files ?w) S = Some Directory"
    "fs_get (files ?w) (F @ [n]) = Some Directory" "fs_get (files ?w) (S @ [n]) = Some Directory"
    using mono pre d by (auto simp: fs_mono_def skin_pre_def)
  have "fs_wf (files ?w)" using pre bounds fresh by (auto intro!: fs_wf_put simp: skin_pre_def)
  moreover have "resolve ?w (fpath @ SLASH # n) = Some (F @ [n])"
    using resolve_child [OF resF dirs(1) bounds(1)] bounds dirs by simp
  moreover have "resolve ?w (spath @ SLASH # n) = Some (S @ [n])"
    using resolve_child [OF resS dirs(2) bounds(1)] bounds dirs by simp
  moreover have "(F @ [n]) \<parallel> (S @ [n])" using par by (rule parallel_append)
  moreover have "skin_fits (files ?w) (F @ [n]) (fpath @ SLASH # n) (spath @ SLASH # n)"
    unfolding skin_fits_def
  proof (intro allI impI)
    fix r assume "r \<noteq> []" "visible r" "fs_get (files ?w) ((F @ [n]) @ r) \<noteq> None"
    then have "visible (n # r)" "fs_get (files w) (F @ n # r) \<noteq> None"
      using n other [of "n # r"] by (auto simp: visible_def)
    moreover have "skin_fits (files w) F fpath spath" using pre by (simp add: skin_pre_def)
    ultimately have "length fpath + length (join_path (n # r)) + HASHLEN < BUFMAX \<and>
        length spath + length (join_path (n # r)) < BUFMAX"
      unfolding skin_fits_def by blast
    then show "length (fpath @ SLASH # n) + length (join_path r) + HASHLEN < BUFMAX \<and>
        length (spath @ SLASH # n) + length (join_path r) < BUFMAX" by simp
  qed
  ultimately show ?thesis using dirs by (simp add: skin_pre_def)
qed

lemma stat_buf_child:
  assumes "skin_pre w fpath F spath S" "fs_get (files w) (F @ [n]) = Some x" "n \<noteq> ''.git''"
  shows "stat_buf w (fpath @ SLASH # n) b = Some (x = Directory)"
proof -
  have "resolve w (fpath @ SLASH # n) = Some (F @ [n])"
    using assms skin_pre_child_bounds [OF assms(1) _ assms(3)] resolve_child [of w fpath F n]
    by (simp add: skin_pre_def)
  then show ?thesis using assms(2) by (simp add: stat_buf_def stat_node_def)
qed

lemma skinning_correct:
  shows "skin_pre w fpath F spath S \<Longrightarrow> (\<forall>n. fs_get (files w) (S @ [n]) = None) \<Longrightarrow>
      \<exists>w'. skinning_dir A fpath spath w = Inr w' \<and> skinned_dir A w F fpath S w'"
    and "skin_pre w fpath F spath S \<Longrightarrow> distinct ns \<Longrightarrow>
      (\<forall>n \<in> set ns. fs_get (files w) (F @ [n]) \<noteq> None \<and> n \<noteq> ''.git'' \<and> fs_get (files w) (S @ [n]) = None) \<Longrightarrow>
      \<exists>w'. skinning_loop A fpath spath b ns w = Inr w' \<and> skinned A w F fpath S ns w'"
proof (induction A fpath spath w and A fpath spath b ns w arbitrary: F S and F S
    rule: skinning_dir_skinning_loop.induct)
  case (1 A fpath spath w)
  then have wf: "fs_wf (files w)" and res: "resolve w fpath = Some F"
    and dir: "fs_get (files w) F = Some Directory" by (auto simp: skin_pre_def)
  obtain ns where ns: "scandir skin_filter w fpath = Some ns" "distinct ns" "sorted ns"
    "\<And>n. n \<in> set ns \<longleftrightarrow> fs_get (files w) (F @ [n]) \<noteq> None \<and> n \<noteq> ''.git''"
    by (rule scandir_listing [OF skin_filter_ok wf res dir]) blast
  then obtain w' where w': "skinning_loop A fpath spath None ns w = Inr w'"
    "skinned A w F fpath S ns w'"
    using "1.IH" [OF ns(1) "1.prems"(1) ns(2)] "1.prems"(2) by blast
  moreover have "skinned_dir A w F fpath S w'"
    using skinned_all_dir [OF w'(2) wf ns(4)] "1.prems"(2) by blast
  ultimately show ?case by (simp add: skinning_dir.simps ns(1))
next
  case (2 A fpath spath b w)
  then show ?case by (simp add: skinned_def only_files_def skin_pre_def)
next
  case (3 A fpath spath b n ns w)
  let ?f = "fpath @ SLASH # n" and ?s = "spath @ SLASH # n"
  let ?w = "w\<lparr>files := fs_put (S @ [n]) Directory (files w)\<rparr>"
  from "3.prems" obtain x where x: "fs_get (files w) (F @ [n]) = Some x" and n: "n \<noteq> ''.git''"
    and fresh: "fs_get (files w) (S @ [n]) = None" and par: "F \<parallel> S"
    by (auto simp: skin_pre_def)
  have bounds: "valid_name n" "length fpath + length n + 34 < BUFMAX" "length spath + length n + 1 < BUFMAX"
    using skin_pre_child_bounds [OF "3.prems"(1) _ n] x by auto
  have bufs: "sprintf_buf BUFMAX ?f = Inr ?f" "sprintf_buf BUFMAX ?s = Inr ?s"
    using bounds by (auto simp: sprintf_buf_def)
  have st: "stat_buf w ?f b = Some (x = Directory)" by (rule stat_buf_child [OF "3.prems"(1) x n])
  let ?r = "if x = Directory then skinning_dir A ?f ?s (mkdir ?s w) else skinning_file A ?f ?s w"
  have "\<exists>w1. ?r = Inr w1 \<and> skinned A w F fpath S [n] w1"
  proof (cases x)
    case (Reg c)
    then show ?thesis using skinning_file_step [OF "3.prems"(1) _ n fresh, of c A] x by simp
  next
    case Directory
    have "mkdir ?s w = ?w" using "3.prems"(1) bounds fresh by (intro mkdir_child) (auto simp: skin_pre_def)
    moreover have "fs_get (files ?w) ((S @ [n]) @ [m]) = None" for m
      using fstore.none_below_None [of "files w" "S @ [n]" "[m]"] fresh "3.prems"(1) by (simp add: skin_pre_def)
    ultimately obtain w1 where "?r = Inr w1" "skinned_dir A ?w (F @ [n]) ?f (S @ [n]) w1"
      using "3.IH"(1) [OF bufs refl, of "x = Directory" "F @ [n]" "S @ [n]"] st Directory
        skin_pre_child [OF "3.prems"(1) _ n fresh] x by (auto simp: init_read_def)
    then show ?thesis using skinned_dir_step [OF _ _ n par] x Directory by blast
  qed
  then obtain w1 where w1: "?r = Inr w1" "skinned A w F fpath S [n] w1" by blast
  have pre1: "skin_pre w1 fpath F spath S"
    using skinned_pre [OF w1(2) "3.prems"(1)] fresh by simp
  have "fs_get (files w1) (F @ [m]) \<noteq> None \<and> m \<noteq> ''.git'' \<and> fs_get (files w1) (S @ [m]) = None"
    if "m \<in> set ns" for m
  proof -
    have "\<not> prefix (S @ [n]) (S @ [m])" using "3.prems"(2) that by auto
    then have "fs_get (files w1) (S @ [m]) = fs_get (files w) (S @ [m])"
      using w1(2) unfolding skinned_def by simp
    then show ?thesis using "3.prems"(3) that skinned_frame [OF w1(2) par, of "[m]"] by simp
  qed
  then obtain w2 where "skinning_loop A fpath spath (Some (x = Directory)) ns w1 = Inr w2"
    "skinned A w1 F fpath S ns w2"
    using "3.IH"(2) [OF bufs refl, of "x = Directory" w1 F S] st w1(1) pre1 "3.prems"(2)
    by (auto simp: init_read_def)
  moreover have "n \<notin> set ns" using "3.prems"(2) by simp
  ultimately show ?case using skinned_Cons [OF w1(2) _ par] w1(1)
    by (auto simp: bufs st init_read_def Let_def)
qed


lemma skin_into_fresh:
  assumes wf: "fs_wf (files w)"
    and a1: "resolve w a1 = Some F" "fs_get (files w) F = Some Directory"
    and a2: "resolve w a2 = Some P" "fs_get (files w) P = Some Directory" and n: "valid_name n"
    and fresh: "fs_get (files w) (P @ [n]) = None" and par: "F \<parallel> P @ [n]"
    and fits: "skin_fits (files w) F a1 (a2 @ SLASH # n)"
    and len: "length a2 + 1 + length n < BUFMAX"
  shows "\<exists>w'. skinning_dir A a1 (a2 @ SLASH # n) (mkdir (a2 @ SLASH # n) w) = Inr w' \<and> fs_wf (files w') \<and>
     fs_get (files w') (P @ [n]) = Some Directory \<and>
     (\<forall>r. r \<noteq> [] \<longrightarrow> fs_get (files w') ((P @ [n]) @ r) = skin_image A (files w) F a1 r) \<and>
     (\<forall>p. \<not> prefix (P @ [n]) p \<longrightarrow> fs_get (files w') p = fs_get (files w) p)"
proof -
  define S where "S = P @ [n]"
  have SnE: "S \<noteq> []" by (simp add: S_def)
  let ?s = "a2 @ SLASH # n" and ?w = "w\<lparr>files := fs_put S Directory (files w)\<rparr>"
  have mk: "mkdir ?s w = ?w" using mkdir_child [OF a2 n len fresh] by (simp add: S_def)
  have wf1: "fs_wf (files ?w)" using wf a2 n fresh by (auto intro!: fs_wf_put simp: S_def)
  have mono: "fs_mono (files w) (files ?w)" using fresh by (simp add: fs_mono_put S_def)
  have other: "F @ r \<noteq> S" for r using parallel_below [OF par, of "[]" r] by (auto simp: S_def)
  have res: "resolve ?w a1 = Some F" "resolve ?w a2 = Some P"
    using a1(1) a2(1) by (auto intro: resolve_mono [OF mono])
  have dirs: "fs_get (files ?w) P = Some Directory" "fs_get (files ?w) F = Some Directory"
    using mono a1(2) a2(2) by (auto simp: fs_mono_def)
  have "resolve ?w ?s = Some S"
    using resolve_child [OF res(2) dirs(1) n len] by (simp add: S_def)
  moreover have "skin_fits (files ?w) F a1 ?s" using fits other SnE by (simp add: skin_fits_def)
  ultimately have "skin_pre ?w a1 F ?s S"
    using wf1 par res dirs SnE by (simp add: skin_pre_def S_def)
  moreover have "\<forall>m. fs_get (files ?w) (S @ [m]) = None"
    using SnE fstore.none_below_None [OF wf fresh] by (simp add: S_def)
  ultimately obtain w' where w': "skinning_dir A a1 ?s ?w = Inr w'" "skinned_dir A ?w F a1 S w'"
    using skinning_correct(1) by blast
  have img: "skin_image A (files ?w) F a1 r = skin_image A (files w) F a1 r" for r
    by (rule skin_image_cong) (use other SnE in simp)
  have "fs_get (files w') p = fs_get (files w) p" if "\<not> prefix S p" for p
  proof -
    have "\<not> strict_prefix S p" "p \<noteq> S" using that by (auto simp: strict_prefix_def)
    then show ?thesis using w'(2) SnE by (simp add: skinned_dir_def)
  qed
  moreover have "fs_get (files w') S = Some Directory" using w'(2) SnE by (simp add: skinned_dir_def)
  moreover have "fs_wf (files w')" "\<forall>r. r \<noteq> [] \<longrightarrow> fs_get (files w') (S @ r) = skin_image A (files w) F a1 r"
    using w'(2) img by (auto simp: skinned_dir_def)
  ultimately show ?thesis using w'(1) mk unfolding S_def by auto
qed

lemma skin_body_reaches:
  assumes abs: "hd a1 = SLASH" "hd a2 = SLASH"
    and a1: "resolve w a1 = Some F" "fs_get (files w) F = Some Directory"
    and a2: "resolve w a2 = Some P" "fs_get (files w) P = Some Directory"
    and sub: "\<not> sublist a1 a2" and base: "a1 = d @ SLASH # base" "SLASH \<notin> set base"
    and s: "s = a2 @ SLASH # base @ SKIN_SUFFIX" "length s < BUFMAX" "resolve w s = None"
  shows "skin_body A prog [a1, a2] w =
    skinning_dir A a1 s (mkdir s (printf_out (s @ NL) (printf_out (a1 @ '' | '' @ a2 @ NL) w)))"
proof -
  have ne: "a1 \<noteq> []" "a2 \<noteq> []" using a1 a2 resolve_nonempty by auto
  have st: "stat_buf w a1 None = Some True" "stat_buf w a2 None = Some True"
    using a1 a2 by (simp_all add: stat_buf_def stat_node_def)
  have paths: "abs_path w a1 = Inr a1" "abs_path w a2 = Inr a2"
    using ne abs resolve_length [OF a1(1)] resolve_length [OF a2(1)]
    by (simp_all add: abs_path_def sprintf_buf_def)
  have chr: "strrchr a1 SLASH = Some (length d)" using base by (simp add: strrchr_append)
  have name: "drop (Suc (length d)) a1 = base" using base by simp
  have buf: "sprintf_buf BUFMAX s = Inr s" using s by (simp add: sprintf_buf_def)
  have "strstr a2 a1 = None" using sub strstr_iff [of a2 a1] by simp
  moreover have "\<not> access_ok (printf_out x (printf_out y w)) s" for x y
    using s(3) by (simp add: access_ok_def)
  ultimately show ?thesis
    using a1 a2 buf by (simp add: skin_body_def access_ok_def st init_read_def paths Let_def chr name flip: s(1))
qed

lemma skin_run:
  assumes wf: "fs_wf (files w)"
    and abs: "hd a1 = SLASH" "hd a2 = SLASH"
    and a1: "resolve w a1 = Some F" "fs_get (files w) F = Some Directory"
    and a2: "resolve w a2 = Some P" "fs_get (files w) P = Some Directory"
    and sub: "\<not> sublist a1 a2"
    and base: "a1 = d @ SLASH # base" "SLASH \<notin> set base"
    and S: "S = P @ [base @ SKIN_SUFFIX]" "valid_name (base @ SKIN_SUFFIX)"
    and fresh: "fs_get (files w) S = None" and par: "F \<parallel> S"
    and fits: "skin_fits (files w) F a1 (a2 @ SLASH # base @ SKIN_SUFFIX)"
    and len: "length a2 + length base + 7 < BUFMAX"
  shows "\<exists>w'. skin_main A prog [a1, a2] w = Exit 0 w' \<and> fs_wf (files w') \<and>
     fs_get (files w') S = Some Directory \<and>
     (\<forall>r. r \<noteq> [] \<longrightarrow> fs_get (files w') (S @ r) = skin_image A (files w) F a1 r) \<and>
     (\<forall>p. \<not> prefix S p \<longrightarrow> fs_get (files w') p = fs_get (files w) p)"
proof -
  let ?n = "base @ SKIN_SUFFIX"
  let ?s = "a2 @ SLASH # ?n"
  define v where "v = printf_out (?s @ NL) (printf_out (a1 @ '' | '' @ a2 @ NL) w)"
  have v: "files v = files w" "resolve v = resolve w" by (auto simp: v_def)
  have len': "length a2 + 1 + length ?n < PATH_MAX" using len by (simp add: SKIN_SUFFIX_def)
  have "resolve w ?s = None" using resolve_child [OF a2 S(2) len'] fresh S(1) by simp
  then have body: "skin_body A prog [a1, a2] w = skinning_dir A a1 ?s (mkdir ?s v)"
    using skin_body_reaches [OF abs a1 a2 sub base refl] len' by (simp add: v_def)
  have "\<exists>w'. skinning_dir A a1 ?s (mkdir ?s v) = Inr w' \<and> fs_wf (files w') \<and>
     fs_get (files w') S = Some Directory \<and>
     (\<forall>r. r \<noteq> [] \<longrightarrow> fs_get (files w') (S @ r) = skin_image A (files w) F a1 r) \<and>
     (\<forall>p. \<not> prefix S p \<longrightarrow> fs_get (files w') p = fs_get (files w) p)"
    using skin_into_fresh [of v a1 F a2 P ?n A] wf a1 a2 S fresh par fits len' by (simp add: v)
  then show ?thesis using body by (auto simp: skin_main_def)
qed


section \<open>Runs on absolute paths\<close>

definition tree_at :: "world \<Rightarrow> string \<Rightarrow> string list \<Rightarrow> bool" where
  "tree_at w p c \<longleftrightarrow> hd p = SLASH \<and> cstring p \<and> resolve w p = Some c \<and> fs_get (files w) c = Some Directory"

lemma resolve_grow:
  assumes "resolve w p = Some c" "hd p = SLASH" "fs_mono (files w) (files v)"
  shows "resolve v p = Some c"
  using assms by (auto simp: resolve_def start_dir_def namei_mono split: if_splits)

lemma tree_at_grow: "tree_at w p c \<Longrightarrow> fs_mono (files w) (files v) \<Longrightarrow> tree_at v p c"
  using resolve_grow [of w p c v] by (simp add: tree_at_def fs_mono_def)

lemma fs_mono_frame:
  assumes "fs_wf f" "fs_get f S = None" "\<And>p. \<not> prefix S p \<Longrightarrow> fs_get g p = fs_get f p"
  shows "fs_mono f g"
proof -
  have "fs_get g p = fs_get f p" if p: "fs_get f p \<noteq> None" for p
  proof (rule assms(3))
    show "\<not> prefix S p"
    proof
      assume "prefix S p"
      then obtain t where "p = S @ t" by (rule prefixE)
      then show False using p fstore.none_below_None [OF assms(1,2), of t] by simp
    qed
  qed
  then show ?thesis unfolding fs_mono_def by (metis option.distinct(1))
qed

lemma fresh_parallel:
  assumes "fs_wf f" "fs_get f F \<noteq> None" "\<not> prefix F P" "fs_get f (P @ [n]) = None"
  shows "F \<parallel> P @ [n]"
proof
  show "\<not> prefix F (P @ [n])" using assms by (auto simp: prefix_snoc)
  show "\<not> prefix (P @ [n]) F"
  proof
    assume "prefix (P @ [n]) F"
    then obtain t where "F = (P @ [n]) @ t" by (rule prefixE)
    then show False using assms fstore.none_below_None [OF assms(1,4), of t] by simp
  qed
qed

lemma skin_main_tree:
  assumes wf: "fs_wf (files w)" and a: "tree_at w a F" "tree_at w d P"
    and base: "a = x @ SLASH # b" "SLASH \<notin> set b" "valid_name (b @ SKIN_SUFFIX)"
    and sub: "\<not> sublist a d" and fresh: "fs_get (files w) (P @ [b @ SKIN_SUFFIX]) = None" and out: "\<not> prefix F P"
    and fits: "skin_fits (files w) F a (d @ SLASH # b @ SKIN_SUFFIX)" and len: "length d + length b + 7 < BUFMAX"
  shows "\<exists>w'. skin_main A prog [a, d] w = Exit 0 w' \<and> fs_wf (files w') \<and> fs_mono (files w) (files w') \<and>
     fs_get (files w') (P @ [b @ SKIN_SUFFIX]) = Some Directory \<and>
     (\<forall>r. r \<noteq> [] \<longrightarrow> fs_get (files w') (P @ (b @ SKIN_SUFFIX) # r) = skin_image A (files w) F a r) \<and>
     (\<forall>p. \<not> prefix (P @ [b @ SKIN_SUFFIX]) p \<longrightarrow> fs_get (files w') p = fs_get (files w) p)"
proof -
  have par: "F \<parallel> P @ [b @ SKIN_SUFFIX]" using a(1) by (intro fresh_parallel [OF wf _ out fresh]) (simp add: tree_at_def)
  obtain w' where "skin_main A prog [a, d] w = Exit 0 w'" "fs_wf (files w')"
     "fs_get (files w') (P @ [b @ SKIN_SUFFIX]) = Some Directory"
     "\<forall>r. r \<noteq> [] \<longrightarrow> fs_get (files w') ((P @ [b @ SKIN_SUFFIX]) @ r) = skin_image A (files w) F a r"
     and fr: "\<forall>p. \<not> prefix (P @ [b @ SKIN_SUFFIX]) p \<longrightarrow> fs_get (files w') p = fs_get (files w) p"
    using skin_run [OF wf _ _ _ _ _ _ sub base(1,2) refl base(3) fresh par fits len, of A prog] a
    unfolding tree_at_def by blast
  moreover have "fs_mono (files w) (files w')" by (rule fs_mono_frame [OF wf fresh]) (use fr in blast)
  ultimately show ?thesis by auto
qed


section \<open>The digest contract\<close>

text \<open>
  What the manual page of the MD5 functions promises: feeding a message in pieces gives the digest
  of the whole message, and a digest has 16 bytes. Under it a skin file is a record of the
  digest's hexadecimal digits and the path, and two skins agree exactly when the digests do.
\<close>

lemma md5_feed_pieces: "\<exists>cs. concat cs = s \<and> md5_feed A ctx s = foldl (MD5_Update A) ctx cs"
proof (induction A ctx s rule: md5_feed.induct)
  case (1 A ctx s)
  show ?case
  proof (cases "s = []")
    case True
    then show ?thesis by (intro exI [of _ "[]"]) (simp add: md5_feed.simps)
  next
    case False
    then obtain cs where "concat cs = drop 1024 s"
      "md5_feed A (MD5_Update A ctx (take 1024 s)) (drop 1024 s) = foldl (MD5_Update A) (MD5_Update A ctx (take 1024 s)) cs"
      using 1 by blast
    then show ?thesis using False
      by (intro exI [of _ "take 1024 s # cs"]) (simp add: md5_feed.simps [of A ctx s])
  qed
qed

lemma hexdigit_inject: "a < 16 \<Longrightarrow> b < 16 \<Longrightarrow> hexdigit a = hexdigit b \<longleftrightarrow> a = b"
proof -
  have "distinct ''0123456789abcdef''" by simp
  then show "a < 16 \<Longrightarrow> b < 16 \<Longrightarrow> ?thesis" by (simp add: hexdigit_def nth_eq_iff_index_eq)
qed

lemma hexdigit_not_NUL: "hexdigit n \<noteq> NUL"
proof -
  have "hexdigit n \<in> set ''0123456789abcdef''" unfolding hexdigit_def by (rule nth_mem) simp
  moreover have "NUL \<notin> set ''0123456789abcdef''" by (simp add: NUL_def)
  ultimately show ?thesis by metis
qed

lemma hexdigit_mod: "hexdigit n = hexdigit (n mod 16)"
  by (simp add: hexdigit_def)

lemma hex2_inject [simp]: "hex2 c = hex2 d \<longleftrightarrow> c = d"
proof
  assume eq: "hex2 c = hex2 d"
  have lt: "of_char x div 16 < (16 :: nat)" for x :: char using nat_of_char_less_256 [of x] by (simp add: less_mult_imp_div_less)
  have "of_char c div 16 = (of_char d div 16 :: nat)"
    using eq hexdigit_inject [OF lt lt] by (simp add: hex2_def)
  moreover have "of_char c mod 16 = (of_char d mod 16 :: nat)"
    using eq hexdigit_inject [of "of_char c mod 16" "of_char d mod 16"] hexdigit_mod by (simp add: hex2_def)
  ultimately have "(of_char c :: nat) = of_char d" by (metis div_mult_mod_eq)
  then show "c = d" by simp
qed simp

definition hex_string :: "string \<Rightarrow> string" where
  "hex_string s = concat (map hex2 s)"

lemma hex_string_length [simp]: "length (hex_string s) = 2 * length s"
  by (induction s) (auto simp: hex_string_def)

lemma hex_string_cstring [simp]: "cstring (hex_string s)"
  by (induction s) (auto simp: hex_string_def hex2_def hexdigit_not_NUL)

lemma hex_string_inject [simp]: "hex_string s = hex_string t \<longleftrightarrow> s = t"
proof
  show "hex_string s = hex_string t \<Longrightarrow> s = t"
  proof (induction s arbitrary: t)
    case Nil
    then show ?case using hex_string_length [of t] hex_string_length [of "[]"] by (cases t) auto
  next
    case (Cons c s)
    then obtain d u where "t = d # u" using hex_string_length [of t] hex_string_length [of "c # s"] by (cases t) auto
    then show ?case using Cons by (simp add: hex_string_def)
  qed
qed simp

locale md5_contract =
  fixes A :: "'c md5_api" and digest :: "string \<Rightarrow> string"
  assumes stream: "MD5_Final A (foldl (MD5_Update A) (MD5_Init A) cs) = digest (concat cs)"
    and digest_length: "length (digest s) = 16"
begin

lemma md5_hex_digest: "md5_hex A s = hex_string (digest s)"
proof -
  obtain cs where "concat cs = s" "md5_feed A (MD5_Init A) s = foldl (MD5_Update A) (MD5_Init A) cs"
    using md5_feed_pieces [of s A "MD5_Init A"] by blast
  then show ?thesis using stream [of cs] digest_length [of s] by (simp add: md5_hex_def hex_string_def)
qed

lemma skin_text_rec: "skin_text A s p = skin_rec (hex_string (digest s)) p"
  by (simp add: skin_text_def skin_rec_def md5_hex_digest)

lemma wf_skin_text: "cstring p \<Longrightarrow> length p < BUFMAX \<Longrightarrow> wf_skin (skin_text A s p)"
  unfolding wf_skin_def skin_text_rec using digest_length [of s]
  by (intro exI [of _ "hex_string (digest s)"] exI [of _ p]) simp

lemma skin_text_parts:
  "cstring p \<Longrightarrow> skin_hash (skin_text A s p) = hex_string (digest s)"
  "cstring p \<Longrightarrow> skin_path (skin_text A s p) = p"
  using digest_length [of s] by (simp_all add: skin_text_rec)

end

end
