(* ===== verification/Md5.thy ===== *)
theory Md5
  imports Skin "HOL-Library.Word"
begin

text \<open>
  \<open>kernel_management/V1/linux/crypto/md5.c\<close>: the MD5 digest of the managed kernel trees, on a
  little-endian machine (\<open>le32_to_cpu_array\<close> and its inverse leave memory as it is). The
  context has the fields \<open>md5.c\<close> uses: four 32-bit chaining words, the 64 bytes of \<open>block\<close> and
  the 64-bit byte count. The initial chaining words \<open>MD5_H0\<close> to \<open>MD5_H3\<close> come from a header that is
  not part of the sources; they are the parameter \<open>H\<close>. The streaming interface is proved equal to the padded, blockwise
  definition of RFC 1321, and provides the digest contract the skins rely on.
\<close>

unbundle bit_operations_syntax

type_synonym u8 = "8 word"
type_synonym u32 = "32 word"
type_synonym u64 = "64 word"

section \<open>The compression function\<close>

definition F1 :: "u32 \<Rightarrow> u32 \<Rightarrow> u32 \<Rightarrow> u32" where
  "F1 x y z = z XOR (x AND (y XOR z))"

definition F2 :: "u32 \<Rightarrow> u32 \<Rightarrow> u32 \<Rightarrow> u32" where
  "F2 x y z = F1 z x y"

definition F3 :: "u32 \<Rightarrow> u32 \<Rightarrow> u32 \<Rightarrow> u32" where
  "F3 x y z = x XOR y XOR z"

definition F4 :: "u32 \<Rightarrow> u32 \<Rightarrow> u32 \<Rightarrow> u32" where
  "F4 x y z = y XOR (x OR NOT z)"

type_synonym md5_row = "(u32 \<Rightarrow> u32 \<Rightarrow> u32 \<Rightarrow> u32) \<times> nat \<times> u32 \<times> nat"

definition MD5STEP :: "u32 list \<Rightarrow> u32 \<times> u32 \<times> u32 \<times> u32 \<Rightarrow> md5_row \<Rightarrow> u32 \<times> u32 \<times> u32 \<times> u32" where
  "MD5STEP inp = (\<lambda>(w, x, y, z) (f, i, k, s).
     let w1 = w + (f x y z + (inp ! i + k));
         w2 = (push_bit s w1 OR drop_bit (32 - s) w1) + x
     in (z, w2, x, y))"

definition md5_rows :: "md5_row list" where
  "md5_rows =
    [(F1, 0, 0xd76aa478, 7), (F1, 1, 0xe8c7b756, 12),
     (F1, 2, 0x242070db, 17), (F1, 3, 0xc1bdceee, 22),
     (F1, 4, 0xf57c0faf, 7), (F1, 5, 0x4787c62a, 12),
     (F1, 6, 0xa8304613, 17), (F1, 7, 0xfd469501, 22),
     (F1, 8, 0x698098d8, 7), (F1, 9, 0x8b44f7af, 12),
     (F1, 10, 0xffff5bb1, 17), (F1, 11, 0x895cd7be, 22),
     (F1, 12, 0x6b901122, 7), (F1, 13, 0xfd987193, 12),
     (F1, 14, 0xa679438e, 17), (F1, 15, 0x49b40821, 22),
     (F2, 1, 0xf61e2562, 5), (F2, 6, 0xc040b340, 9),
     (F2, 11, 0x265e5a51, 14), (F2, 0, 0xe9b6c7aa, 20),
     (F2, 5, 0xd62f105d, 5), (F2, 10, 0x02441453, 9),
     (F2, 15, 0xd8a1e681, 14), (F2, 4, 0xe7d3fbc8, 20),
     (F2, 9, 0x21e1cde6, 5), (F2, 14, 0xc33707d6, 9),
     (F2, 3, 0xf4d50d87, 14), (F2, 8, 0x455a14ed, 20),
     (F2, 13, 0xa9e3e905, 5), (F2, 2, 0xfcefa3f8, 9),
     (F2, 7, 0x676f02d9, 14), (F2, 12, 0x8d2a4c8a, 20),
     (F3, 5, 0xfffa3942, 4), (F3, 8, 0x8771f681, 11),
     (F3, 11, 0x6d9d6122, 16), (F3, 14, 0xfde5380c, 23),
     (F3, 1, 0xa4beea44, 4), (F3, 4, 0x4bdecfa9, 11),
     (F3, 7, 0xf6bb4b60, 16), (F3, 10, 0xbebfbc70, 23),
     (F3, 13, 0x289b7ec6, 4), (F3, 0, 0xeaa127fa, 11),
     (F3, 3, 0xd4ef3085, 16), (F3, 6, 0x04881d05, 23),
     (F3, 9, 0xd9d4d039, 4), (F3, 12, 0xe6db99e5, 11),
     (F3, 15, 0x1fa27cf8, 16), (F3, 2, 0xc4ac5665, 23),
     (F4, 0, 0xf4292244, 6), (F4, 7, 0x432aff97, 10),
     (F4, 14, 0xab9423a7, 15), (F4, 5, 0xfc93a039, 21),
     (F4, 12, 0x655b59c3, 6), (F4, 3, 0x8f0ccc92, 10),
     (F4, 10, 0xffeff47d, 15), (F4, 1, 0x85845dd1, 21),
     (F4, 8, 0x6fa87e4f, 6), (F4, 15, 0xfe2ce6e0, 10),
     (F4, 6, 0xa3014314, 15), (F4, 13, 0x4e0811a1, 21),
     (F4, 4, 0xf7537e82, 6), (F4, 11, 0xbd3af235, 10),
     (F4, 2, 0x2ad7d2bb, 15), (F4, 9, 0xeb86d391, 21)]"

definition md5_transform :: "u32 list \<Rightarrow> u32 list \<Rightarrow> u32 list" where
  "md5_transform hash inp =
     (let (a, b, c, d) = foldl (MD5STEP inp) (hash ! 0, hash ! 1, hash ! 2, hash ! 3) md5_rows
      in [hash ! 0 + a, hash ! 1 + b, hash ! 2 + c, hash ! 3 + d])"

section \<open>The streaming interface\<close>

record md5_state =
  mhash :: "u32 list"
  mblock :: "u8 list"
  byte_count :: u64

definition le32 :: "u8 list \<Rightarrow> u32" where
  "le32 b = ucast (b ! 0) OR push_bit 8 (ucast (b ! 1)) OR push_bit 16 (ucast (b ! 2)) OR push_bit 24 (ucast (b ! 3))"

definition le_bytes :: "u32 \<Rightarrow> u8 list" where
  "le_bytes w = [ucast w, ucast (drop_bit 8 w), ucast (drop_bit 16 w), ucast (drop_bit 24 w)]"

definition block_words :: "u8 list \<Rightarrow> u32 list" where
  "block_words b = map (\<lambda>i. le32 (take 4 (drop (4 * i) b))) [0..<16]"

definition memcpy_at :: "nat \<Rightarrow> 'a list \<Rightarrow> 'a list \<Rightarrow> 'a list" where
  "memcpy_at off data b = take off b @ data @ drop (off + length data) b"

definition md5_transform_helper :: "md5_state \<Rightarrow> md5_state" where
  "md5_transform_helper ctx = ctx\<lparr>mhash := md5_transform (mhash ctx) (block_words (mblock ctx))\<rparr>"

definition md5_init :: "u32 list \<Rightarrow> md5_state \<Rightarrow> md5_state" where
  "md5_init H mctx = mctx\<lparr>mhash := [H ! 0, H ! 1, H ! 2, H ! 3], byte_count := 0\<rparr>"

function md5_update_blocks :: "md5_state \<Rightarrow> u8 list \<Rightarrow> md5_state" where
  "md5_update_blocks mctx data =
     (if 64 \<le> length data
      then md5_update_blocks (md5_transform_helper (mctx\<lparr>mblock := memcpy_at 0 (take 64 data) (mblock mctx)\<rparr>))
             (drop 64 data)
      else mctx\<lparr>mblock := memcpy_at 0 data (mblock mctx)\<rparr>)"
  by pat_completeness auto
termination
  by (relation "measure (\<lambda>(c, d). length d)") auto

declare md5_update_blocks.simps [simp del]

definition md5_update :: "md5_state \<Rightarrow> u8 list \<Rightarrow> md5_state" where
  "md5_update mctx data =
     (let avail = 64 - unat (byte_count mctx AND 0x3f); len = length data;
          mctx = mctx\<lparr>byte_count := byte_count mctx + of_nat len\<rparr> in
      if avail > len then mctx\<lparr>mblock := memcpy_at (64 - avail) data (mblock mctx)\<rparr>
      else
      let mctx = md5_transform_helper (mctx\<lparr>mblock := memcpy_at (64 - avail) (take avail data) (mblock mctx)\<rparr>)
      in md5_update_blocks mctx (drop avail data))"

definition md5_final :: "md5_state \<Rightarrow> u8 list \<times> md5_state" where
  "md5_final mctx =
     (let offset = unat (byte_count mctx AND 0x3f);
          padding = 56 - (int offset + 1);
          mctx = mctx\<lparr>mblock := memcpy_at offset [0x80] (mblock mctx)\<rparr>;
          (p, padding, mctx) =
            (if padding < 0
             then (0, 56, md5_transform_helper
                    (mctx\<lparr>mblock := memcpy_at (offset + 1) (replicate (nat (padding + 8)) 0) (mblock mctx)\<rparr>))
             else (offset + 1, padding, mctx));
          block = memcpy_at p (replicate (nat padding) 0) (mblock mctx);
          block = memcpy_at 56 (le_bytes (ucast (push_bit 3 (byte_count mctx)))) block;
          block = memcpy_at 60 (le_bytes (ucast (drop_bit 29 (byte_count mctx)))) block;
          hash = md5_transform (mhash mctx) (block_words block)
      in (concat (map le_bytes hash), \<lparr>mhash = replicate 4 0, mblock = replicate 64 0, byte_count = 0\<rparr>))"

section \<open>The padded definition\<close>

function md5_blocks :: "u32 list \<Rightarrow> u8 list \<Rightarrow> u32 list" where
  "md5_blocks h d =
     (if length d < 64 then h else md5_blocks (md5_transform h (block_words (take 64 d))) (drop 64 d))"
  by pat_completeness auto
termination
  by (relation "measure (\<lambda>(h, d). length d)") auto

declare md5_blocks.simps [simp del]

definition md5_pad :: "nat \<Rightarrow> u8 list" where
  "md5_pad n = 0x80 # replicate ((119 - n mod 64) mod 64) 0 @
     le_bytes (of_nat (8 * n)) @ le_bytes (of_nat (8 * n div 2 ^ 32))"

definition md5_spec :: "u32 list \<Rightarrow> u8 list \<Rightarrow> u8 list" where
  "md5_spec H d = concat (map le_bytes
     (md5_blocks [H ! 0, H ! 1, H ! 2, H ! 3] (d @ md5_pad (length d))))"

section \<open>The streaming interface computes the padded definition\<close>

lemma md5_blocks_append: "length d mod 64 = 0 \<Longrightarrow> md5_blocks h (d @ e) = md5_blocks (md5_blocks h d) e"
proof (induction h d rule: md5_blocks.induct)
  case (1 h d)
  show ?case
  proof (cases "length d < 64")
    case True
    then show ?thesis using "1.prems" by (simp add: md5_blocks.simps [of h "[]"])
  next
    case False
    then have "(length d - 64) mod 64 = 0" using "1.prems" by (simp add: mod_if [of "length d"])
    then show ?thesis using "1.IH" False by (simp add: md5_blocks.simps [of h d] md5_blocks.simps [of h "d @ e"])
  qed
qed

lemma md5_blocks_short: "length d < 64 \<Longrightarrow> md5_blocks h d = h"
  by (simp add: md5_blocks.simps)

lemma md5_blocks_one: "length d = 64 \<Longrightarrow> md5_blocks h (d @ e) = md5_blocks (md5_transform h (block_words d)) e"
  by (simp add: md5_blocks.simps [of h "d @ e"])

definition md5_rep :: "u32 list \<Rightarrow> md5_state \<Rightarrow> u8 list \<Rightarrow> bool" where
  "md5_rep H ctx d \<longleftrightarrow> (\<exists>full rest. d = full @ rest \<and> length full mod 64 = 0 \<and> length rest < 64 \<and>
     mhash ctx = md5_blocks [H ! 0, H ! 1, H ! 2, H ! 3] full \<and>
     length (mblock ctx) = 64 \<and> take (length rest) (mblock ctx) = rest \<and> byte_count ctx = of_nat (length d))"

lemma offset_eq: "unat ((of_nat n :: u64) AND 0x3f) = n mod 64"
proof -
  have "(of_nat n :: u64) AND 0x3f = take_bit 6 (of_nat n)" by (simp add: take_bit_eq_mask mask_eq_exp_minus_1)
  then show ?thesis by (simp add: unsigned_take_bit_eq unsigned_of_nat take_bit_take_bit) (simp add: take_bit_eq_mod)
qed

lemma md5_init_rep: "length (mblock ctx) = 64 \<Longrightarrow> md5_rep H (md5_init H ctx) []"
  by (simp add: md5_rep_def md5_init_def md5_blocks_short)

lemma length_memcpy_at: "off + length d \<le> length b \<Longrightarrow> length (memcpy_at off d b) = length b"
  by (simp add: memcpy_at_def)

lemma md5_update_blocks_rep:
  assumes "mhash ctx = md5_blocks [H ! 0, H ! 1, H ! 2, H ! 3] full"
    and "length full mod 64 = 0" "length (mblock ctx) = 64" "byte_count ctx = of_nat (length (full @ d))"
  shows "md5_rep H (md5_update_blocks ctx d) (full @ d)"
  using assms
proof (induction ctx d arbitrary: full rule: md5_update_blocks.induct)
  case (1 ctx d)
  show ?case
  proof (cases "64 \<le> length d")
    case True
    let ?c = "md5_transform_helper (ctx\<lparr>mblock := memcpy_at 0 (take 64 d) (mblock ctx)\<rparr>)"
    have "memcpy_at 0 (take 64 d) (mblock ctx) = take 64 d" using True "1.prems"(3) by (simp add: memcpy_at_def)
    then have c: "mhash ?c = md5_blocks [H ! 0, H ! 1, H ! 2, H ! 3] (full @ take 64 d)"
      "length (mblock ?c) = 64" "byte_count ?c = byte_count ctx"
      using True "1.prems"(1) md5_blocks_one [of "take 64 d" _ "[]"]
      by (simp_all add: md5_transform_helper_def md5_blocks_append [OF "1.prems"(2)] md5_blocks_short)
    have "md5_rep H (md5_update_blocks ?c (drop 64 d)) ((full @ take 64 d) @ drop 64 d)"
      using True c "1.prems"(2,4) by (intro "1.IH" [OF True]) simp_all
    then show ?thesis using True by (simp add: md5_update_blocks.simps [of ctx d])
  next
    case False
    have "take (length d) (memcpy_at 0 d (mblock ctx)) = d" by (simp add: memcpy_at_def)
    then show ?thesis using False "1.prems" unfolding md5_rep_def
      by (intro exI [of _ full] exI [of _ d]) (simp add: md5_update_blocks.simps [of ctx d] length_memcpy_at)
  qed
qed

lemma md5_update_rep:
  assumes "md5_rep H ctx d"
  shows "md5_rep H (md5_update ctx e) (d @ e)"
proof -
  obtain full rest where d: "d = full @ rest" "length full mod 64 = 0" "length rest < 64"
    and h: "mhash ctx = md5_blocks [H ! 0, H ! 1, H ! 2, H ! 3] full"
    and b: "length (mblock ctx) = 64" "take (length rest) (mblock ctx) = rest" "byte_count ctx = of_nat (length d)"
    using assms unfolding md5_rep_def by (elim exE conjE) (rule that)
  have "length d mod 64 = length rest" 
    using d(2,3) mod_add_left_eq [of "length full" 64 "length rest"] by (simp add: d(1))
  then have off: "unat (byte_count ctx AND 0x3f) = length rest" using b(3) offset_eq by simp
  show ?thesis
  proof (cases "64 - length rest > length e")
    case True
    then have "md5_update ctx e = ctx\<lparr>byte_count := of_nat (length (d @ e)), mblock := memcpy_at (length rest) e (mblock ctx)\<rparr>"
      unfolding md5_update_def Let_def off using b(3) d(3) by simp
    moreover have "take (length (rest @ e)) (memcpy_at (length rest) e (mblock ctx)) = rest @ e"
      "length (memcpy_at (length rest) e (mblock ctx)) = 64"
      using b True by (simp_all add: memcpy_at_def)
    ultimately show ?thesis using True d h unfolding md5_rep_def
      by (intro exI [of _ full] exI [of _ "rest @ e"]) simp
  next
    case False
    let ?k = "64 - length rest"
    let ?c = "md5_transform_helper (ctx\<lparr>byte_count := of_nat (length (d @ e)), mblock := rest @ take ?k e\<rparr>)"
    have "memcpy_at (length rest) (take ?k e) (mblock ctx) = rest @ take ?k e"
      using b False d(3) by (simp add: memcpy_at_def)
    then have upd: "md5_update ctx e = md5_update_blocks ?c (drop ?k e)"
      unfolding md5_update_def Let_def off using False b(3) d(3) by simp
    have len: "length (rest @ take ?k e) = 64" using False d(3) by simp
    have "mhash ?c = md5_blocks [H ! 0, H ! 1, H ! 2, H ! 3] (full @ rest @ take ?k e)"
      using h md5_blocks_one [OF len, of _ "[]"]
      by (simp add: md5_transform_helper_def md5_blocks_append [OF d(2)] md5_blocks_short)
    moreover have "length (full @ rest @ take ?k e) mod 64 = 0" using len d(2) by simp
    moreover have "length (mblock ?c) = 64" using len by (simp add: md5_transform_helper_def)
    moreover have "byte_count ?c = of_nat (length ((full @ rest @ take ?k e) @ drop ?k e))"
      by (simp add: md5_transform_helper_def d(1))
    ultimately have "md5_rep H (md5_update_blocks ?c (drop ?k e)) ((full @ rest @ take ?k e) @ drop ?k e)"
      by (rule md5_update_blocks_rep)
    then show ?thesis using upd d(1) by simp
  qed
qed

lemma le_bytes_length [simp]: "length (le_bytes w) = 4"
  by (simp add: le_bytes_def)

lemma count_words:
  "(ucast (push_bit 3 (of_nat n :: u64)) :: u32) = of_nat (8 * n)"
  "(ucast (drop_bit 29 (of_nat n :: u64)) :: u32) = of_nat (8 * n div 2 ^ 32)"
proof -
  have m: "8 * n = push_bit 3 n" by (simp add: push_bit_eq_mult)
  show "(ucast (push_bit 3 (of_nat n :: u64)) :: u32) = of_nat (8 * n)"
    unfolding m by (rule bit_word_eqI) (auto simp: bit_simps)
  show "(ucast (drop_bit 29 (of_nat n :: u64)) :: u32) = of_nat (8 * n div 2 ^ 32)"
    unfolding m drop_bit_eq_div [symmetric] by (rule bit_word_eqI) (auto simp: bit_simps ac_simps)
qed

lemma memcpy_at_append: "length p = off \<Longrightarrow> memcpy_at off x (p @ q) = p @ x @ drop (length x) q"
  by (simp add: memcpy_at_def)

lemma last_block:
  assumes "length p + length z = 56" "length lo = 4" "length hi = 4" "length p + length q = 64"
  shows "memcpy_at 60 hi (memcpy_at 56 lo (memcpy_at (length p) z (p @ q))) = p @ z @ lo @ hi"
proof -
  have 1: "memcpy_at (length p) z (p @ q) = (p @ z) @ drop (length z) q"
    using memcpy_at_append [of p "length p" z q] by simp
  have 2: "memcpy_at 56 lo \<dots> = (p @ z @ lo) @ drop (length lo) (drop (length z) q)"
    using memcpy_at_append [of "p @ z" 56 lo "drop (length z) q"] assms(1) by simp
  have 3: "memcpy_at 60 hi \<dots> = p @ z @ lo @ hi @ drop (length hi) (drop (length lo) (drop (length z) q))"
    using memcpy_at_append [of "p @ z @ lo" 60 hi] assms(1,2) by simp
  show ?thesis unfolding 1 2 3 using assms by simp
qed

lemma md5_final_digest:
  fixes ctx
  assumes "length rest < 64" "unat (byte_count ctx AND 0x3f) = length rest" "byte_count ctx = of_nat n"
    and "length (mblock ctx) = 64" "take (length rest) (mblock ctx) = rest"
  shows "fst (md5_final ctx) = concat (map le_bytes (md5_blocks (mhash ctx)
     (rest @ 0x80 # replicate ((119 - length rest) mod 64) 0 @
        le_bytes (of_nat (8 * n)) @ le_bytes (of_nat (8 * n div 2 ^ 32)))))"
proof -
  let ?m = "length rest" and ?lo = "le_bytes (of_nat (8 * n))" and ?hi = "le_bytes (of_nat (8 * n div 2 ^ 32))"
  let ?q = "drop (?m + 1) (mblock ctx)" and ?p = "rest @ [0x80]"
  have b1: "memcpy_at ?m [0x80] (mblock ctx) = ?p @ ?q" using assms(5) by (simp add: memcpy_at_def)
  have cw: "ucast (push_bit 3 (byte_count ctx)) = (of_nat (8 * n) :: u32)"
    "ucast (drop_bit 29 (byte_count ctx)) = (of_nat (8 * n div 2 ^ 32) :: u32)"
    unfolding assms(3) by (rule count_words)+
  have pq: "length ?p + length ?q = 64" using assms(1,4) by simp
  show ?thesis
  proof (cases "?m < 56")
    case True
    let ?z = "replicate (55 - ?m) (0 :: u8)"
    have neg: "\<not> 56 - (int ?m + 1) < 0" and nt: "nat (56 - (int ?m + 1)) = 55 - ?m" using True by linarith+
    have blk: "memcpy_at 60 ?hi (memcpy_at 56 ?lo (memcpy_at (?m + 1) ?z (?p @ ?q))) = ?p @ ?z @ ?lo @ ?hi"
      using last_block [of ?p ?z ?lo ?hi ?q] True pq by simp
    have "119 - ?m = (55 - ?m) + 64" using True by simp
    then have mod: "(119 - ?m) mod 64 = 55 - ?m" by (simp only: mod_add_self2) simp
    have "fst (md5_final ctx) = concat (map le_bytes (md5_transform (mhash ctx) (block_words (?p @ ?z @ ?lo @ ?hi))))"
      unfolding md5_final_def Let_def assms(2) b1 using neg nt blk cw by simp
    then show ?thesis unfolding mod
      using md5_blocks_one [of "?p @ ?z @ ?lo @ ?hi" "mhash ctx" "[]"] True by (simp add: md5_blocks_short)
  next
    case False
    let ?z1 = "replicate (63 - ?m) (0 :: u8)" and ?z2 = "replicate 56 (0 :: u8)"
    have neg: "56 - (int ?m + 1) < 0" and nt: "nat (56 - (int ?m + 1) + 8) = 63 - ?m"
      using False assms(1) by linarith+
    have b2: "memcpy_at (?m + 1) ?z1 (?p @ ?q) = ?p @ ?z1"
      using memcpy_at_append [of ?p "?m + 1" ?z1 ?q] assms(1,4) by simp
    have blk: "memcpy_at 60 ?hi (memcpy_at 56 ?lo (memcpy_at 0 ?z2 (?p @ ?z1))) = ?z2 @ ?lo @ ?hi"
      using last_block [of "[]" ?z2 ?lo ?hi "?p @ ?z1"] assms(1) by simp
    have mod: "(119 - ?m) mod 64 = (63 - ?m) + 56" using False assms(1) by simp
    have "fst (md5_final ctx) = concat (map le_bytes
        (md5_transform (md5_transform (mhash ctx) (block_words (?p @ ?z1))) (block_words (?z2 @ ?lo @ ?hi))))"
      unfolding md5_final_def Let_def assms(2) b1
      using neg nt blk b2 cw by (simp add: md5_transform_helper_def)
    then show ?thesis unfolding mod replicate_add
      using md5_blocks_one [of "?p @ ?z1" "mhash ctx" "?z2 @ ?lo @ ?hi"] md5_blocks_one [of "?z2 @ ?lo @ ?hi" _ "[]"] assms(1)
      by (simp add: md5_blocks_short)
  qed
qed

lemma md5_final_rep:
  assumes "md5_rep H ctx d"
  shows "fst (md5_final ctx) = md5_spec H d"
proof -
  obtain full rest where d: "d = full @ rest" "length full mod 64 = 0" "length rest < 64"
    and h: "mhash ctx = md5_blocks [H ! 0, H ! 1, H ! 2, H ! 3] full"
    and b: "length (mblock ctx) = 64" "take (length rest) (mblock ctx) = rest" "byte_count ctx = of_nat (length d)"
    using assms unfolding md5_rep_def by (elim exE conjE) (rule that)
  have len: "length d mod 64 = length rest"
    using d(2,3) mod_add_left_eq [of "length full" 64 "length rest"] by (simp add: d(1))
  then have off: "unat (byte_count ctx AND 0x3f) = length rest" using b(3) offset_eq by simp
  have "d @ md5_pad (length d) = full @ (rest @ 0x80 # replicate ((119 - length rest) mod 64) 0 @
        le_bytes (of_nat (8 * length d)) @ le_bytes (of_nat (8 * length d div 2 ^ 32)))"
    unfolding md5_pad_def len by (simp add: d(1))
  then show ?thesis
    unfolding md5_spec_def md5_final_digest [OF d(3) off b(3,1,2)] h by (simp only: md5_blocks_append [OF d(2)])
qed

section \<open>The digest contract\<close>

definition byte_of :: "char \<Rightarrow> u8" where
  "byte_of c = of_nat (of_char c)"

definition char_of_byte :: "u8 \<Rightarrow> char" where
  "char_of_byte b = char_of (unat b)"

definition kernel_md5 :: "u32 list \<Rightarrow> md5_state md5_api" where
  "kernel_md5 H = \<lparr>MD5_Init = md5_init H \<lparr>mhash = replicate 4 0, mblock = replicate 64 0, byte_count = 0\<rparr>,
     MD5_Update = (\<lambda>c s. md5_update c (map byte_of s)),
     MD5_Final = (\<lambda>c. map char_of_byte (fst (md5_final c)))\<rparr>"

definition kernel_digest :: "u32 list \<Rightarrow> string \<Rightarrow> string" where
  "kernel_digest H s = map char_of_byte (md5_spec H (map byte_of s))"

lemma md5_blocks_length: "length h = 4 \<Longrightarrow> length (md5_blocks h d) = 4"
proof (induction h d rule: md5_blocks.induct)
  case (1 h d)
  have "length (md5_transform h x) = 4" for x by (simp add: md5_transform_def split: prod.split)
  then show ?case using 1 by (simp add: md5_blocks.simps [of h d])
qed

lemma md5_spec_length: "length (md5_spec H d) = 16"
proof -
  have "length (concat (map le_bytes h)) = 4 * length h" for h by (induction h) auto
  then show ?thesis by (simp add: md5_spec_def md5_blocks_length)
qed

lemma kernel_md5_stream: "md5_rep H (foldl (MD5_Update (kernel_md5 H)) (MD5_Init (kernel_md5 H)) cs) (map byte_of (concat cs))"
proof (induction cs rule: rev_induct)
  case Nil
  then show ?case by (simp add: kernel_md5_def md5_init_rep)
next
  case (snoc s cs)
  then show ?case using md5_update_rep [of H _ "map byte_of (concat cs)" "map byte_of s"] by (simp add: kernel_md5_def)
qed

interpretation kmd5: md5_contract "kernel_md5 H" "kernel_digest H" for H
proof unfold_locales
  show "MD5_Final (kernel_md5 H) (foldl (MD5_Update (kernel_md5 H)) (MD5_Init (kernel_md5 H)) cs) = kernel_digest H (concat cs)" for cs
    using md5_final_rep [OF kernel_md5_stream [of H cs]] by (simp add: kernel_md5_def kernel_digest_def)
  show "length (kernel_digest H s) = 16" for s by (simp add: kernel_digest_def md5_spec_length)
qed

section \<open>Correctness of the streaming interface\<close>

text \<open>C10: feeding a message to \<open>md5_update\<close> in any pieces, from any initial context, and finishing with \<open>md5_final\<close> gives the 16-byte digest defined by padding the whole message and folding the compression function over its 64-byte blocks.\<close>
theorem md5_stream_correct:
  assumes "length (mblock ctx) = 64"
  shows "fst (md5_final (foldl md5_update (md5_init H ctx) cs)) = md5_spec H (concat cs) \<and> length (md5_spec H (concat cs)) = 16"
proof -
  have "md5_rep H (foldl md5_update (md5_init H ctx) cs) (concat cs)"
  proof (induction cs rule: rev_induct)
    case (snoc c cs)
    then show ?case using md5_update_rep [of H _ "concat cs" c] by simp
  qed (simp add: md5_init_rep assms)
  then show ?thesis using md5_final_rep md5_spec_length by blast
qed

theorem md5_stream_correct_witness:
  "fst (md5_final (foldl md5_update (md5_init [1, 2, 3, 4] \<lparr>mhash = [], mblock = replicate 64 7, byte_count = 9\<rparr>) [[1, 2], [], [3]])) =
     md5_spec [1, 2, 3, 4] [1, 2, 3] \<and> length (md5_spec [1, 2, 3, 4] [1, 2, 3]) = 16"
  using md5_stream_correct [of "\<lparr>mhash = [], mblock = replicate 64 7, byte_count = 9\<rparr>" "[1, 2, 3, 4]" "[[1, 2], [], [3]]"] by simp

section \<open>The digest of the empty message\<close>

text \<open>
  The kernel keeps the digest of the empty message as \<open>md5_zero_message_hash\<close>. The 64 steps are
  evaluated on integers below \<open>2^32\<close>, which \<open>W32\<close> embeds in the words.
\<close>

definition rfc1321_H :: "u32 list" where
  "rfc1321_H = [0x67452301, 0xefcdab89, 0x98badcfe, 0x10325476]"

definition md5_zero_message_hash :: "u8 list" where
  "md5_zero_message_hash =
    [0xd4, 0x1d, 0x8c, 0xd9, 0x8f, 0x00, 0xb2, 0x04, 0xe9, 0x80, 0x09, 0x98, 0xec, 0xf8, 0x42, 0x7e]"

definition W32 :: "int \<Rightarrow> u32" where "W32 i = word_of_int i"

definition istep :: "int \<Rightarrow> int \<Rightarrow> int \<Rightarrow> nat \<Rightarrow> int \<Rightarrow> int" where
  "istep w fv kv s x = (let v = (w + (fv + kv)) mod 4294967296
     in ((push_bit s v OR drop_bit (32 - s) v) + x) mod 4294967296)"

lemma mod_take_bit: "(a :: int) mod 4294967296 = take_bit 32 a"
  by (simp add: take_bit_eq_mod)

lemma W32_mod: "W32 (a mod 4294967296) = W32 a"
  unfolding W32_def mod_take_bit by (rule bit_word_eqI) (simp add: bit_simps)

lemma W32_ops:
  "W32 a + W32 b = W32 (a + b)" "W32 a AND W32 b = W32 (a AND b)" "W32 a OR W32 b = W32 (a OR b)"
  "W32 a XOR W32 b = W32 (a XOR b)" "NOT (W32 a) = W32 (NOT a)"
  by (simp_all only: W32_def wi_hom_add word_wi_log_defs)

lemma W32_shift:
  "push_bit s (W32 a) = W32 (push_bit s a)"
  "drop_bit s (W32 (a mod 4294967296)) = W32 (drop_bit s (a mod 4294967296))"
  unfolding W32_def mod_take_bit by (rule bit_word_eqI, auto simp: bit_simps)+

lemma W32_uint: "W32 (uint x) = x"
  by (simp add: W32_def)

lemma istep_word:
  "(let w1 = W32 a + (W32 fv + (x + k)) in (push_bit s w1 OR drop_bit (32 - s) w1) + W32 b) =
   W32 (istep a fv (uint x + uint k) s b)"
proof -
  have v: "W32 a + (W32 fv + (x + k)) = W32 ((a + (fv + (uint x + uint k))) mod 4294967296)"
    by (simp only: W32_mod flip: W32_ops) (simp add: W32_uint)
  show ?thesis unfolding v istep_def Let_def W32_mod [of "_ + b"] by (simp only: W32_ops W32_shift)
qed

lemma MD5STEP_W32:
  "MD5STEP inp (W32 a, W32 b, W32 c, W32 d) (F1, i, k, s) =
     (W32 d, W32 (istep a (d XOR (b AND (c XOR d))) (uint (inp ! i) + uint k) s b), W32 b, W32 c)"
  "MD5STEP inp (W32 a, W32 b, W32 c, W32 d) (F2, i, k, s) =
     (W32 d, W32 (istep a (c XOR (d AND (b XOR c))) (uint (inp ! i) + uint k) s b), W32 b, W32 c)"
  "MD5STEP inp (W32 a, W32 b, W32 c, W32 d) (F3, i, k, s) =
     (W32 d, W32 (istep a (b XOR c XOR d) (uint (inp ! i) + uint k) s b), W32 b, W32 c)"
  "MD5STEP inp (W32 a, W32 b, W32 c, W32 d) (F4, i, k, s) =
     (W32 d, W32 (istep a (c XOR (b OR NOT d)) (uint (inp ! i) + uint k) s b), W32 b, W32 c)"
  unfolding MD5STEP_def prod.case F1_def F2_def F3_def F4_def W32_ops istep_word [symmetric] by (simp_all only: Let_def)

lemma md5_zero_block: "block_words (0x80 # replicate 63 0) = 0x80 # replicate 15 0"
proof (rule nth_equalityI)
  show "length (block_words (0x80 # replicate 63 0)) = length (0x80 # replicate 15 (0 :: u32))"
    by (simp add: block_words_def)
  fix i assume "i < length (block_words (0x80 # replicate 63 0))"
  then have i: "i < 16" by (simp add: block_words_def)
  have z: "le32 (replicate 4 0) = 0" "le32 (0x80 # replicate 3 0) = 0x80" by (simp_all add: le32_def)
  show "block_words (0x80 # replicate 63 0) ! i = (0x80 # replicate 15 0) ! i"
  proof (cases i)
    case 0
    then show ?thesis using z by (simp add: block_words_def take_Cons' min_def)
  next
    case (Suc j)
    have e: "4 * i = Suc (4 * j + 3)" using Suc by simp
    have "take 4 (drop (4 * i) (0x80 # replicate 63 0)) = replicate 4 (0 :: u8)"
      unfolding e drop_Suc_Cons using i Suc by (simp add: take_replicate drop_replicate min_def)
    then show ?thesis using i Suc z by (simp add: block_words_def)
  qed
qed

lemma md5_zero_transform: "md5_transform rfc1321_H (0x80 # replicate 15 0) = [0xd98c1dd4, 0x04b2008f, 0x980980e9, 0x7e42f8ec]"
proof -
  have H: "rfc1321_H = [W32 0x67452301, W32 0xefcdab89, W32 0x98badcfe, W32 0x10325476]" by (simp add: W32_def rfc1321_H_def)
  have "foldl (MD5STEP (0x80 # replicate 15 0)) (W32 0x67452301, W32 0xefcdab89, W32 0x98badcfe, W32 0x10325476) md5_rows =
      (W32 1917254355, W32 350508294, W32 4283343851, W32 1846584438)"
    by (simp add: md5_rows_def MD5STEP_W32 istep_def nth_Cons')
  then have "md5_transform rfc1321_H (0x80 # replicate 15 0) =
      [W32 (0x67452301 + 1917254355), W32 (0xefcdab89 + 350508294), W32 (0x98badcfe + 4283343851), W32 (0x10325476 + 1846584438)]"
    unfolding md5_transform_def H by (simp add: W32_ops)
  also have "\<dots> = [W32 0xd98c1dd4, W32 0x04b2008f, W32 0x980980e9, W32 0x7e42f8ec]"
    by (subst (1 2 3 4) W32_mod [symmetric]) simp
  finally show ?thesis by (simp add: W32_def)
qed

text \<open>C21: from the initial chaining words of RFC 1321 the code computes the digest of the empty message that the kernel stores as \<open>md5_zero_message_hash\<close>, whatever the context held before initialisation.\<close>
theorem md5_zero_message:
  assumes "H = rfc1321_H" "length (mblock ctx) = 64"
  shows "fst (md5_final (md5_init H ctx)) = md5_zero_message_hash"
proof -
  have H: "[H ! 0, H ! 1, H ! 2, H ! 3] = rfc1321_H" using assms(1) by (simp add: rfc1321_H_def)
  have "fst (md5_final (md5_init H ctx)) = md5_spec H []"
    by (rule md5_final_rep [OF md5_init_rep [OF assms(2)]])
  moreover have "replicate 55 0 @ le_bytes 0 @ le_bytes 0 = replicate 63 (0 :: u8)"
    by (simp add: le_bytes_def numeral_eq_Suc)
  then have "md5_pad 0 = 0x80 # replicate 63 0" by (simp add: md5_pad_def)
  then have "md5_blocks rfc1321_H (md5_pad 0) = [0xd98c1dd4, 0x04b2008f, 0x980980e9, 0x7e42f8ec]"
    using md5_blocks_one [of "0x80 # replicate 63 0" rfc1321_H "[]"] md5_zero_block md5_zero_transform
    by (simp add: md5_blocks_short)
  then have "md5_spec H [] = concat (map le_bytes [0xd98c1dd4, 0x04b2008f, 0x980980e9, 0x7e42f8ec])"
    unfolding md5_spec_def H by simp
  ultimately show ?thesis by (simp add: le_bytes_def md5_zero_message_hash_def)
qed

theorem md5_zero_message_witness:
  "fst (md5_final (md5_init rfc1321_H \<lparr>mhash = [], mblock = replicate 64 1, byte_count = 5\<rparr>)) = md5_zero_message_hash"
  by (rule md5_zero_message) simp_all

end
