(* ===== verification/Molt.thy ===== *)
theory Molt
  imports SkinFormat
begin

text \<open>
  \<open>3-3/src/comp_kernel/molt.c\<close>: given the skin of the original kernel and the skin of a changed
  one, the tool walks both in step and copies every changed file into a \<^emph>\<open>molt\<close> tree. The copy
  itself is done by \<open>cp\<close> and \<open>mkdir -p\<close> through \<open>system\<close>; the shell is the parameter
  \<open>sh\<close>, which maps a command line and the current state to the new file store.
\<close>

section \<open>Operations\<close>

definition MOLT_SUFFIX :: string where
  "MOLT_SUFFIX = ''__molt''"

definition molt_filter :: "string \<Rightarrow> bool" where
  "molt_filter d_name =
     (if strcmp d_name ''.'' = 0 \<or> strcmp d_name ''..'' = 0 \<or> strcmp d_name ''.git'' = 0
      then False else True)"

definition mkdir_cmd :: "string \<Rightarrow> string" where
  "mkdir_cmd m_path = ''mkdir -p $(dirname '' @ m_path @ '')''"

definition cp_cmd :: "string \<Rightarrow> string \<Rightarrow> string" where
  "cp_cmd c_buf m_path = ''cp '' @ c_buf @ '' '' @ m_path"

definition fd_contents :: "world \<Rightarrow> string \<Rightarrow> string" where
  "fd_contents w p = (case open_read w p of None \<Rightarrow> [] | Some s \<Rightarrow> s)"

definition molting_file ::
  "(string \<Rightarrow> world \<Rightarrow> fs) \<Rightarrow> string \<Rightarrow> string \<Rightarrow> string \<Rightarrow> world \<Rightarrow> run" where
  "molting_file sh o_path c_path m_path w =
     (let o_fd = fd_contents w o_path; c_fd = fd_contents w c_path;
          o_hash = (read_buf HASHLEN o_fd)[HASHLEN - 1 := Some NUL];
          o_buf = read_buf BUFMAX (drop HASHLEN o_fd);
          c_hash = (read_buf HASHLEN c_fd)[HASHLEN - 1 := Some NUL];
          c_buf = read_buf BUFMAX (drop HASHLEN c_fd) in
      run_bind (buf_str o_buf) (\<lambda>o_str.
      run_bind (buf_str c_buf) (\<lambda>c_str.
      run_bind (strcmp_buf o_hash c_hash) (\<lambda>n.
      if n = 0 then Inr w
      else
      run_bind
        (if \<not> access_ok w m_path
         then run_bind (sprintf_buf BUFMAX (mkdir_cmd m_path)) (\<lambda>cmdline. Inr (system sh cmdline w))
         else Inr w) (\<lambda>w1.
      run_bind (sprintf_buf BUFMAX (cp_cmd c_str m_path)) (\<lambda>cmdline.
      Inr (system sh cmdline w1)))))))"

function (sequential)
  molting_dir :: "(string \<Rightarrow> world \<Rightarrow> fs) \<Rightarrow> string \<Rightarrow> string \<Rightarrow> string \<Rightarrow> world \<Rightarrow> run"
and molting_loop :: "(string \<Rightarrow> world \<Rightarrow> fs) \<Rightarrow> string \<Rightarrow> string \<Rightarrow> string \<Rightarrow> bool option \<Rightarrow> bool option
      \<Rightarrow> string list \<Rightarrow> string list \<Rightarrow> world \<Rightarrow> run"
where
  "molting_dir sh o_path c_path m_path w =
     (case scandir molt_filter w o_path of
        None \<Rightarrow> Inr (printf_err (''in function molting_dir: scandir error'' @ NL) w)
      | Some o_filelist \<Rightarrow>
     (case scandir molt_filter w c_path of
        None \<Rightarrow> Inr (printf_err (''in function molting_dir: scandir error'' @ NL) w)
      | Some c_filelist \<Rightarrow>
          molting_loop sh o_path c_path m_path None None o_filelist c_filelist w))"
| "molting_loop sh o_path c_path m_path o_stat c_stat (o_name # os) (c_name # cs) w =
     run_bind (sprintf_buf BUFMAX (o_path @ SLASH # o_name)) (\<lambda>tmp_o_path.
     run_bind (sprintf_buf BUFMAX (c_path @ SLASH # c_name)) (\<lambda>tmp_c_path.
     let o_stat' = stat_buf w tmp_o_path o_stat; c_stat' = stat_buf w tmp_c_path c_stat;
         n = strcmp o_name c_name in
     if n = 0 then
       run_bind (sprintf_buf BUFMAX (m_path @ SLASH # o_name)) (\<lambda>tmp_m_path.
       run_bind (init_read o_stat') (\<lambda>o_dir.
       run_bind (init_read c_stat') (\<lambda>c_dir.
       run_bind
         (if o_dir \<and> c_dir then molting_dir sh tmp_o_path tmp_c_path tmp_m_path w
          else if \<not> o_dir \<and> \<not> c_dir then molting_file sh tmp_o_path tmp_c_path tmp_m_path w
          else Inr w) (\<lambda>w'.
       molting_loop sh o_path c_path m_path o_stat' c_stat' os cs w'))))
     else if n < 0 then
       molting_loop sh o_path c_path m_path o_stat' c_stat' os (c_name # cs) w
     else
       molting_loop sh o_path c_path m_path o_stat' c_stat' (o_name # os) cs w))"
| "molting_loop sh o_path c_path m_path o_stat c_stat os cs w = Inr w"
  by pat_completeness auto
termination
  by (relation "measures [
      \<lambda>x. case x of Inl (sh, f, _) \<Rightarrow> BUFMAX - length f | Inr (sh, f, _) \<Rightarrow> BUFMAX - length f,
      \<lambda>x. case x of Inl _ \<Rightarrow> 1 | Inr _ \<Rightarrow> 0,
      \<lambda>x. case x of Inl _ \<Rightarrow> 0 | Inr (sh, f, c, m, s, t, l, k, w) \<Rightarrow> length l + length k]")
     (auto simp: sprintf_buf_def split: if_splits)

declare molting_dir.simps [simp del]

definition molt_body :: "(string \<Rightarrow> world \<Rightarrow> fs) \<Rightarrow> string list \<Rightarrow> world \<Rightarrow> run" where
  "molt_body sh args w =
     (if length args \<noteq> 2
      then Inl (Exit 1 (printf_err (''usage : <org_path__skin> <cmp_path__skin>'' @ NL) w))
      else let arg1 = args ! 0; arg2 = args ! 1 in
      if \<not> access_ok w arg1 \<or> \<not> access_ok w arg2
      then Inl (Exit 1 (printf_err (''argv[1] or argv[2] don'' @ [CHR 0x27] @ ''t exist..'' @ NL) w))
      else
      run_bind (init_read (stat_buf w arg1 None)) (\<lambda>isdir1.
      run_bind (init_read (stat_buf w arg2 None)) (\<lambda>isdir2.
      if \<not> isdir1 \<or> \<not> isdir2
      then Inl (Exit 1 (printf_err (''argv[1] or argv[2] are not dir'' @ NL) w))
      else
      run_bind (abs_path w arg1) (\<lambda>o_path.
      run_bind (abs_path w arg2) (\<lambda>c_path.
      case strrchr c_path (CHR ''_'') of
        None \<Rightarrow> Inl (Undef Null_Pointer)
      | Some i \<Rightarrow>
          if i = 0 then Inl (Undef Out_Of_Bounds)
          else
          run_bind (sprintf_buf BUFMAX (take (i - 1) c_path @ MOLT_SUFFIX)) (\<lambda>m_path.
          let w1 = (if access_ok w m_path then rmdir m_path w else w)
          in molting_dir sh o_path c_path m_path (mkdir m_path w1)))))))"

definition molt_main :: "(string \<Rightarrow> world \<Rightarrow> fs) \<Rightarrow> string list \<Rightarrow> world \<Rightarrow> stop" where
  "molt_main sh args w = (case molt_body sh args w of Inl st \<Rightarrow> st | Inr w' \<Rightarrow> Exit 0 w')"

section \<open>Specification\<close>

definition shell_word :: "string \<Rightarrow> bool" where
  "shell_word s \<longleftrightarrow> s \<noteq> [] \<and> hd s = SLASH \<and>
     list_all (\<lambda>c. c \<in> set ''abcdefghijklmnopqrstuvwxyzABCDEFGHIJKLMNOPQRSTUVWXYZ0123456789/._+,-'') s"

definition changed :: "fs \<Rightarrow> string list \<Rightarrow> string list \<Rightarrow> string list \<Rightarrow> bool" where
  "changed f Or C r \<longleftrightarrow> visible r \<and>
     (\<exists>s1 s2. fs_get f (Or @ r) = Some (Reg s1) \<and> fs_get f (C @ r) = Some (Reg s2)
        \<and> skin_hash s1 \<noteq> skin_hash s2)"

definition molt_tree :: "(string list \<Rightarrow> string) \<Rightarrow> string list set \<Rightarrow> string list \<Rightarrow> fnode option" where
  "molt_tree T D r =
     (if r = [] then Some Directory
      else if r \<in> D then Some (Reg (T r))
      else if \<exists>r' \<in> D. strict_prefix r r' then Some Directory else None)"

section \<open>The shell's contract\<close>

locale shell_copy =
  fixes sh :: "string \<Rightarrow> world \<Rightarrow> fs"
  assumes sh_mkdir: "\<lbrakk> fs_wf (files w); resolve w m = Some M; fs_get (files w) M = Some Directory;
      shell_word (m @ join_path r); r \<noteq> []; \<forall>n \<in> set r. valid_name n;
      length (m @ join_path r) < PATH_MAX;
      \<forall>q. prefix q (butlast r) \<longrightarrow> fs_get (files w) (M @ q) \<in> {None, Some Directory} \<rbrakk>
    \<Longrightarrow> fs_wf (sh (mkdir_cmd (m @ join_path r)) w) \<and>
        (\<forall>p. fs_get (sh (mkdir_cmd (m @ join_path r)) w) p =
           (if prefix M p \<and> prefix p (M @ butlast r) then Some Directory else fs_get (files w) p))"
    and sh_cp: "\<lbrakk> fs_wf (files w); shell_word s; shell_word t; stat_node w s = Some (Reg txt);
      resolve_new w t = Some c; fs_get (files w) c \<noteq> Some Directory \<rbrakk>
    \<Longrightarrow> fs_wf (sh (cp_cmd s t) w) \<and>
        (\<forall>p. fs_get (sh (cp_cmd s t) w) p = (if p = c then Some (Reg txt) else fs_get (files w) p))"

section \<open>One file\<close>

lemma molting_file_skins:
  assumes o: "fd_contents w op = s1" "wf_skin s1" and c: "fd_contents w cp = s2" "wf_skin s2"
  shows "molting_file sh op cp mp w =
    (if skin_hash s1 = skin_hash s2 then Inr w
     else run_bind
        (if \<not> access_ok w mp
         then run_bind (sprintf_buf BUFMAX (mkdir_cmd mp)) (\<lambda>cmdline. Inr (system sh cmdline w))
         else Inr w) (\<lambda>w1.
      run_bind (sprintf_buf BUFMAX (cp_cmd (skin_path s2) mp)) (\<lambda>cmdline.
      Inr (system sh cmdline w1))))"
proof -
  obtain h1 p1 where 1: "s1 = skin_rec h1 p1" "length h1 = HASHLEN - 1" "cstring h1" "cstring p1" "length p1 < BUFMAX"
    using o(2) unfolding wf_skin_def by blast
  obtain h2 p2 where 2: "s2 = skin_rec h2 p2" "length h2 = HASHLEN - 1" "cstring h2" "cstring p2" "length p2 < BUFMAX"
    using c(2) unfolding wf_skin_def by blast
  obtain b1 where b1: "read_buf BUFMAX (drop HASHLEN s1) = map Some p1 @ Some NUL # b1"
    using path_buf 1 by blast
  obtain b2 where b2: "read_buf BUFMAX (drop HASHLEN s2) = map Some p2 @ Some NUL # b2"
    using path_buf 2 by blast
  obtain n where n: "strcmp_buf (map Some h1 @ [Some NUL]) (map Some h2 @ [Some NUL]) = Inr n" "n = 0 \<longleftrightarrow> h1 = h2"
    using strcmp_buf_map 1 2 by blast
  have "skin_hash s1 = h1" "skin_hash s2 = h2" "skin_path s2 = p2" using 1 2 by simp_all
  moreover have "(read_buf HASHLEN s1)[HASHLEN - 1 := Some NUL] = map Some h1 @ [Some NUL]"
    "(read_buf HASHLEN s2)[HASHLEN - 1 := Some NUL] = map Some h2 @ [Some NUL]"
    using hash_buf 1 2 by blast+
  ultimately show ?thesis using n(2)
    unfolding molting_file_def Let_def o(1) c(1) b1 b2
    by (simp only: buf_str_map 1(4) 2(4) run_bind_Inr n(1))
qed

section \<open>The growing molt\<close>

definition molt_args :: "world \<Rightarrow> string \<Rightarrow> string list \<Rightarrow> string \<Rightarrow> string list \<Rightarrow> string \<Rightarrow> string list
    \<Rightarrow> (string list \<Rightarrow> string) \<Rightarrow> bool" where
  "molt_args w op Or cp C mp M T \<longleftrightarrow>
     fs_wf (files w) \<and>
     resolve w op = Some Or \<and> fs_get (files w) Or = Some Directory \<and>
     resolve w cp = Some C \<and> fs_get (files w) C = Some Directory \<and>
     Or \<parallel> M \<and> C \<parallel> M \<and>
     (\<forall>r s. visible r \<longrightarrow> fs_get (files w) (Or @ r) = Some (Reg s) \<or> fs_get (files w) (C @ r) = Some (Reg s)
        \<longrightarrow> wf_skin s) \<and>
     (\<forall>r. visible r \<longrightarrow> fs_get (files w) (Or @ r) \<noteq> None \<or> fs_get (files w) (C @ r) \<noteq> None \<longrightarrow>
        length op + length (join_path r) < BUFMAX \<and> length cp + length (join_path r) < BUFMAX \<and>
        length mp + length (join_path r) + 20 < BUFMAX) \<and>
     (\<forall>r s. changed (files w) Or C r \<longrightarrow> fs_get (files w) (C @ r) = Some (Reg s) \<longrightarrow>
        shell_word (skin_path s) \<and> shell_word (mp @ join_path r) \<and>
        length (skin_path s) + length mp + length (join_path r) + 4 < BUFMAX \<and>
        (\<exists>c. resolve w (skin_path s) = Some c \<and> \<not> prefix M c \<and> fs_get (files w) c = Some (Reg (T r))))"

definition molt_pre :: "world \<Rightarrow> string \<Rightarrow> string list \<Rightarrow> string \<Rightarrow> string list \<Rightarrow> string \<Rightarrow> string list
    \<Rightarrow> (string list \<Rightarrow> string) \<Rightarrow> bool" where
  "molt_pre w op Or cp C mp M T \<longleftrightarrow> molt_args w op Or cp C mp M T \<and> resolve w mp = Some M \<and>
     (\<forall>r. fs_get (files w) (M @ r) = molt_tree T {} r)"

definition molt_inv :: "world \<Rightarrow> string list \<Rightarrow> (string list \<Rightarrow> string) \<Rightarrow> string list set \<Rightarrow> world \<Rightarrow> bool" where
  "molt_inv w0 M T D w \<longleftrightarrow> fs_wf (files w) \<and> cwd w = cwd w0 \<and> outs w = outs w0 \<and> errs w = errs w0 \<and>
     (\<forall>p. \<not> prefix M p \<longrightarrow> fs_get (files w) p = fs_get (files w0) p) \<and>
     (\<forall>r. fs_get (files w) (M @ r) = molt_tree T D r)"

lemma molt_tree_mono: "molt_tree T {} r \<noteq> None \<Longrightarrow> molt_tree T D r = Some Directory"
  by (auto simp: molt_tree_def split: if_splits)

lemma molt_inv_mono:
  assumes pre: "molt_pre w0 op Or cp C mp M T" and inv: "molt_inv w0 M T D w"
  shows "fs_mono (files w0) (files w)"
  unfolding fs_mono_def
proof (intro allI)
  fix p
  show "(fs_get (files w0) p = Some Directory \<longrightarrow> fs_get (files w) p = Some Directory) \<and>
      (fs_get (files w0) p \<noteq> None \<longrightarrow> fs_get (files w) p \<noteq> None)"
  proof (cases "prefix M p")
    case True
    then obtain r where p: "p = M @ r" by (auto simp: prefix_def)
    have "fs_get (files w0) p = molt_tree T {} r" "fs_get (files w) p = molt_tree T D r"
      using pre inv p by (auto simp: molt_pre_def molt_args_def molt_inv_def)
    then show ?thesis using molt_tree_mono [of T r D] by auto
  next
    case False
    then show ?thesis using inv by (simp add: molt_inv_def)
  qed
qed

lemma molt_inv_side:
  assumes "molt_pre w0 op Or cp C mp M T" "molt_inv w0 M T D w"
  shows "fs_get (files w) (Or @ r) = fs_get (files w0) (Or @ r)"
    "fs_get (files w) (C @ r) = fs_get (files w0) (C @ r)"
proof -
  have "\<not> prefix M (Or @ r)" "\<not> prefix M (C @ r)"
    using assms(1) parallel_below [of Or M "[]" r] parallel_below [of C M "[]" r]
    by (auto simp: molt_pre_def molt_args_def)
  then show "fs_get (files w) (Or @ r) = fs_get (files w0) (Or @ r)"
    "fs_get (files w) (C @ r) = fs_get (files w0) (C @ r)"
    using assms(2) by (auto simp: molt_inv_def)
qed

lemma molt_bounds:
  assumes pre: "molt_pre w0 op Or cp C mp M T" and vis: "visible r"
    and ex: "fs_get (files w0) (Or @ r) \<noteq> None \<or> fs_get (files w0) (C @ r) \<noteq> None"
  shows "\<forall>n \<in> set r. valid_name n" "length op + length (join_path r) < BUFMAX"
    "length cp + length (join_path r) < BUFMAX" "length mp + length (join_path r) < BUFMAX"
proof -
  have "fs_wf (files w0)" using pre by (simp add: molt_pre_def molt_args_def)
  then show "\<forall>n \<in> set r. valid_name n"
    using ex fstore.names_valid [of "files w0" "Or @ r"] fstore.names_valid [of "files w0" "C @ r"] by auto
  have "length op + length (join_path r) < BUFMAX \<and> length cp + length (join_path r) < BUFMAX \<and>
        length mp + length (join_path r) + 20 < BUFMAX"
    using pre vis ex unfolding molt_pre_def molt_args_def by blast
  then show "length op + length (join_path r) < BUFMAX" "length cp + length (join_path r) < BUFMAX"
    "length mp + length (join_path r) < BUFMAX" by auto
qed

lemma molt_resolve:
  assumes pre: "molt_pre w0 op Or cp C mp M T" and inv: "molt_inv w0 M T D w" and vis: "visible r"
    and ex: "fs_get (files w0) (Or @ r) \<noteq> None \<or> fs_get (files w0) (C @ r) \<noteq> None"
  shows "fs_get (files w0) (Or @ r) \<noteq> None \<Longrightarrow> resolve w (op @ join_path r) = Some (Or @ r)"
    and "fs_get (files w0) (C @ r) \<noteq> None \<Longrightarrow> resolve w (cp @ join_path r) = Some (C @ r)"
    and "resolve w (mp @ join_path r) = (if molt_tree T D r = None then None else Some (M @ r))"
proof -
  note mono = molt_inv_mono [OF pre inv]
  have wf: "fs_wf (files w)" and cwd: "cwd w = cwd w0"
    using pre inv by (auto simp: molt_pre_def molt_args_def molt_inv_def)
  have res: "resolve w op = Some Or" "resolve w cp = Some C" "resolve w mp = Some M"
    using pre by (auto simp: molt_pre_def molt_args_def intro: resolve_mono [OF mono cwd])
  have M0: "fs_get (files w0) (M @ []) = molt_tree T {} []" using pre unfolding molt_pre_def molt_args_def by blast
  have dirs: "fs_get (files w) Or = Some Directory" "fs_get (files w) C = Some Directory"
    "fs_get (files w) M = Some Directory"
    using mono pre M0 by (auto simp: fs_mono_def molt_pre_def molt_args_def molt_tree_def)
  note b = molt_bounds [OF pre vis ex]
  note side = molt_inv_side [OF pre inv, of r]
  show "fs_get (files w0) (Or @ r) \<noteq> None \<Longrightarrow> resolve w (op @ join_path r) = Some (Or @ r)"
    using resolve_join [OF wf res(1) dirs(1) b(1,2)] side by simp
  show "fs_get (files w0) (C @ r) \<noteq> None \<Longrightarrow> resolve w (cp @ join_path r) = Some (C @ r)"
    using resolve_join [OF wf res(2) dirs(2) b(1,3)] side by simp
  show "resolve w (mp @ join_path r) = (if molt_tree T D r = None then None else Some (M @ r))"
    using resolve_join [OF wf res(3) dirs(3) b(1,4)] inv by (simp add: molt_inv_def)
qed

lemma molt_tree_above:
  assumes "\<forall>d \<in> D. \<not> strict_prefix d r" "r \<notin> D" "prefix q (butlast r)" "r \<noteq> []"
  shows "molt_tree T D q \<in> {None, Some Directory}"
proof -
  have "strict_prefix q r" using assms(3,4)
    by (metis append_butlast_last_id prefix_def prefix_order.dual_order.strict_trans1 prefixI
        prefix_order.le_neq_trans not_Cons_self2 self_append_conv strict_prefixI)
  with assms(1) have "q \<notin> D" by blast
  then show ?thesis by (auto simp: molt_tree_def)
qed

lemma molt_tree_insert:
  assumes "r \<noteq> []" "\<forall>d \<in> D. \<not> strict_prefix d r"
  shows "molt_tree T (insert r D) q =
    (if q = r then Some (Reg (T r)) else if prefix q (butlast r) then Some Directory else molt_tree T D q)"
proof -
  have sp: "strict_prefix q r \<longleftrightarrow> prefix q (butlast r)"
    using assms(1) by (metis append_butlast_last_id prefix_snoc strict_prefix_def prefix_length_le
        length_append_singleton not_less_eq_eq order_refl)
  show ?thesis using assms sp by (auto simp: molt_tree_def strict_prefix_def)
qed

lemma changed_frame: "changed f Or C r \<Longrightarrow> r \<noteq> [] \<or> fs_get f Or \<noteq> Some Directory"
  by (auto simp: changed_def)

lemma changed_no_strict_prefix:
  assumes wf: "fs_wf f" and d: "changed f Or C d" and r: "fs_get f (Or @ r) \<noteq> None"
  shows "\<not> strict_prefix d r"
proof
  assume "strict_prefix d r"
  then obtain n q where "r = d @ n # q" by (metis strict_prefixE')
  then have "fs_get f ((Or @ d) @ n # q) \<noteq> None" using r by simp
  then have "fs_get f (Or @ d) = Some Directory" using fstore.get_above [OF wf] by blast
  with d show False by (auto simp: changed_def)
qed

lemma changed_child:
  assumes wf: "fs_wf f" and ch: "changed f Or C (q @ n # t)"
  shows "fs_get f (Or @ q @ [n]) \<noteq> None" "fs_get f (C @ q @ [n]) \<noteq> None" "n \<noteq> ''.git''"
    "t = [] \<or> fs_get f (Or @ q @ [n]) = Some Directory \<and> fs_get f (C @ q @ [n]) = Some Directory"
proof -
  have ex: "fs_get f ((Or @ q @ [n]) @ t) \<noteq> None" "fs_get f ((C @ q @ [n]) @ t) \<noteq> None"
    using ch by (auto simp: changed_def)
  show "fs_get f (Or @ q @ [n]) \<noteq> None" "fs_get f (C @ q @ [n]) \<noteq> None"
    using fstore.none_below_None [OF wf, of "Or @ q @ [n]" t] fstore.none_below_None [OF wf, of "C @ q @ [n]" t] ex
    by argo+
  show "n \<noteq> ''.git''" using ch by (auto simp: changed_def visible_def)
  show "t = [] \<or> fs_get f (Or @ q @ [n]) = Some Directory \<and> fs_get f (C @ q @ [n]) = Some Directory"
  proof (cases t)
    case (Cons m u)
    then show ?thesis using fstore.get_above [OF wf, of "Or @ q @ [n]" m u]
      fstore.get_above [OF wf, of "C @ q @ [n]" m u] ex by simp
  qed simp
qed

lemma molt_inv_sources:
  assumes pre: "molt_pre w0 op Or cp C mp M T" and inv: "molt_inv w0 M T D w"
    and ch: "changed (files w0) Or C r" and s: "fs_get (files w0) (C @ r) = Some (Reg s)"
  shows "stat_node w (skin_path s) = Some (Reg (T r))"
proof -
  obtain c where c: "resolve w0 (skin_path s) = Some c" "\<not> prefix M c" "fs_get (files w0) c = Some (Reg (T r))"
    using pre ch s unfolding molt_pre_def molt_args_def by blast
  have "cwd w = cwd w0" using inv by (simp add: molt_inv_def)
  then have "resolve w (skin_path s) = Some c" using resolve_mono [OF molt_inv_mono [OF pre inv] _ c(1)] by blast
  then show ?thesis using c inv by (simp add: stat_node_def molt_inv_def)
qed

lemma molt_filter_ok: "tool_filter molt_filter"
  by (simp add: tool_filter_def molt_filter_def cstring_def NUL_def)

lemma molt_loop_head:
  assumes pre: "molt_pre w0 op Or cp C mp M T" and inv: "molt_inv w0 M T D w" and vis: "visible q"
    and paths: "opath = op @ join_path q" "cpath = cp @ join_path q" "mpath = mp @ join_path q"
    and x: "fs_get (files w0) (Or @ q @ [on]) = Some x" "on \<noteq> ''.git''"
    and y: "fs_get (files w0) (C @ q @ [cn]) = Some y" "cn \<noteq> ''.git''"
  shows "sprintf_buf BUFMAX (opath @ SLASH # on) = Inr (op @ join_path (q @ [on]))"
    "sprintf_buf BUFMAX (cpath @ SLASH # cn) = Inr (cp @ join_path (q @ [cn]))"
    "sprintf_buf BUFMAX (mpath @ SLASH # on) = Inr (mp @ join_path (q @ [on]))"
    "init_read (stat_buf w (op @ join_path (q @ [on])) ost) = Inr (x = Directory)"
    "init_read (stat_buf w (cp @ join_path (q @ [cn])) cst) = Inr (y = Directory)"
    "cstring on" "cstring cn"
proof -
  let ?ro = "q @ [on]" and ?rc = "q @ [cn]"
  have viso: "visible ?ro" and visc: "visible ?rc" using vis x(2) y(2) by (auto simp: visible_def)
  have exo: "fs_get (files w0) (Or @ ?ro) \<noteq> None \<or> fs_get (files w0) (C @ ?ro) \<noteq> None" using x by simp
  have exc: "fs_get (files w0) (Or @ ?rc) \<noteq> None \<or> fs_get (files w0) (C @ ?rc) \<noteq> None" using y by simp
  note bo = molt_bounds [OF pre viso exo] and bc = molt_bounds [OF pre visc exc]
  show "sprintf_buf BUFMAX (opath @ SLASH # on) = Inr (op @ join_path ?ro)"
    "sprintf_buf BUFMAX (cpath @ SLASH # cn) = Inr (cp @ join_path ?rc)"
    "sprintf_buf BUFMAX (mpath @ SLASH # on) = Inr (mp @ join_path ?ro)"
    unfolding paths using bo bc by (simp_all add: sprintf_buf_def)
  show "init_read (stat_buf w (op @ join_path ?ro) ost) = Inr (x = Directory)"
    "init_read (stat_buf w (cp @ join_path ?rc) cst) = Inr (y = Directory)"
    using molt_resolve(1) [OF pre inv viso exo] molt_resolve(2) [OF pre inv visc exc] x y
      molt_inv_side [OF pre inv] by (simp_all add: stat_buf_def stat_node_def init_read_def)
  show "cstring on" "cstring cn" using bo(1) bc(1) valid_name_cstring by auto
qed

context shell_copy
begin

lemma copy_step:
  assumes pre: "molt_pre w0 op Or cp C mp M T" and inv: "molt_inv w0 M T D w"
    and r: "r \<noteq> []" "changed (files w0) Or C r" "r \<notin> D" "\<forall>d \<in> D. \<not> strict_prefix d r" "\<forall>d \<in> D. \<not> strict_prefix r d"
    and s: "fs_get (files w0) (C @ r) = Some (Reg s)"
  shows "molt_inv w0 M T (insert r D)
    (system sh (cp_cmd (skin_path s) (mp @ join_path r)) (system sh (mkdir_cmd (mp @ join_path r)) w))"
proof -
  let ?t = "mp @ join_path r"
  let ?w1 = "system sh (mkdir_cmd ?t) w"
  have vis: "visible r" and ex: "fs_get (files w0) (Or @ r) \<noteq> None" using r(2) by (auto simp: changed_def)
  have wf: "fs_wf (files w)" and cwd: "cwd w = cwd w0" using inv by (auto simp: molt_inv_def)
  have wf0: "fs_wf (files w0)" and resM: "resolve w mp = Some M"
    using pre resolve_mono [OF molt_inv_mono [OF pre inv] cwd] by (auto simp: molt_pre_def molt_args_def)
  have treeM: "fs_get (files w) (M @ q) = molt_tree T D q" for q using inv by (simp add: molt_inv_def)
  have dirM: "fs_get (files w) M = Some Directory" using treeM [of "[]"] by (simp add: molt_tree_def)
  have names: "\<forall>n \<in> set r. valid_name n" using fstore.names_valid [OF wf0 ex] by simp
  have len: "length mp + length (join_path r) + 20 < BUFMAX" using pre vis ex unfolding molt_pre_def molt_args_def by blast
  have safe: "shell_word (skin_path s)" "shell_word ?t" using pre r(2) s unfolding molt_pre_def molt_args_def by blast+
  have above: "\<forall>q. prefix q (butlast r) \<longrightarrow> fs_get (files w) (M @ q) \<in> {None, Some Directory}"
    using molt_tree_above [OF r(4,3) _ r(1)] treeM by simp
  have mk: "fs_wf (files ?w1)" "\<And>p. fs_get (files ?w1) p =
      (if prefix M p \<and> prefix p (M @ butlast r) then Some Directory else fs_get (files w) p)"
    using sh_mkdir [OF wf resM dirM safe(2) r(1) names _ above] len by (auto simp: system_def)
  have tree1: "fs_get (files ?w1) (M @ q) = (if prefix q (butlast r) then Some Directory else molt_tree T D q)" for q
    using mk(2) [of "M @ q"] treeM by simp
  have mono: "fs_mono (files w) (files ?w1)" using mk(2) above treeM unfolding fs_mono_def
    by (auto simp: prefix_def)
  obtain q n where qn: "r = q @ [n]" using r(1) by (metis append_butlast_last_id)
  have cwd1: "cwd ?w1 = cwd w" by (simp add: system_def)
  have "resolve ?w1 (mp @ join_path q) = Some (M @ q)"
    using resolve_join [OF mk(1), of mp M q] resolve_mono [OF mono cwd1 resM] tree1 [of "[]"] tree1 [of q]
      names len qn by (simp add: molt_tree_def)
  moreover have "fs_get (files ?w1) (M @ q) = Some Directory" using tree1 [of q] qn by simp
  ultimately have new: "resolve_new ?w1 ?t = Some (M @ r)"
    using resolve_new_child [of ?w1 "mp @ join_path q" "M @ q" n] names len qn by simp
  have "molt_tree T D r = None" using r by (auto simp: molt_tree_def)
  then have free: "fs_get (files ?w1) (M @ r) \<noteq> Some Directory"
    using tree1 [of r] qn by (auto simp: prefix_def)
  have inv1: "fs_get (files ?w1) p = fs_get (files w0) p" if "\<not> prefix M p" for p
    using that mk(2) inv by (auto simp: molt_inv_def)
  have "stat_node ?w1 (skin_path s) = Some (Reg (T r))"
  proof -
    obtain c where c: "resolve w0 (skin_path s) = Some c" "\<not> prefix M c" "fs_get (files w0) c = Some (Reg (T r))"
      using pre r(2) s unfolding molt_pre_def molt_args_def by blast
    have "resolve ?w1 (skin_path s) = Some c"
      using resolve_mono [OF fs_mono_trans [OF molt_inv_mono [OF pre inv] mono] _ c(1)] cwd cwd1 by simp
    then show ?thesis using c inv1 by (simp add: stat_node_def)
  qed
  note cp = sh_cp [OF mk(1) safe this new free]
  have "molt_tree T (insert r D) q = (if q = r then Some (Reg (T r)) else if prefix q (butlast r) then Some Directory else molt_tree T D q)" for q
    by (rule molt_tree_insert [OF r(1,4)])
  then show ?thesis using cp inv inv1 tree1 cwd1
    by (auto simp: molt_inv_def system_def)
qed

lemma molting_file_step:
  assumes pre: "molt_pre w0 op Or cp C mp M T" and inv: "molt_inv w0 M T D w"
    and r: "r \<noteq> []" "visible r" "r \<notin> D" "\<forall>d \<in> D. changed (files w0) Or C d" "\<forall>d \<in> D. \<not> strict_prefix r d"
    and s1: "fs_get (files w0) (Or @ r) = Some (Reg s1)" and s2: "fs_get (files w0) (C @ r) = Some (Reg s2)"
  shows "\<exists>w'. molting_file sh (op @ join_path r) (cp @ join_path r) (mp @ join_path r) w = Inr w' \<and>
     molt_inv w0 M T (D \<union> {r'. r' = r \<and> changed (files w0) Or C r'}) w'"
proof -
  let ?t = "mp @ join_path r"
  have skins: "wf_skin s1" "wf_skin s2" using pre r(2) s1 s2 unfolding molt_pre_def molt_args_def by blast+
  note side = molt_inv_side [OF pre inv, of r]
  have ex: "fs_get (files w0) (Or @ r) \<noteq> None \<or> fs_get (files w0) (C @ r) \<noteq> None" using s1 by simp
  have "fd_contents w (op @ join_path r) = s1" "fd_contents w (cp @ join_path r) = s2"
    using molt_resolve(1,2) [OF pre inv r(2) ex] s1 s2 side
    by (simp_all add: fd_contents_def open_read_def stat_node_def)
  note eq = molting_file_skins [OF this(1) skins(1) this(2) skins(2), of sh ?t]
  have ch: "changed (files w0) Or C r \<longleftrightarrow> skin_hash s1 \<noteq> skin_hash s2"
    using s1 s2 r(2) by (auto simp: changed_def)
  have nopre: "\<forall>d \<in> D. \<not> strict_prefix d r"
    using r(4) s1 changed_no_strict_prefix [of "files w0" Or C _ r] pre by (auto simp: molt_pre_def molt_args_def)
  show ?thesis
  proof (cases "changed (files w0) Or C r")
    case True
    have "molt_tree T D r = None" using r by (auto simp: molt_tree_def)
    then have noacc: "\<not> access_ok w ?t" using molt_resolve(3) [OF pre inv r(2) ex] by (simp add: access_ok_def)
    have "length mp + length (join_path r) + 20 < BUFMAX" "length (skin_path s2) + length mp + length (join_path r) + 4 < BUFMAX"
      using pre r(2) s1 s2 True unfolding molt_pre_def molt_args_def by blast+
    then have bufs: "sprintf_buf BUFMAX (mkdir_cmd ?t) = Inr (mkdir_cmd ?t)"
      "sprintf_buf BUFMAX (cp_cmd (skin_path s2) ?t) = Inr (cp_cmd (skin_path s2) ?t)"
      by (simp_all add: sprintf_buf_def mkdir_cmd_def cp_cmd_def)
    have "{r'. r' = r \<and> changed (files w0) Or C r'} = {r}" using True by auto
    then show ?thesis
      using eq ch True noacc bufs copy_step [OF pre inv r(1) True r(3) nopre r(5) s2] by simp
  next
    case False
    then have U: "D \<union> {r'. r' = r \<and> changed (files w0) Or C r'} = D" by blast
    show ?thesis unfolding U using eq ch False inv by simp
  qed
qed

lemma molting_pair:
  assumes pre: "molt_pre w0 op Or cp C mp M T" and inv: "molt_inv w0 M T D w"
    and r: "r = q @ [n]" "visible r" and D: "\<forall>d \<in> D. changed (files w0) Or C d \<and> \<not> prefix r d"
    and x: "fs_get (files w0) (Or @ r) = Some x" and y: "fs_get (files w0) (C @ r) = Some y"
    and dir: "x = Directory \<Longrightarrow> y = Directory \<Longrightarrow> \<exists>w'. rec = Inr w' \<and>
        molt_inv w0 M T (D \<union> {t. changed (files w0) Or C t \<and> strict_prefix r t}) w'"
  shows "\<exists>w'. (if x = Directory \<and> y = Directory then rec
      else if x \<noteq> Directory \<and> y \<noteq> Directory
      then molting_file sh (op @ join_path r) (cp @ join_path r) (mp @ join_path r) w else Inr w) = Inr w' \<and>
      molt_inv w0 M T (D \<union> {t. changed (files w0) Or C t \<and> prefix r t}) w'"
proof -
  let ?ch = "changed (files w0) Or C"
  have wf0: "fs_wf (files w0)" using pre by (simp add: molt_pre_def molt_args_def)
  have below: "t = r \<or> x = Directory \<and> y = Directory" if "?ch t" "prefix r t" for t
  proof -
    obtain u where "t = q @ n # u" using \<open>prefix r t\<close> r(1) by (auto simp: prefix_def)
    then show ?thesis using changed_child(4) [OF wf0, of Or C q n u] that(1) x y r(1) by auto
  qed
  show ?thesis
  proof (cases "x = Directory \<and> y = Directory")
    case True
    then have "{t. ?ch t \<and> prefix r t} = {t. ?ch t \<and> strict_prefix r t}"
      using x y by (auto simp: strict_prefix_def changed_def)
    then show ?thesis using dir True by simp
  next
    case False
    show ?thesis
    proof (cases "x \<noteq> Directory \<and> y \<noteq> Directory")
      case True
      then obtain s1 s2 where s: "x = Reg s1" "y = Reg s2" by (meson fnode.exhaust)
      have N: "{t. ?ch t \<and> prefix r t} = {t. t = r \<and> ?ch t}" using below False by auto
      have "r \<noteq> []" "r \<notin> D" "\<forall>d \<in> D. ?ch d" "\<forall>d \<in> D. \<not> strict_prefix r d"
        using r(1) D by (auto simp: strict_prefix_def)
      then show ?thesis
        using molting_file_step [OF pre inv _ r(2), of s1 s2] x y s True unfolding N by simp
    next
      case mixed: False
      have "\<not> (?ch t \<and> prefix r t)" for t
        using below [of t] mixed False x y by (cases x; cases y) (auto simp: changed_def)
      then have "D \<union> {t. ?ch t \<and> prefix r t} = D" by blast
      then show ?thesis using False mixed inv by auto
    qed
  qed
qed

lemma molting_loop_eq:
  assumes pre: "molt_pre w0 op Or cp C mp M T" and inv: "molt_inv w0 M T D w" and vis: "visible q"
    and paths: "opath = op @ join_path q" "cpath = cp @ join_path q" "mpath = mp @ join_path q"
    and x: "fs_get (files w0) (Or @ q @ [on]) = Some x" "on \<noteq> ''.git''"
    and y: "fs_get (files w0) (C @ q @ [on]) = Some y"
    and dist: "distinct (on # os)" "distinct (on # cs)"
    and D: "\<forall>d \<in> D. changed (files w0) Or C d \<and> (\<forall>n \<in> set (on # os) \<inter> set (on # cs). \<not> prefix (q @ [n]) d)"
    and dir: "x = Directory \<Longrightarrow> y = Directory \<Longrightarrow> \<forall>d \<in> D. changed (files w0) Or C d \<and> \<not> strict_prefix (q @ [on]) d \<Longrightarrow>
        \<exists>w'. molting_dir sh (op @ join_path (q @ [on])) (cp @ join_path (q @ [on])) (mp @ join_path (q @ [on])) w = Inr w' \<and>
          molt_inv w0 M T (D \<union> {t. changed (files w0) Or C t \<and> strict_prefix (q @ [on]) t}) w'"
    and rest: "\<And>N w1. (if x = Directory \<and> y = Directory
        then molting_dir sh (op @ join_path (q @ [on])) (cp @ join_path (q @ [on])) (mp @ join_path (q @ [on])) w
       else if x \<noteq> Directory \<and> y \<noteq> Directory
       then molting_file sh (op @ join_path (q @ [on])) (cp @ join_path (q @ [on])) (mp @ join_path (q @ [on])) w else Inr w) = Inr w1
      \<Longrightarrow> molt_inv w0 M T N w1 \<Longrightarrow> \<forall>d \<in> N. changed (files w0) Or C d \<and> (\<forall>n \<in> set os \<inter> set cs. \<not> prefix (q @ [n]) d)
      \<Longrightarrow> \<exists>w'. molting_loop sh opath cpath mpath (stat_buf w (op @ join_path (q @ [on])) ost)
        (stat_buf w (cp @ join_path (q @ [on])) cst) os cs w1 = Inr w' \<and>
        molt_inv w0 M T (N \<union> {r. changed (files w0) Or C r \<and> (\<exists>n \<in> set os \<inter> set cs. prefix (q @ [n]) r)}) w'"
  shows "\<exists>w'. molting_loop sh opath cpath mpath ost cst (on # os) (on # cs) w = Inr w' \<and>
      molt_inv w0 M T (D \<union> {r. changed (files w0) Or C r \<and> (\<exists>n \<in> set (on # os) \<inter> set (on # cs). prefix (q @ [n]) r)}) w'"
proof -
  let ?ro = "q @ [on]" and ?ch = "changed (files w0) Or C"
  let ?N = "D \<union> {t. ?ch t \<and> prefix ?ro t}"
  have viso: "visible ?ro" using vis x(2) by (auto simp: visible_def)
  have D1: "\<forall>d \<in> D. ?ch d \<and> \<not> prefix ?ro d" using D by auto
  then have D2: "\<forall>d \<in> D. ?ch d \<and> \<not> strict_prefix ?ro d" by (auto simp: strict_prefix_def)
  obtain w1 where w1: "(if x = Directory \<and> y = Directory
        then molting_dir sh (op @ join_path ?ro) (cp @ join_path ?ro) (mp @ join_path ?ro) w
       else if x \<noteq> Directory \<and> y \<noteq> Directory
       then molting_file sh (op @ join_path ?ro) (cp @ join_path ?ro) (mp @ join_path ?ro) w else Inr w) = Inr w1"
      "molt_inv w0 M T ?N w1"
    using molting_pair [OF pre inv refl viso D1 x(1) y dir [OF _ _ D2]] by blast
  have "\<not> prefix (q @ [n]) d" if "n \<in> set os" "prefix ?ro d" for n d
    using that dist(1) by (auto simp: prefix_def)
  then have N: "\<forall>d \<in> ?N. ?ch d \<and> (\<forall>n \<in> set os \<inter> set cs. \<not> prefix (q @ [n]) d)" using D by auto
  obtain w2 where w2: "molting_loop sh opath cpath mpath (stat_buf w (op @ join_path ?ro) ost)
        (stat_buf w (cp @ join_path (q @ [on])) cst) os cs w1 = Inr w2"
      "molt_inv w0 M T (?N \<union> {r. ?ch r \<and> (\<exists>n \<in> set os \<inter> set cs. prefix (q @ [n]) r)}) w2"
    using rest [OF w1 N] by blast
  note head = molt_loop_head [OF pre inv vis paths x y x(2)]
  have "?N \<union> {r. ?ch r \<and> (\<exists>n \<in> set os \<inter> set cs. prefix (q @ [n]) r)} =
        D \<union> {r. ?ch r \<and> (\<exists>n \<in> insert on (set os \<inter> set cs). prefix (q @ [n]) r)}" by blast
  moreover have "set (on # os) \<inter> set (on # cs) = insert on (set os \<inter> set cs)" using dist by auto
  moreover have "molting_loop sh opath cpath mpath ost cst (on # os) (on # cs) w = Inr w2"
    using w2(1) w1(1) head(4,5)
    by (simp only: molting_loop.simps head(1-3) run_bind_Inr Let_def strcmp_refl simp_thms if_True)
  ultimately show ?thesis using w2(2) by (simp only: simp_thms) blast
qed

lemma molting_correct:
  shows "sh' = sh \<Longrightarrow> molt_pre w0 op Or cp C mp M T \<Longrightarrow> molt_inv w0 M T D w \<Longrightarrow>
      opath = op @ join_path q \<Longrightarrow> cpath = cp @ join_path q \<Longrightarrow> mpath = mp @ join_path q \<Longrightarrow> visible q \<Longrightarrow>
      fs_get (files w0) (Or @ q) = Some Directory \<Longrightarrow> fs_get (files w0) (C @ q) = Some Directory \<Longrightarrow>
      (\<forall>d \<in> D. changed (files w0) Or C d \<and> \<not> strict_prefix q d) \<Longrightarrow>
      \<exists>w'. molting_dir sh' opath cpath mpath w = Inr w' \<and>
        molt_inv w0 M T (D \<union> {r. changed (files w0) Or C r \<and> strict_prefix q r}) w'"
    and "sh' = sh \<Longrightarrow> molt_pre w0 op Or cp C mp M T \<Longrightarrow> molt_inv w0 M T D w \<Longrightarrow>
      opath = op @ join_path q \<Longrightarrow> cpath = cp @ join_path q \<Longrightarrow> mpath = mp @ join_path q \<Longrightarrow> visible q \<Longrightarrow>
      sorted os \<Longrightarrow> distinct os \<Longrightarrow> sorted cs \<Longrightarrow> distinct cs \<Longrightarrow>
      (\<forall>n \<in> set os. fs_get (files w0) (Or @ q @ [n]) \<noteq> None \<and> n \<noteq> ''.git'') \<Longrightarrow>
      (\<forall>n \<in> set cs. fs_get (files w0) (C @ q @ [n]) \<noteq> None \<and> n \<noteq> ''.git'') \<Longrightarrow>
      (\<forall>d \<in> D. changed (files w0) Or C d \<and> (\<forall>n \<in> set os \<inter> set cs. \<not> prefix (q @ [n]) d)) \<Longrightarrow>
      \<exists>w'. molting_loop sh' opath cpath mpath ost cst os cs w = Inr w' \<and>
        molt_inv w0 M T (D \<union> {r. changed (files w0) Or C r \<and> (\<exists>n \<in> set os \<inter> set cs. prefix (q @ [n]) r)}) w'"
proof (induction sh' opath cpath mpath w and sh' opath cpath mpath ost cst os cs w arbitrary: q D and q D
    rule: molting_dir_molting_loop.induct)
  case (1 sh' opath cpath mpath w)
  note pre = "1.prems"(2) and inv = "1.prems"(3) and vis = "1.prems"(7)
  have wf: "fs_wf (files w)" using inv by (simp add: molt_inv_def)
  note side = molt_inv_side [OF pre inv]
  have res: "resolve w opath = Some (Or @ q)" "resolve w cpath = Some (C @ q)"
    using molt_resolve(1,2) [OF pre inv vis] "1.prems"(4,5,8,9) by simp_all
  have dirs: "fs_get (files w) (Or @ q) = Some Directory" "fs_get (files w) (C @ q) = Some Directory"
    using side "1.prems"(8,9) by auto
  obtain os where os: "scandir molt_filter w opath = Some os" "distinct os" "sorted os"
    "\<And>n. n \<in> set os \<longleftrightarrow> fs_get (files w) ((Or @ q) @ [n]) \<noteq> None \<and> n \<noteq> ''.git''"
    by (rule scandir_listing [OF molt_filter_ok wf res(1) dirs(1)]) blast
  obtain cs where cs: "scandir molt_filter w cpath = Some cs" "distinct cs" "sorted cs"
    "\<And>n. n \<in> set cs \<longleftrightarrow> fs_get (files w) ((C @ q) @ [n]) \<noteq> None \<and> n \<noteq> ''.git''"
    by (rule scandir_listing [OF molt_filter_ok wf res(2) dirs(2)]) blast
  have mem: "\<forall>n \<in> set os. fs_get (files w0) (Or @ q @ [n]) \<noteq> None \<and> n \<noteq> ''.git''"
    "\<forall>n \<in> set cs. fs_get (files w0) (C @ q @ [n]) \<noteq> None \<and> n \<noteq> ''.git''"
    using os(4) cs(4) side by auto
  have "\<forall>d \<in> D. changed (files w0) Or C d \<and> (\<forall>n \<in> set os \<inter> set cs. \<not> prefix (q @ [n]) d)"
    using "1.prems"(10) by (metis append_prefixD prefix_order.dual_order.refl prefix_snocD strict_prefix_def)
  from "1.IH" [OF os(1) cs(1) "1.prems"(1) pre inv "1.prems"(4-7) os(3,2) cs(3,2) mem this]
  obtain w' where w': "molting_loop sh' opath cpath mpath None None os cs w = Inr w'"
    "molt_inv w0 M T (D \<union> {r. changed (files w0) Or C r \<and> (\<exists>n \<in> set os \<inter> set cs. prefix (q @ [n]) r)}) w'"
    by blast
  have "changed (files w0) Or C r \<and> (\<exists>n \<in> set os \<inter> set cs. prefix (q @ [n]) r)
      \<longleftrightarrow> changed (files w0) Or C r \<and> strict_prefix q r" for r
  proof -
    have wf0: "fs_wf (files w0)" using pre by (simp add: molt_pre_def molt_args_def)
    have "\<exists>n \<in> set os \<inter> set cs. prefix (q @ [n]) r" if "changed (files w0) Or C r" "strict_prefix q r"
    proof -
      obtain n t where t: "r = q @ n # t" using \<open>strict_prefix q r\<close> by (metis strict_prefixE')
      then have "n \<in> set os \<inter> set cs"
        using changed_child(1-3) [OF wf0, of Or C q n t] that(1) os(4) cs(4) side by simp
      then show ?thesis using t by auto
    qed
    then show ?thesis by (auto simp: strict_prefix_def prefix_def)
  qed
  with w' show ?case by (simp add: molting_dir.simps os(1) cs(1))
next
  case (2 sh' opath cpath mpath ost cst on os cn cs w)
  note pre = "2.prems"(2) and inv = "2.prems"(3) and vis = "2.prems"(7)
  obtain x where x: "fs_get (files w0) (Or @ q @ [on]) = Some x" and on: "on \<noteq> ''.git''" using "2.prems"(12) by auto
  obtain y where y: "fs_get (files w0) (C @ q @ [cn]) = Some y" and cn: "cn \<noteq> ''.git''" using "2.prems"(13) by auto
  note head = molt_loop_head [OF pre inv vis "2.prems"(4-6) x on y cn]
  note bufs = head(1-3) and i = head(4,5) and cstr = head(6,7)
  consider (eq) "on = cn" | (lt) "on < cn" | (gt) "cn < on" by force
  then show ?case
  proof cases
    case eq
    then have zero: "strcmp on cn = 0" by simp
    have so: "sorted os" "distinct os" "sorted cs" "distinct cs" using "2.prems"(8-11) by simp_all
    have mem: "\<forall>n \<in> set os. fs_get (files w0) (Or @ q @ [n]) \<noteq> None \<and> n \<noteq> ''.git''"
      "\<forall>n \<in> set cs. fs_get (files w0) (C @ q @ [n]) \<noteq> None \<and> n \<noteq> ''.git''" using "2.prems"(12,13) by simp_all
    show ?thesis unfolding "2.prems"(1) eq [symmetric]
    proof (rule molting_loop_eq [OF pre inv vis "2.prems"(4-6) x on y [folded eq] "2.prems"(9) "2.prems"(11,14) [folded eq]])
      assume xy: "x = Directory" "y = Directory" and D: "\<forall>d \<in> D. changed (files w0) Or C d \<and> \<not> strict_prefix (q @ [on]) d"
      have "visible (q @ [on])" using vis on by (simp add: visible_def)
      then show "\<exists>w'. molting_dir sh (op @ join_path (q @ [on])) (cp @ join_path (q @ [on])) (mp @ join_path (q @ [on])) w = Inr w' \<and>
          molt_inv w0 M T (D \<union> {t. changed (files w0) Or C t \<and> strict_prefix (q @ [on]) t}) w'"
        using "2.IH"(1) [OF bufs(1,2) refl refl refl zero bufs(3) i _ "2.prems"(1) pre inv, of "q @ [on]"]
          xy D x y eq "2.prems"(1) by simp
    next
      fix N w1 assume f1: "(if x = Directory \<and> y = Directory
        then molting_dir sh (op @ join_path (q @ [on])) (cp @ join_path (q @ [on])) (mp @ join_path (q @ [on])) w
       else if x \<noteq> Directory \<and> y \<noteq> Directory
       then molting_file sh (op @ join_path (q @ [on])) (cp @ join_path (q @ [on])) (mp @ join_path (q @ [on])) w else Inr w) = Inr w1"
        and N: "molt_inv w0 M T N w1" "\<forall>d \<in> N. changed (files w0) Or C d \<and> (\<forall>n \<in> set os \<inter> set cs. \<not> prefix (q @ [n]) d)"
      show "\<exists>w'. molting_loop sh opath cpath mpath (stat_buf w (op @ join_path (q @ [on])) ost)
        (stat_buf w (cp @ join_path (q @ [on])) cst) os cs w1 = Inr w' \<and>
        molt_inv w0 M T (N \<union> {r. changed (files w0) Or C r \<and> (\<exists>n \<in> set os \<inter> set cs. prefix (q @ [n]) r)}) w'"
        using "2.IH"(2) [OF bufs(1,2) refl refl refl zero bufs(3) i _ "2.prems"(1) pre N(1) "2.prems"(4-7) so mem N(2)]
          f1 unfolding "2.prems"(1) eq [symmetric] by blast
    qed
  next
    case lt
    then have neg: "strcmp on cn \<noteq> 0" "strcmp on cn < 0" using cstr by auto
    have "on \<notin> set (cn # cs)" using lt "2.prems"(10) by auto
    then have I: "set (on # os) \<inter> set (cn # cs) = set os \<inter> set (cn # cs)" by auto
    have so: "sorted os" "distinct os" using "2.prems"(8,9) by simp_all
    have mem: "\<forall>n \<in> set os. fs_get (files w0) (Or @ q @ [n]) \<noteq> None \<and> n \<noteq> ''.git''" using "2.prems"(12) by simp
    have step: "molting_loop sh' opath cpath mpath ost cst (on # os) (cn # cs) w =
        molting_loop sh' opath cpath mpath (stat_buf w (op @ join_path (q @ [on])) ost)
        (stat_buf w (cp @ join_path (q @ [cn])) cst) os (cn # cs) w"
      by (simp only: molting_loop.simps bufs run_bind_Inr Let_def neg if_True if_False)
    show ?thesis unfolding I step
      using "2.prems"(14) unfolding I
      by (rule "2.IH"(3) [OF bufs(1,2) refl refl refl neg "2.prems"(1) pre inv "2.prems"(4-7) so "2.prems"(10,11) mem "2.prems"(13)])
  next
    case gt
    then have pos: "strcmp on cn \<noteq> 0" "\<not> strcmp on cn < 0" using cstr by auto
    have "cn \<notin> set (on # os)" using gt "2.prems"(8) by auto
    then have I: "set (on # os) \<inter> set (cn # cs) = set (on # os) \<inter> set cs" by auto
    have so: "sorted cs" "distinct cs" using "2.prems"(10,11) by simp_all
    have mem: "\<forall>n \<in> set cs. fs_get (files w0) (C @ q @ [n]) \<noteq> None \<and> n \<noteq> ''.git''" using "2.prems"(13) by simp
    have step: "molting_loop sh' opath cpath mpath ost cst (on # os) (cn # cs) w =
        molting_loop sh' opath cpath mpath (stat_buf w (op @ join_path (q @ [on])) ost)
        (stat_buf w (cp @ join_path (q @ [cn])) cst) (on # os) cs w"
      by (simp only: molting_loop.simps bufs run_bind_Inr Let_def pos if_False)
    show ?thesis unfolding I step
      using "2.prems"(14) unfolding I
      by (rule "2.IH"(4) [OF bufs(1,2) refl refl refl pos "2.prems"(1) pre inv "2.prems"(4-7) "2.prems"(8,9) so "2.prems"(12) mem])
  qed
qed auto

end


section \<open>A shell that satisfies the contract\<close>

fun mkdirs :: "fs \<Rightarrow> string list \<Rightarrow> string list \<Rightarrow> fs" where
  "mkdirs f cur [] = f"
| "mkdirs f cur (c # cs) =
     (if fs_get f cur \<noteq> Some Directory then f
      else if c = [] \<or> c = ''.'' then mkdirs f cur cs
      else if c = ''..'' then mkdirs f (butlast cur) cs
      else if fs_get f (cur @ [c]) \<noteq> None then mkdirs f (cur @ [c]) cs
      else if valid_name c then mkdirs (fs_put (cur @ [c]) Directory f) (cur @ [c]) cs else f)"

definition coreutils :: "string \<Rightarrow> world \<Rightarrow> fs" where
  "coreutils cmd w =
     (if prefix ''mkdir -p $(dirname '' cmd then
        (let t = butlast (drop 19 cmd) in mkdirs (files w) (start_dir w t) (butlast (split_on SLASH t)))
      else if prefix ''cp '' cmd then
        (case split_on (CHR '' '') (drop 3 cmd) of
           [s, t] \<Rightarrow> (case (stat_node w s, resolve_new w t) of
               (Some (Reg txt), Some c) \<Rightarrow>
                  if fs_get (files w) c = Some Directory then files w else fs_put c (Reg txt) (files w)
             | _ \<Rightarrow> files w)
         | _ \<Rightarrow> files w)
      else files w)"

lemma mkdirs_existing: "namei f cur xs = Some c \<Longrightarrow> mkdirs f cur (xs @ ys) = mkdirs f c ys"
  by (induction f cur xs rule: namei.induct) (auto split: if_splits)

lemma mkdirs_new:
  assumes "fs_wf f" "fs_get f M = Some Directory" "\<forall>n \<in> set r. valid_name n"
    and "\<forall>q. prefix q r \<longrightarrow> fs_get f (M @ q) \<in> {None, Some Directory}"
  shows "fs_wf (mkdirs f M r) \<and> (\<forall>p. fs_get (mkdirs f M r) p =
    (if prefix M p \<and> prefix p (M @ r) then Some Directory else fs_get f p))"
  using assms
proof (induction r arbitrary: f M)
  case Nil
  then show ?case by (auto dest: prefix_order.antisym)
next
  case (Cons n r)
  define g where "g = (if fs_get f (M @ [n]) \<noteq> None then f else fs_put (M @ [n]) Directory f)"
  have n: "valid_name n" using Cons.prems(3) by simp
  have q1: "fs_get f (M @ [n]) \<in> {None, Some Directory}" using Cons.prems(4) by simp
  have get: "fs_get g p = (if p = M @ [n] then Some Directory else fs_get f p)" for p using q1 by (auto simp: g_def)
  have step: "mkdirs f M (n # r) = mkdirs g (M @ [n]) r"
    using Cons.prems(2) n by (auto simp: valid_name_def g_def)
  have wf: "fs_wf g" using Cons.prems(1,2) n q1 by (auto intro: fs_wf_put simp: g_def)
  have "fs_get g ((M @ [n]) @ q) \<in> {None, Some Directory}" if "prefix q r" for q
    using Cons.prems(4) that get [of "(M @ [n]) @ q"] by (cases q) (auto dest!: spec [of _ "n # q"])
  note pq = this
  have "fs_get g (M @ [n]) = Some Directory" "\<forall>n \<in> set r. valid_name n" using get Cons.prems(3) by simp_all
  then have IH: "fs_wf (mkdirs g (M @ [n]) r) \<and> (\<forall>p. fs_get (mkdirs g (M @ [n]) r) p =
    (if prefix (M @ [n]) p \<and> prefix p ((M @ [n]) @ r) then Some Directory else fs_get g p))"
    using Cons.IH [OF wf] pq by blast
  have "prefix M p \<and> prefix p (M @ n # r) \<longleftrightarrow> p = M \<or> prefix (M @ [n]) p \<and> prefix p (M @ n # r)" for p
    by (auto simp: prefix_def append_eq_append_conv2 Cons_eq_append_conv)
  then show ?case using IH Cons.prems(2) unfolding step get by auto
qed

lemma split_join:
  "\<forall>n \<in> set r. valid_name n \<Longrightarrow> split_on SLASH (m @ join_path r) = split_on SLASH m @ r"
proof (induction r rule: rev_induct)
  case (snoc n r)
  then show ?case using split_on_snoc [of SLASH n "m @ join_path r"] by (simp add: valid_name_def)
qed simp

lemma shell_word_no_space: "shell_word s \<Longrightarrow> CHR '' '' \<notin> set s"
  by (auto simp: shell_word_def list_all_iff)

lemma coreutils_mkdir:
  assumes a: "fs_wf (files w)" "resolve w m = Some M" "fs_get (files w) M = Some Directory"
    "r \<noteq> []" "\<forall>n \<in> set r. valid_name n"
    "\<forall>q. prefix q (butlast r) \<longrightarrow> fs_get (files w) (M @ q) \<in> {None, Some Directory}"
  shows "fs_wf (coreutils (mkdir_cmd (m @ join_path r)) w) \<and>
    (\<forall>p. fs_get (coreutils (mkdir_cmd (m @ join_path r)) w) p =
      (if prefix M p \<and> prefix p (M @ butlast r) then Some Directory else fs_get (files w) p))"
proof -
  let ?t = "m @ join_path r"
  have ne: "m \<noteq> []" using a(2) by (rule resolve_nonempty)
  have nm: "namei (files w) (start_dir w m) (split_on SLASH m) = Some M"
    using a(2) by (auto simp: resolve_def split: if_splits)
  have "butlast (split_on SLASH ?t) = split_on SLASH m @ butlast r"
    using split_join [OF a(5)] a(4) by (simp add: butlast_append)
  moreover have "butlast (drop 19 (mkdir_cmd ?t)) = ?t" by (simp add: mkdir_cmd_def butlast_append)
  moreover have "prefix ''mkdir -p $(dirname '' (mkdir_cmd ?t)" by (simp add: mkdir_cmd_def)
  ultimately have eq: "coreutils (mkdir_cmd ?t) w = mkdirs (files w) M (butlast r)"
    using mkdirs_existing [OF nm] ne by (simp add: coreutils_def Let_def)
  have "\<forall>n \<in> set (butlast r). valid_name n" using a(5) by (meson in_set_butlastD)
  then show ?thesis unfolding eq by (rule mkdirs_new [OF a(1,3) _ a(6)])
qed

lemma coreutils_cp:
  assumes a: "fs_wf (files w)" "shell_word s" "shell_word t" "stat_node w s = Some (Reg txt)"
    "resolve_new w t = Some c" "fs_get (files w) c \<noteq> Some Directory"
  shows "fs_wf (coreutils (cp_cmd s t) w) \<and> (\<forall>p. fs_get (coreutils (cp_cmd s t) w) p =
      (if p = c then Some (Reg txt) else fs_get (files w) p))"
proof -
  have "split_on (CHR '' '') (s @ CHR '' '' # t) = [s, t]"
    using shell_word_no_space a(2,3) by (simp add: split_on_append split_on_notin)
  then have eq: "coreutils (cp_cmd s t) w = fs_put c (Reg txt) (files w)"
    using a by (simp add: coreutils_def cp_cmd_def)
  obtain d n where c: "c = d @ [n]" "fs_get (files w) d = Some Directory" "valid_name n"
    using a(5) by (auto simp: resolve_new_def split: if_splits option.splits)
  then show ?thesis
    using a(1,6) fs_wf_put [OF a(1) c(2,3), of "Reg txt"] by (simp add: eq)
qed

interpretation coreutils: shell_copy coreutils
  by unfold_locales (rule coreutils_mkdir coreutils_cp; assumption)+

section \<open>The whole tool\<close>

lemma molt_args_mkdir:
  assumes a: "molt_args w op Or cp C mp M T" and M: "M \<noteq> []" "fs_get (files w) M = None"
    and wf: "fs_wf (fs_put M Directory (files w))"
  shows "molt_args (w\<lparr>files := fs_put M Directory (files w)\<rparr>) op Or cp C mp M T" (is "molt_args ?w _ _ _ _ _ _ _")
proof -
  have mono: "fs_mono (files w) (files ?w)" using M by (simp add: fs_mono_put)
  have par: "Or \<parallel> M" "C \<parallel> M" using a by (auto simp: molt_args_def)
  have Or: "fs_get (files ?w) (Or @ r) = fs_get (files w) (Or @ r)" for r
    using parallel_below [OF par(1), of "[]" r] M by auto
  have C: "fs_get (files ?w) (C @ r) = fs_get (files w) (C @ r)" for r
    using parallel_below [OF par(2), of "[]" r] M by auto
  have ch: "changed (files ?w) Or C r = changed (files w) Or C r" for r
    by (simp only: changed_def Or C)
  have res: "resolve w p = Some c \<Longrightarrow> resolve ?w p = Some c" for p c
    by (rule resolve_mono [OF mono]) simp_all
  have get: "\<not> prefix M c \<Longrightarrow> fs_get (files ?w) c = fs_get (files w) c" for c using M by auto
  have "fs_get (files ?w) Or = fs_get (files w) Or" "fs_get (files ?w) C = fs_get (files w) C"
    using Or [of "[]"] C [of "[]"] by simp_all
  moreover have "\<exists>c. resolve ?w p = Some c \<and> \<not> prefix M c \<and> fs_get (files ?w) c = n"
    if "\<exists>c. resolve w p = Some c \<and> \<not> prefix M c \<and> fs_get (files w) c = n" for p n
    using that res get by metis
  ultimately show ?thesis using a wf res unfolding molt_args_def ch Or C by simp
qed

lemma molt_body_reaches:
  assumes abs: "hd a1 = SLASH" "hd a2 = SLASH" and a2: "a2 = base @ ''__skin''"
    and dirs: "resolve w a1 = Some Or" "fs_get (files w) Or = Some Directory"
      "resolve w a2 = Some C" "fs_get (files w) C = Some Directory"
    and mp: "mp = base @ MOLT_SUFFIX" "resolve w mp = None"
  shows "molt_body sh [a1, a2] w = molting_dir sh a1 a2 mp (mkdir mp w)"
proof -
  have ne: "a1 \<noteq> []" "a2 \<noteq> []" using dirs resolve_nonempty by auto
  have st: "stat_buf w a1 None = Some True" "stat_buf w a2 None = Some True"
    using dirs by (simp_all add: stat_buf_def stat_node_def)
  have len: "length a1 < BUFMAX" "length a2 < BUFMAX" using dirs resolve_length by blast+
  then have paths: "abs_path w a1 = Inr a1" "abs_path w a2 = Inr a2"
    using ne abs by (simp_all add: abs_path_def sprintf_buf_def)
  have "strrchr ((base @ ''_'') @ CHR ''_'' # ''skin'') (CHR ''_'') = Some (length (base @ ''_''))"
    by (rule strrchr_append) simp
  then have chr: "strrchr a2 (CHR ''_'') = Some (Suc (length base))" using a2 by simp
  have buf: "sprintf_buf BUFMAX mp = Inr mp" using len a2 mp(1) by (simp add: sprintf_buf_def MOLT_SUFFIX_def)
  have tk: "take (Suc (length base) - 1) a2 @ MOLT_SUFFIX = mp" using a2 mp(1) by simp
  show ?thesis
    using dirs mp(2) buf tk
    by (simp add: molt_body_def access_ok_def st init_read_def paths Let_def chr)
qed

lemma molt_run:
  assumes sh: "shell_copy sh" and abs: "hd a1 = SLASH" "hd a2 = SLASH"
    and names: "a2 = base @ ''__skin''" "mp = base @ MOLT_SUFFIX" "mp = pd @ SLASH # n" "valid_name n"
    and args: "molt_args w a1 Or a2 C mp M T"
    and M: "M = P @ [n]" "resolve w pd = Some P" "fs_get (files w) P = Some Directory" "fs_get (files w) M = None"
  shows "\<exists>w'. molt_main sh [a1, a2] w = Exit 0 w' \<and>
     (\<forall>r. fs_get (files w') (M @ r) = molt_tree T {r. changed (files w) Or C r} r) \<and>
     (\<forall>p. \<not> prefix M p \<longrightarrow> fs_get (files w') p = fs_get (files w) p)"
proof -
  have dirs: "resolve w a1 = Some Or" "fs_get (files w) Or = Some Directory"
      "resolve w a2 = Some C" "fs_get (files w) C = Some Directory" and wf: "fs_wf (files w)"
    using args by (auto simp: molt_args_def)
  have "length mp = length a2" using names by (simp add: MOLT_SUFFIX_def)
  then have len: "length pd + 1 + length n < PATH_MAX" using resolve_length [OF dirs(3)] names(3) by simp
  have none: "resolve w mp = None" using resolve_child [OF M(2,3) names(4) len] M(1,4) names(3) by simp
  let ?w = "w\<lparr>files := fs_put M Directory (files w)\<rparr>"
  have mk: "mkdir mp w = ?w" using mkdir_child [OF M(2,3) names(4) len] M(1,4) names(3) by simp
  have MnE: "M \<noteq> []" using M(1) by simp
  have wf1: "fs_wf (fs_put M Directory (files w))" using fs_wf_put [OF wf M(3) names(4)] M(1) by simp
  have mono: "fs_mono (files w) (files ?w)" using M(4) MnE by (simp add: fs_mono_put)
  have "resolve ?w pd = Some P" "fs_get (files ?w) P = Some Directory"
    using resolve_mono [OF mono _ M(2)] mono M(3) by (auto simp: fs_mono_def)
  then have "resolve ?w mp = Some M" using resolve_child [of ?w pd P n] names(3,4) len M(1) by simp
  moreover have tree0: "fs_get (files ?w) (M @ r) = molt_tree T {} r" for r
    using fstore.none_below_None [OF wf M(4), of r] MnE by (simp add: molt_tree_def)
  ultimately have pre: "molt_pre ?w a1 Or a2 C mp M T"
    using molt_args_mkdir [OF args MnE M(4) wf1] unfolding molt_pre_def by blast
  then have inv: "molt_inv ?w M T {} ?w" using tree0 wf1 by (simp add: molt_inv_def)
  have ch: "changed (files ?w) Or C r = changed (files w) Or C r" for r
  proof -
    have "Or @ r \<noteq> M" "C @ r \<noteq> M" using args parallel_below [of Or M "[]" r] parallel_below [of C M "[]" r]
      by (auto simp: molt_args_def)
    then show ?thesis using MnE by (simp add: changed_def)
  qed
  have D: "fs_get (files ?w) (Or @ []) = Some Directory" "fs_get (files ?w) (C @ []) = Some Directory"
    using mono dirs by (auto simp: fs_mono_def)
  obtain w' where w': "molting_dir sh a1 a2 mp ?w = Inr w'"
     "molt_inv ?w M T {r. changed (files w) Or C r \<and> strict_prefix [] r} w'"
    using shell_copy.molting_correct(1) [OF sh refl pre inv, of a1 "[]" a2 mp] D
    unfolding ch by (auto simp: visible_def)
  have "{r. changed (files w) Or C r \<and> strict_prefix [] r} = {r. changed (files w) Or C r}"
    using dirs by (auto simp: changed_def strict_prefix_def)
  with w'(2) have "molt_inv ?w M T {r. changed (files w) Or C r} w'" by simp
  moreover have "molt_main sh [a1, a2] w = Exit 0 w'"
    using molt_body_reaches [OF abs names(1) dirs names(2) none, of sh] mk w'(1) by (simp add: molt_main_def)
  ultimately show ?thesis using MnE by (auto simp: molt_inv_def)
qed

end
