(* ===== verification/Pipeline.thy ===== *)
theory Pipeline
  imports Md5 Molt
begin

text \<open>
  The tools composed the way the web front end runs them: \<open>skin\<close> on the original tree, \<open>skin\<close> on
  the changed tree, then \<open>molt\<close> on the two skins. The composition copies exactly the files whose
  digests differ.
\<close>


section \<open>The skin tool\<close>

definition skin_args :: "world \<Rightarrow> string \<Rightarrow> string list \<Rightarrow> string \<Rightarrow> string list \<Rightarrow> string \<Rightarrow> bool" where
  "skin_args w a F d P b \<longleftrightarrow> fs_wf (files w) \<and> tree_at w a F \<and> tree_at w d P \<and> (\<exists>x. a = x @ SLASH # b) \<and>
     valid_name (b @ SKIN_SUFFIX) \<and> \<not> sublist a d \<and> \<not> prefix F P \<and> fs_get (files w) (P @ [b @ SKIN_SUFFIX]) = None \<and>
     skin_fits (files w) F a (d @ SLASH # b @ SKIN_SUFFIX) \<and> length d + length b + 7 < BUFMAX"

text \<open>C3: for any MD5 implementation that keeps its contract, \<open>skin a d\<close> on well-formed arguments exits with 0 and leaves under \<open>d\<close> a mirror of the tree at \<open>a\<close>: every directory outside \<open>.git\<close> is a directory, every file is the record of the digest in hexadecimal and the path, there is nothing else, and no other object of the file system changes.\<close>
theorem skin_main_correct:
  assumes "md5_contract A digest" "skin_args w a F d P b"
  shows "\<exists>w'. skin_main A prog [a, d] w = Exit 0 w' \<and> fs_wf (files w') \<and>
    fs_get (files w') (P @ [b @ SKIN_SUFFIX]) = Some Directory \<and>
    (\<forall>r. r \<noteq> [] \<longrightarrow> fs_get (files w') (P @ (b @ SKIN_SUFFIX) # r) =
       (if visible r then
          (case fs_get (files w) (F @ r) of
             None \<Rightarrow> None
           | Some Directory \<Rightarrow> Some Directory
           | Some (Reg s) \<Rightarrow> Some (Reg (skin_rec (hex_string (digest s)) (a @ join_path r))))
        else None)) \<and>
    (\<forall>p. \<not> prefix (P @ [b @ SKIN_SUFFIX]) p \<longrightarrow> fs_get (files w') p = fs_get (files w) p)"
proof -
  have "SLASH \<notin> set b" using assms(2) by (simp add: skin_args_def valid_name_def)
  then obtain w' where w': "skin_main A prog [a, d] w = Exit 0 w'" "fs_wf (files w')"
     "fs_get (files w') (P @ [b @ SKIN_SUFFIX]) = Some Directory"
     "\<forall>r. r \<noteq> [] \<longrightarrow> fs_get (files w') (P @ (b @ SKIN_SUFFIX) # r) = skin_image A (files w) F a r"
     "\<forall>p. \<not> prefix (P @ [b @ SKIN_SUFFIX]) p \<longrightarrow> fs_get (files w') p = fs_get (files w) p"
    using skin_main_tree [of w a F d P _ b A prog] assms(2) unfolding skin_args_def by blast
  have "skin_image A (files w) F a r =
       (if visible r then
          (case fs_get (files w) (F @ r) of
             None \<Rightarrow> None
           | Some Directory \<Rightarrow> Some Directory
           | Some (Reg s) \<Rightarrow> Some (Reg (skin_rec (hex_string (digest s)) (a @ join_path r))))
        else None)" for r
    by (simp add: skin_image_def md5_contract.skin_text_rec [OF assms(1)] split: option.splits fnode.splits)
  with w' show ?thesis by simp
qed

definition kernel_trees :: fs where
  "kernel_trees =
    [([''k1''], Directory), ([''k1'', ''f''], Reg ''x''), ([''k1'', ''d''], Directory),
     ([''k2''], Directory), ([''k2'', ''f''], Reg ''y''), ([''s''], Directory)]"

lemma kernel_trees_skin_args: "skin_args (boot_world kernel_trees) ''/k1'' [''k1''] ''/s'' [''s''] ''k1''"
proof -
  have "skin_fits kernel_trees [''k1''] ''/k1'' (''/s'' @ SLASH # ''k1'' @ SKIN_SUFFIX)"
    unfolding skin_fits_def
  proof (intro allI impI)
    fix r assume "fs_get kernel_trees ([''k1''] @ r) \<noteq> None"
    then show "length ''/k1'' + length (join_path r) + HASHLEN < BUFMAX \<and>
        length (''/s'' @ SLASH # ''k1'' @ SKIN_SUFFIX) + length (join_path r) < BUFMAX"
      by (rule all_below_check [rotated 2]) (simp_all add: kernel_trees_def SKIN_SUFFIX_def)
  qed
  moreover have "\<exists>x. ''/k1'' = x @ SLASH # ''k1''" by (rule exI [of _ "[]"]) (simp add: SLASH_def)
  moreover have "fs_wf (files (boot_world kernel_trees))" by (simp add: world_eval kernel_trees_def)
  moreover have "tree_at (boot_world kernel_trees) ''/k1'' [''k1'']" "tree_at (boot_world kernel_trees) ''/s'' [''s'']"
    by (simp_all add: tree_at_def world_eval kernel_trees_def)
  moreover have "valid_name (''k1'' @ SKIN_SUFFIX)" "fs_get (files (boot_world kernel_trees)) ([''s''] @ [''k1'' @ SKIN_SUFFIX]) = None"
    by (simp_all add: world_eval kernel_trees_def SKIN_SUFFIX_def)
  moreover have "\<not> sublist ''/k1'' ''/s''" "\<not> prefix [''k1''] [''s'']" by (simp_all add: sublist_Cons_right)
  ultimately show ?thesis unfolding skin_args_def by (simp add: boot_world_def)
qed

theorem skin_main_correct_witness:
  "\<exists>w'. skin_main (kernel_md5 rfc1321_H) ''skin'' [''/k1'', ''/s''] (boot_world kernel_trees) = Exit 0 w' \<and>
    fs_get (files w') [''s'', ''k1__skin'', ''f''] = Some (Reg (skin_rec (hex_string (kernel_digest rfc1321_H ''x'')) ''/k1/f'')) \<and>
    fs_get (files w') [''s'', ''k1__skin'', ''d''] = Some Directory"
proof -
  obtain w' where "skin_main (kernel_md5 rfc1321_H) ''skin'' [''/k1'', ''/s''] (boot_world kernel_trees) = Exit 0 w'"
    and r: "\<forall>r. r \<noteq> [] \<longrightarrow> fs_get (files w') ([''s''] @ (''k1'' @ SKIN_SUFFIX) # r) =
       (if visible r then
          (case fs_get (files (boot_world kernel_trees)) ([''k1''] @ r) of
             None \<Rightarrow> None
           | Some Directory \<Rightarrow> Some Directory
           | Some (Reg s) \<Rightarrow> Some (Reg (skin_rec (hex_string (kernel_digest rfc1321_H s)) (''/k1'' @ join_path r))))
        else None)"
    using skin_main_correct [OF kmd5.md5_contract_axioms [of rfc1321_H] kernel_trees_skin_args, of "''skin''"] by blast
  then show ?thesis using r [rule_format, of "[''f'']"] r [rule_format, of "[''d'']"]
    by (simp add: world_eval kernel_trees_def SKIN_SUFFIX_def)
qed

section \<open>The molt tool\<close>

text \<open>C4: for any shell that keeps the contract of \<open>mkdir -p\<close> and \<open>cp\<close>, \<open>molt\<close> on two skins exits with 0 and fills the fresh molt directory with a copy of exactly the files whose recorded digests differ, plus the directories leading to them; nothing outside the molt changes.\<close>
theorem molt_main_correct:
  assumes "shell_copy sh" "hd a1 = SLASH" "hd a2 = SLASH"
    and "a2 = base @ ''__skin''" "mp = base @ MOLT_SUFFIX" "mp = pd @ SLASH # n" "valid_name n"
    and "molt_args w a1 Or a2 C mp M T"
    and "M = P @ [n]" "resolve w pd = Some P" "fs_get (files w) P = Some Directory" "fs_get (files w) M = None"
  shows "\<exists>w'. molt_main sh [a1, a2] w = Exit 0 w' \<and>
     (\<forall>r. changed (files w) Or C r \<longrightarrow> fs_get (files w') (M @ r) = Some (Reg (T r))) \<and>
     (\<forall>r. fs_get (files w') (M @ r) \<noteq> None \<longrightarrow> r = [] \<or> (\<exists>r'. changed (files w) Or C r' \<and> prefix r r')) \<and>
     (\<forall>p. \<not> prefix M p \<longrightarrow> fs_get (files w') p = fs_get (files w) p)"
proof -
  obtain w' where w': "molt_main sh [a1, a2] w = Exit 0 w'"
     "\<forall>r. fs_get (files w') (M @ r) = molt_tree T {r. changed (files w) Or C r} r"
     "\<forall>p. \<not> prefix M p \<longrightarrow> fs_get (files w') p = fs_get (files w) p"
    using molt_run [OF assms] by blast
  have "changed (files w) Or C r \<Longrightarrow> r \<noteq> []" for r
    using assms(8) by (auto simp: changed_def molt_args_def)
  then show ?thesis using w' by (auto simp: molt_tree_def split: if_splits)
qed

definition skin_pair :: fs where
  "skin_pair =
    [([''p''], Directory), ([''p'', ''a__skin''], Directory), ([''p'', ''a__skin'', ''f''], Reg (skin_rec (replicate 32 (CHR ''1'')) ''/a/f'')),
     ([''p'', ''a__skin'', ''g''], Reg (skin_rec (replicate 32 (CHR ''3'')) ''/a/g'')),
     ([''p'', ''b__skin''], Directory), ([''p'', ''b__skin'', ''f''], Reg (skin_rec (replicate 32 (CHR ''2'')) ''/b/f'')),
     ([''p'', ''b__skin'', ''g''], Reg (skin_rec (replicate 32 (CHR ''3'')) ''/b/g'')),
     ([''b''], Directory), ([''b'', ''f''], Reg ''new''), ([''b'', ''g''], Reg ''old'')]"

lemma skin_pair_wf: "fs_wf skin_pair"
  by (simp add: world_eval skin_pair_def)

lemma skin_pair_dir:
  "\<lbrakk>fs_get skin_pair ([''p'', ''a__skin''] @ r) \<noteq> None\<rbrakk> \<Longrightarrow> r \<in> {[], [''f''], [''g'']}"
  "\<lbrakk>fs_get skin_pair ([''p'', ''b__skin''] @ r) \<noteq> None\<rbrakk> \<Longrightarrow> r \<in> {[], [''f''], [''g'']}"
  by (erule all_below_check [rotated 2]; simp add: skin_pair_def)+

lemma skin_pair_get:
  "fs_get skin_pair [''p'', ''a__skin'', ''f''] = Some (Reg (skin_rec (replicate 32 (CHR ''1'')) ''/a/f''))"
  "fs_get skin_pair [''p'', ''a__skin'', ''g''] = Some (Reg (skin_rec (replicate 32 (CHR ''3'')) ''/a/g''))"
  "fs_get skin_pair [''p'', ''b__skin'', ''f''] = Some (Reg (skin_rec (replicate 32 (CHR ''2'')) ''/b/f''))"
  "fs_get skin_pair [''p'', ''b__skin'', ''g''] = Some (Reg (skin_rec (replicate 32 (CHR ''3'')) ''/b/g''))"
  "fs_get skin_pair [''p'', ''a__skin''] = Some Directory" "fs_get skin_pair [''p'', ''b__skin''] = Some Directory"
  "fs_get skin_pair [''b'', ''f''] = Some (Reg ''new'')" "fs_get skin_pair [''b'', ''g''] = Some (Reg ''old'')"
  by (simp_all add: skin_pair_def fs_get_def)

lemma skin_pair_changed: "changed skin_pair [''p'', ''a__skin''] [''p'', ''b__skin''] r \<longleftrightarrow> r = [''f'']"
proof -
  have "r \<in> {[], [''f''], [''g'']}" if "changed skin_pair [''p'', ''a__skin''] [''p'', ''b__skin''] r"
    using that skin_pair_dir(1) [of r] by (auto simp: changed_def)
  moreover have "changed skin_pair [''p'', ''a__skin''] [''p'', ''b__skin''] [''f'']"
    "\<not> changed skin_pair [''p'', ''a__skin''] [''p'', ''b__skin''] [''g'']" "\<not> changed skin_pair [''p'', ''a__skin''] [''p'', ''b__skin''] []"
    by (simp_all add: changed_def visible_def skin_pair_get skin_hash_def skin_rec_def)
  ultimately show ?thesis by blast
qed

lemma skin_pair_args:
  "molt_args (boot_world skin_pair) ''/p/a__skin'' [''p'', ''a__skin''] ''/p/b__skin'' [''p'', ''b__skin'']
     ''/p/b__molt'' [''p'', ''b__molt''] (\<lambda>r. ''new'')"
proof -
  have w: "files (boot_world skin_pair) = skin_pair" by (simp add: boot_world_def)
  have res: "resolve (boot_world skin_pair) ''/p/a__skin'' = Some [''p'', ''a__skin'']"
    "resolve (boot_world skin_pair) ''/p/b__skin'' = Some [''p'', ''b__skin'']" "resolve (boot_world skin_pair) ''/b/f'' = Some [''b'', ''f'']"
    by (simp_all add: world_eval skin_pair_def)
  have wfs: "wf_skin s" if "fs_get skin_pair ([''p'', ''a__skin''] @ r) = Some (Reg s) \<or> fs_get skin_pair ([''p'', ''b__skin''] @ r) = Some (Reg s)" for r s
    using that skin_pair_dir [of r] by (auto simp: skin_pair_get cstring_def NUL_def intro!: wf_skinI)
  have len: "length ''/p/a__skin'' + length (join_path r) < BUFMAX \<and> length ''/p/b__skin'' + length (join_path r) < BUFMAX \<and>
      length ''/p/b__molt'' + length (join_path r) + 20 < BUFMAX"
    if "fs_get skin_pair ([''p'', ''a__skin''] @ r) \<noteq> None \<or> fs_get skin_pair ([''p'', ''b__skin''] @ r) \<noteq> None" for r
    using that skin_pair_dir [of r] by auto
  have sw: "shell_word ''/b/f''" "shell_word (''/p/b__molt'' @ join_path [''f''])" by (simp_all add: shell_word_def SLASH_def)
  have sp: "skin_path (skin_rec (replicate 32 (CHR ''2'')) ''/b/f'') = ''/b/f''" by (simp add: cstring_def NUL_def)
  have src: "\<forall>r s. r = [''f''] \<longrightarrow> fs_get skin_pair ([''p'', ''b__skin''] @ r) = Some (Reg s) \<longrightarrow>
        shell_word (skin_path s) \<and> shell_word (''/p/b__molt'' @ join_path r) \<and>
        length (skin_path s) + length ''/p/b__molt'' + length (join_path r) + 4 < BUFMAX \<and>
        (\<exists>c. resolve (boot_world skin_pair) (skin_path s) = Some c \<and> \<not> prefix [''p'', ''b__molt''] c \<and>
           fs_get skin_pair c = Some (Reg ''new''))"
    using sw sp res(3) by (auto simp: skin_pair_get)
  show ?thesis unfolding molt_args_def w skin_pair_changed
    by (intro conjI skin_pair_wf res(1,2) src; use wfs len in \<open>simp add: skin_pair_get parallel_def\<close>)
qed

theorem molt_main_correct_witness:
  "\<exists>w'. molt_main coreutils [''/p/a__skin'', ''/p/b__skin''] (boot_world skin_pair) = Exit 0 w' \<and>
    fs_get (files w') [''p'', ''b__molt'', ''f''] = Some (Reg ''new'') \<and> fs_get (files w') [''p'', ''b__molt'', ''g''] = None"
proof -
  have "\<exists>w'. molt_main coreutils [''/p/a__skin'', ''/p/b__skin''] (boot_world skin_pair) = Exit 0 w' \<and>
     (\<forall>r. changed (files (boot_world skin_pair)) [''p'', ''a__skin''] [''p'', ''b__skin''] r \<longrightarrow> fs_get (files w') ([''p'', ''b__molt''] @ r) = Some (Reg ''new'')) \<and>
     (\<forall>r. fs_get (files w') ([''p'', ''b__molt''] @ r) \<noteq> None \<longrightarrow> r = [] \<or>
        (\<exists>r'. changed (files (boot_world skin_pair)) [''p'', ''a__skin''] [''p'', ''b__skin''] r' \<and> prefix r r')) \<and>
     (\<forall>p. \<not> prefix [''p'', ''b__molt''] p \<longrightarrow> fs_get (files w') p = fs_get (files (boot_world skin_pair)) p)"
    by (rule molt_main_correct [OF coreutils.shell_copy_axioms, where base = "''/p/b''" and pd = "''/p''" and n = "''b__molt''" and P = "[''p'']"
        and mp = "''/p/b__molt''" and T = "\<lambda>r. ''new''"])
      (rule skin_pair_args | simp add: world_eval MOLT_SUFFIX_def skin_pair_def)+
  then show ?thesis unfolding boot_world_def by (auto simp: skin_pair_changed)
qed

section \<open>The composition\<close>

definition edited :: "(string \<Rightarrow> string) \<Rightarrow> fs \<Rightarrow> string list \<Rightarrow> string list \<Rightarrow> string list \<Rightarrow> bool" where
  "edited digest f FA FB r \<longleftrightarrow> visible r \<and>
     (\<exists>s1 s2. fs_get f (FA @ r) = Some (Reg s1) \<and> fs_get f (FB @ r) = Some (Reg s2) \<and> digest s1 \<noteq> digest s2)"

definition file_text :: "fs \<Rightarrow> string list \<Rightarrow> string" where
  "file_text f p = (case fs_get f p of Some (Reg s) \<Rightarrow> s | _ \<Rightarrow> [])"

definition pipeline_fits :: "fs \<Rightarrow> string \<Rightarrow> string list \<Rightarrow> string \<Rightarrow> string list \<Rightarrow> string \<Rightarrow> string \<Rightarrow> string \<Rightarrow> bool" where
  "pipeline_fits f a1 FA a2 FB d b1 b2 \<longleftrightarrow>
     (\<forall>r. visible r \<longrightarrow> fs_get f (FA @ r) \<noteq> None \<or> fs_get f (FB @ r) \<noteq> None \<longrightarrow>
        length a1 + length (join_path r) + HASHLEN < BUFMAX \<and>
        length d + length b1 + length (join_path r) + 7 < BUFMAX \<and>
        length a2 + length d + length b2 + 2 * length (join_path r) + HASHLEN + 7 < BUFMAX \<and>
        shell_word (a2 @ join_path r) \<and> shell_word (d @ SLASH # b2 @ MOLT_SUFFIX @ join_path r))"

lemma sibling: "x \<noteq> y \<Longrightarrow> P @ [x] \<parallel> P @ [y]"
  by (simp add: parallel_def)

lemma skin_image_None: "skin_image A f F a r \<noteq> None \<Longrightarrow> visible r \<and> fs_get f (F @ r) \<noteq> None"
  by (auto simp: skin_image_def split: if_splits)

lemma skin_image_Reg:
  "skin_image A f F a r = Some (Reg t) \<longleftrightarrow>
     visible r \<and> (\<exists>s. fs_get f (F @ r) = Some (Reg s) \<and> t = skin_text A s (a @ join_path r))"
proof -
  have "skin_node A p n = Reg t \<longleftrightarrow> (\<exists>s. n = Reg s \<and> t = skin_text A s p)" for p n by (cases n) auto
  then show ?thesis by (auto simp: skin_image_def)
qed

lemma cstring_join: "\<forall>n \<in> set r. valid_name n \<Longrightarrow> cstring (join_path r)"
  by (induction r) (auto simp: valid_name_cstring SLASH_def NUL_def)


text \<open>The state after both skins were taken.\<close>

definition skins_taken :: "'c md5_api \<Rightarrow> fs \<Rightarrow> string \<Rightarrow> string list \<Rightarrow> string \<Rightarrow> string list
    \<Rightarrow> string list \<Rightarrow> string list \<Rightarrow> fs \<Rightarrow> bool" where
  "skins_taken A f a1 FA a2 FB SA SB g \<longleftrightarrow> fs_wf g \<and> fs_mono f g \<and>
     fs_get g SA = Some Directory \<and> fs_get g SB = Some Directory \<and>
     (\<forall>r. r \<noteq> [] \<longrightarrow> fs_get g (SA @ r) = skin_image A f FA a1 r) \<and>
     (\<forall>r. r \<noteq> [] \<longrightarrow> fs_get g (SB @ r) = skin_image A f FB a2 r) \<and>
     (\<forall>p. \<not> prefix SA p \<longrightarrow> \<not> prefix SB p \<longrightarrow> fs_get g p = fs_get f p)"

lemma two_skins:
  assumes wf: "fs_wf (files w)" and t: "tree_at w a1 FA" "tree_at w a2 FB" "tree_at w d P"
    and base1: "a1 = x1 @ SLASH # b1" "SLASH \<notin> set b1" "valid_name (b1 @ SKIN_SUFFIX)"
    and base2: "a2 = x2 @ SLASH # b2" "SLASH \<notin> set b2" "valid_name (b2 @ SKIN_SUFFIX)"
    and ne: "b1 \<noteq> b2" and sub: "\<not> sublist a1 d" "\<not> sublist a2 d"
    and out: "\<not> prefix FA P" "\<not> prefix FB P"
    and fresh: "fs_get (files w) (P @ [b1 @ SKIN_SUFFIX]) = None" "fs_get (files w) (P @ [b2 @ SKIN_SUFFIX]) = None"
    and fits: "skin_fits (files w) FA a1 (d @ SLASH # b1 @ SKIN_SUFFIX)" "skin_fits (files w) FB a2 (d @ SLASH # b2 @ SKIN_SUFFIX)"
    and len: "length d + length b1 + 7 < BUFMAX" "length d + length b2 + 7 < BUFMAX"
  shows "\<exists>w1 w2. skin_main A prog [a1, d] w = Exit 0 w1 \<and> skin_main A prog [a2, d] w1 = Exit 0 w2 \<and>
    skins_taken A (files w) a1 FA a2 FB (P @ [b1 @ SKIN_SUFFIX]) (P @ [b2 @ SKIN_SUFFIX]) (files w2)"
proof -
  let ?SA = "P @ [b1 @ SKIN_SUFFIX]" and ?SB = "P @ [b2 @ SKIN_SUFFIX]"
  obtain w1 where w1: "skin_main A prog [a1, d] w = Exit 0 w1" "fs_wf (files w1)" "fs_mono (files w) (files w1)"
     "fs_get (files w1) ?SA = Some Directory"
     "\<forall>r. r \<noteq> [] \<longrightarrow> fs_get (files w1) (P @ (b1 @ SKIN_SUFFIX) # r) = skin_image A (files w) FA a1 r"
     "\<forall>p. \<not> prefix ?SA p \<longrightarrow> fs_get (files w1) p = fs_get (files w) p"
    using skin_main_tree [OF wf t(1,3) base1 sub(1) fresh(1) out(1) fits(1) len(1), of A prog] by blast
  have par: "?SA \<parallel> ?SB" "FB \<parallel> ?SA"
    using ne t(2) sibling [of "b1 @ SKIN_SUFFIX" "b2 @ SKIN_SUFFIX"]
      fresh_parallel [OF wf _ out(2) fresh(1)] by (auto simp: tree_at_def)
  have same: "fs_get (files w1) (FB @ r) = fs_get (files w) (FB @ r)" for r
    using w1(6) parallel_below [OF par(2), of "[]" r] by simp
  have fits2: "skin_fits (files w1) FB a2 (d @ SLASH # b2 @ SKIN_SUFFIX)"
    using fits(2) unfolding skin_fits_def same .
  have fresh2: "fs_get (files w1) ?SB = None" using w1(6) par(1) fresh(2) by (auto simp: parallel_def)
  obtain w2 where w2: "skin_main A prog [a2, d] w1 = Exit 0 w2" "fs_wf (files w2)" "fs_mono (files w1) (files w2)"
     "fs_get (files w2) ?SB = Some Directory"
     "\<forall>r. r \<noteq> [] \<longrightarrow> fs_get (files w2) (P @ (b2 @ SKIN_SUFFIX) # r) = skin_image A (files w1) FB a2 r"
     "\<forall>p. \<not> prefix ?SB p \<longrightarrow> fs_get (files w2) p = fs_get (files w1) p"
    using skin_main_tree [OF w1(2) tree_at_grow [OF t(2) w1(3)] tree_at_grow [OF t(3) w1(3)] base2 sub(2) fresh2
      out(2) fits2 len(2), of A prog] by blast
  have img: "skin_image A (files w1) FB a2 r = skin_image A (files w) FB a2 r" for r
    by (rule skin_image_cong) (use same in simp)
  have SA: "fs_get (files w2) (?SA @ r) = fs_get (files w1) (?SA @ r)" for r
    using w2(6) parallel_below [OF par(1), of "[]" r] by simp
  have "skins_taken A (files w) a1 FA a2 FB ?SA ?SB (files w2)"
    unfolding skins_taken_def
    using w2(2,4,5,6) fs_mono_trans [OF w1(3) w2(3)] SA SA [of "[]"] w1(4,5,6) img by simp
  then show ?thesis using w1(1) w2(1) by blast
qed


lemma skins_record:
  assumes md5: "md5_contract A digest" and wf: "fs_wf f" and st: "skins_taken A f a1 FA a2 FB SA SB g"
    and cs: "cstring a1" "cstring a2"
    and fit: "\<And>r. visible r \<Longrightarrow> fs_get f (FA @ r) \<noteq> None \<or> fs_get f (FB @ r) \<noteq> None \<Longrightarrow>
      length (a1 @ join_path r) < BUFMAX \<and> length (a2 @ join_path r) < BUFMAX"
  shows "fs_get g (SA @ r) = Some (Reg t) \<Longrightarrow> visible r \<and> (\<exists>s. fs_get f (FA @ r) = Some (Reg s) \<and>
      wf_skin t \<and> skin_hash t = hex_string (digest s) \<and> skin_path t = a1 @ join_path r)"
    and "fs_get g (SB @ r) = Some (Reg t) \<Longrightarrow> visible r \<and> (\<exists>s. fs_get f (FB @ r) = Some (Reg s) \<and>
      wf_skin t \<and> skin_hash t = hex_string (digest s) \<and> skin_path t = a2 @ join_path r)"
proof -
  have rec: "visible r \<and> (\<exists>s. fs_get f (F @ r) = Some (Reg s) \<and>
      wf_skin t \<and> skin_hash t = hex_string (digest s) \<and> skin_path t = a @ join_path r)"
    if S: "fs_get g (S @ r) = Some (Reg t)" and dirS: "fs_get g S = Some Directory"
      and img: "\<forall>r. r \<noteq> [] \<longrightarrow> fs_get g (S @ r) = skin_image A f F a r"
      and F: "F = FA \<or> F = FB" and a: "a = a1 \<or> a = a2" for S F a
  proof -
    have "r \<noteq> []" using S dirS by auto
    then have "skin_image A f F a r = Some (Reg t)" using S img by simp
    then obtain s where v: "visible r" and s: "fs_get f (F @ r) = Some (Reg s)" and t: "t = skin_text A s (a @ join_path r)"
      by (auto simp: skin_image_Reg)
    have "valid_name n" if "n \<in> set r" for n using fstore.names_valid [OF wf, of "F @ r" n] s that by simp
    then have c: "cstring (a @ join_path r)" using cs a cstring_join [of r] by auto
    moreover have "length (a @ join_path r) < BUFMAX" using fit [OF v] s F a by auto
    ultimately show ?thesis
      using v s t md5_contract.wf_skin_text [OF md5 c] md5_contract.skin_text_parts [OF md5 c] by simp
  qed
  show "fs_get g (SA @ r) = Some (Reg t) \<Longrightarrow> visible r \<and> (\<exists>s. fs_get f (FA @ r) = Some (Reg s) \<and>
      wf_skin t \<and> skin_hash t = hex_string (digest s) \<and> skin_path t = a1 @ join_path r)"
    using rec [of SA FA a1] st unfolding skins_taken_def by blast
  show "fs_get g (SB @ r) = Some (Reg t) \<Longrightarrow> visible r \<and> (\<exists>s. fs_get f (FB @ r) = Some (Reg s) \<and>
      wf_skin t \<and> skin_hash t = hex_string (digest s) \<and> skin_path t = a2 @ join_path r)"
    using rec [of SB FB a2] st unfolding skins_taken_def by blast
qed

lemma skins_changed:
  assumes md5: "md5_contract A digest" and wf: "fs_wf f" and st: "skins_taken A f a1 FA a2 FB SA SB g"
    and cs: "cstring a1" "cstring a2" and dirs: "fs_get f FA = Some Directory"
    and fit: "\<And>r. visible r \<Longrightarrow> fs_get f (FA @ r) \<noteq> None \<or> fs_get f (FB @ r) \<noteq> None \<Longrightarrow>
      length (a1 @ join_path r) < BUFMAX \<and> length (a2 @ join_path r) < BUFMAX"
  shows "changed g SA SB r \<longleftrightarrow> edited digest f FA FB r"
proof
  note rec = skins_record [OF md5 wf st cs fit]
  show "changed g SA SB r \<Longrightarrow> edited digest f FA FB r"
    unfolding changed_def edited_def using rec(1) [of r] rec(2) [of r] by fastforce
  assume "edited digest f FA FB r"
  then obtain s1 s2 where e: "visible r" "fs_get f (FA @ r) = Some (Reg s1)" "fs_get f (FB @ r) = Some (Reg s2)"
    "digest s1 \<noteq> digest s2" unfolding edited_def by blast
  then have "r \<noteq> []" using dirs by auto
  then have g: "fs_get g (SA @ r) = Some (Reg (skin_text A s1 (a1 @ join_path r)))"
    "fs_get g (SB @ r) = Some (Reg (skin_text A s2 (a2 @ join_path r)))"
    using st e by (simp_all add: skins_taken_def skin_image_def)
  show "changed g SA SB r"
    unfolding changed_def using e g rec(1) [OF _ _ g(1)] rec(2) [OF _ _ g(2)] by fastforce
qed


lemma skins_molt_args:
  assumes md5: "md5_contract A digest" and wf: "fs_wf (files w)" and t: "tree_at w a1 FA" "tree_at w a2 FB" "tree_at w d P"
    and st: "skins_taken A (files w) a1 FA a2 FB (P @ [b1 @ SKIN_SUFFIX]) (P @ [b2 @ SKIN_SUFFIX]) (files v)"
    and names: "valid_name (b1 @ SKIN_SUFFIX)" "valid_name (b2 @ SKIN_SUFFIX)"
    and M: "fs_get (files w) (P @ [b2 @ MOLT_SUFFIX]) = None"
    and out: "\<not> prefix FB P"
    and fresh: "fs_get (files w) (P @ [b1 @ SKIN_SUFFIX]) = None" "fs_get (files w) (P @ [b2 @ SKIN_SUFFIX]) = None"
    and fits: "pipeline_fits (files w) a1 FA a2 FB d b1 b2"
  shows "molt_args v (d @ SLASH # b1 @ SKIN_SUFFIX) (P @ [b1 @ SKIN_SUFFIX])
    (d @ SLASH # b2 @ SKIN_SUFFIX) (P @ [b2 @ SKIN_SUFFIX]) (d @ SLASH # b2 @ MOLT_SUFFIX) (P @ [b2 @ MOLT_SUFFIX])
    (\<lambda>r. file_text (files w) (FB @ r))"
proof -
  let ?SA = "P @ [b1 @ SKIN_SUFFIX]" and ?SB = "P @ [b2 @ SKIN_SUFFIX]" and ?M = "P @ [b2 @ MOLT_SUFFIX]"
  have suffix: "length SKIN_SUFFIX = 6" "length MOLT_SUFFIX = 6" "SKIN_SUFFIX \<noteq> MOLT_SUFFIX"
    by (simp_all add: SKIN_SUFFIX_def MOLT_SUFFIX_def)
  have fit: "length (a1 @ join_path r) < BUFMAX \<and> length (a2 @ join_path r) < BUFMAX"
    if "visible r" "fs_get (files w) (FA @ r) \<noteq> None \<or> fs_get (files w) (FB @ r) \<noteq> None" for r
    using fits that unfolding pipeline_fits_def by fastforce
  have cs: "cstring a1" "cstring a2" and dirA: "fs_get (files w) FA = Some Directory"
    using t by (simp_all add: tree_at_def)
  note rec = skins_record [OF md5 wf st cs fit]
  have mono: "fs_mono (files w) (files v)" and wfv: "fs_wf (files v)"
    and SA: "fs_get (files v) ?SA = Some Directory" and SB: "fs_get (files v) ?SB = Some Directory"
    using st by (simp_all add: skins_taken_def)
  have below: "visible r \<Longrightarrow> fs_get (files v) (S @ r) \<noteq> None \<Longrightarrow> S = ?SA \<or> S = ?SB \<Longrightarrow>
      fs_get (files w) (FA @ r) \<noteq> None \<or> fs_get (files w) (FB @ r) \<noteq> None" for S r
    using st dirA skin_image_None unfolding skins_taken_def by (cases "r = []") fastforce+
  have fits0: "length d + length b1 + 7 < BUFMAX" "length d + length b2 + 7 < BUFMAX"
    using fits dirA unfolding pipeline_fits_def by (auto simp: visible_def dest!: spec [of _ "[]"])
  have d: "resolve v d = Some P" "fs_get (files v) P = Some Directory"
    using tree_at_grow [OF t(3) mono] by (simp_all add: tree_at_def)
  have res: "resolve v (d @ SLASH # b1 @ SKIN_SUFFIX) = Some ?SA" "resolve v (d @ SLASH # b2 @ SKIN_SUFFIX) = Some ?SB"
    using resolve_child [OF d names(1)] resolve_child [OF d names(2)] SA SB fits0 suffix by simp_all
  have par: "?SA \<parallel> ?M" "?SB \<parallel> ?M" 
    using sibling [of "b1 @ SKIN_SUFFIX" "b2 @ MOLT_SUFFIX"] sibling [of "b2 @ SKIN_SUFFIX" "b2 @ MOLT_SUFFIX"] suffix by auto
  have FB: "FB \<parallel> ?M" "FB \<parallel> ?SA" "FB \<parallel> ?SB" using t(2) fresh_parallel [OF wf _ out] M fresh by (auto simp: tree_at_def)
  have source: "shell_word (skin_path s) \<and> shell_word (d @ SLASH # b2 @ MOLT_SUFFIX @ join_path r) \<and>
      length (skin_path s) + length (d @ SLASH # b2 @ MOLT_SUFFIX) + length (join_path r) + 4 < BUFMAX \<and>
      (\<exists>c. resolve v (skin_path s) = Some c \<and> \<not> prefix ?M c \<and>
         fs_get (files v) c = Some (Reg (file_text (files w) (FB @ r))))"
    if s: "fs_get (files v) (?SB @ r) = Some (Reg s)" for r s
  proof -
    obtain c where v: "visible r" and c: "fs_get (files w) (FB @ r) = Some (Reg c)" and p: "skin_path s = a2 @ join_path r"
      using rec(2) [OF _ _ s] by blast
    have fc: "length a2 + length d + length b2 + 2 * length (join_path r) + HASHLEN + 7 < BUFMAX"
      "shell_word (a2 @ join_path r)" "shell_word (d @ SLASH # b2 @ MOLT_SUFFIX @ join_path r)"
      using fits v c unfolding pipeline_fits_def by auto
    have "\<not> prefix ?SA (FB @ r)" "\<not> prefix ?SB (FB @ r)" "\<not> prefix ?M (FB @ r)"
      using FB parallel_below [of FB _ "[]" r] by fastforce+
    then have gc: "fs_get (files v) (FB @ r) = Some (Reg c)" using st c by (simp add: skins_taken_def)
    have "valid_name n" if "n \<in> set r" for n using fstore.names_valid [OF wf, of "FB @ r" n] c that by simp
    moreover have "resolve v a2 = Some FB" "fs_get (files v) FB = Some Directory"
      using tree_at_grow [OF t(2) mono] by (simp_all add: tree_at_def)
    ultimately have "resolve v (a2 @ join_path r) = Some (FB @ r)"
      using resolve_join [OF wfv, of a2 FB r] gc fc(1) by simp
    then show ?thesis using fc p gc c \<open>\<not> prefix ?M (FB @ r)\<close> suffix by (simp add: file_text_def)
  qed
  have lens: "length (d @ SLASH # b1 @ SKIN_SUFFIX) + length (join_path r) < BUFMAX \<and>
      length (d @ SLASH # b2 @ SKIN_SUFFIX) + length (join_path r) < BUFMAX \<and>
      length (d @ SLASH # b2 @ MOLT_SUFFIX) + length (join_path r) + 20 < BUFMAX"
    if "visible r" "fs_get (files v) (?SA @ r) \<noteq> None \<or> fs_get (files v) (?SB @ r) \<noteq> None" for r
  proof -
    have "fs_get (files w) (FA @ r) \<noteq> None \<or> fs_get (files w) (FB @ r) \<noteq> None" using that below by blast
    then have "length d + length b1 + length (join_path r) + 7 < BUFMAX"
      "length a2 + length d + length b2 + 2 * length (join_path r) + HASHLEN + 7 < BUFMAX"
      using fits that(1) unfolding pipeline_fits_def by blast+
    then show ?thesis using suffix by simp
  qed
  show ?thesis unfolding molt_args_def
    using wfv res SA SB par rec source lens by (auto simp: changed_def)
qed


definition pipeline_args :: "world \<Rightarrow> string \<Rightarrow> string list \<Rightarrow> string \<Rightarrow> string list \<Rightarrow> string \<Rightarrow> string list
    \<Rightarrow> string \<Rightarrow> string \<Rightarrow> bool" where
  "pipeline_args w a1 FA a2 FB d P b1 b2 \<longleftrightarrow> fs_wf (files w) \<and>
     tree_at w a1 FA \<and> tree_at w a2 FB \<and> tree_at w d P \<and>
     (\<exists>x1 x2. a1 = x1 @ SLASH # b1 \<and> a2 = x2 @ SLASH # b2) \<and> b1 \<noteq> b2 \<and>
     valid_name (b1 @ SKIN_SUFFIX) \<and> valid_name (b2 @ SKIN_SUFFIX) \<and> valid_name (b2 @ MOLT_SUFFIX) \<and>
     \<not> sublist a1 d \<and> \<not> sublist a2 d \<and> \<not> prefix FA P \<and> \<not> prefix FB P \<and>
     (\<forall>n \<in> {b1 @ SKIN_SUFFIX, b2 @ SKIN_SUFFIX, b2 @ MOLT_SUFFIX}. fs_get (files w) (P @ [n]) = None) \<and>
     pipeline_fits (files w) a1 FA a2 FB d b1 b2"

text \<open>C6: \<open>skin\<close> on the original tree, \<open>skin\<close> on the changed tree and \<open>molt\<close> on the two skins all exit with 0, and the molt holds exactly the changed tree files whose MD5 digest differs from the file of the same name in the original tree.\<close>
theorem pipeline_correct:
  assumes "md5_contract A digest" "shell_copy sh" "pipeline_args w a1 FA a2 FB d P b1 b2"
  shows "\<exists>w1 w2 w3. skin_main A prog [a1, d] w = Exit 0 w1 \<and> skin_main A prog [a2, d] w1 = Exit 0 w2 \<and>
    molt_main sh [d @ SLASH # b1 @ SKIN_SUFFIX, d @ SLASH # b2 @ SKIN_SUFFIX] w2 = Exit 0 w3 \<and>
    (\<forall>r. fs_get (files w3) (P @ (b2 @ MOLT_SUFFIX) # r) =
       molt_tree (\<lambda>r. file_text (files w) (FB @ r)) {r. edited digest (files w) FA FB r} r) \<and>
    (\<forall>p. (\<forall>n \<in> {b1 @ SKIN_SUFFIX, b2 @ SKIN_SUFFIX, b2 @ MOLT_SUFFIX}. \<not> prefix (P @ [n]) p) \<longrightarrow>
       fs_get (files w3) p = fs_get (files w) p)"
proof -
  obtain x1 x2 where wf: "fs_wf (files w)" and t: "tree_at w a1 FA" "tree_at w a2 FB" "tree_at w d P"
    and base: "a1 = x1 @ SLASH # b1" "a2 = x2 @ SLASH # b2" and ne: "b1 \<noteq> b2"
    and names: "valid_name (b1 @ SKIN_SUFFIX)" "valid_name (b2 @ SKIN_SUFFIX)" "valid_name (b2 @ MOLT_SUFFIX)"
    and sub: "\<not> sublist a1 d" "\<not> sublist a2 d" and out: "\<not> prefix FA P" "\<not> prefix FB P"
    and fresh: "fs_get (files w) (P @ [b1 @ SKIN_SUFFIX]) = None" "fs_get (files w) (P @ [b2 @ SKIN_SUFFIX]) = None"
      "fs_get (files w) (P @ [b2 @ MOLT_SUFFIX]) = None"
    and fits: "pipeline_fits (files w) a1 FA a2 FB d b1 b2"
    using assms(3) unfolding pipeline_args_def by (elim conjE exE) (rule that; simp)
  let ?SA = "P @ [b1 @ SKIN_SUFFIX]" and ?SB = "P @ [b2 @ SKIN_SUFFIX]" and ?M = "P @ [b2 @ MOLT_SUFFIX]"
  have slash: "SLASH \<notin> set b1" "SLASH \<notin> set b2" using names by (simp_all add: valid_name_def)
  have dirA: "fs_get (files w) FA = Some Directory" and cs: "cstring a1" "cstring a2" using t by (simp_all add: tree_at_def)
  have suffix: "length SKIN_SUFFIX = 6" by (simp add: SKIN_SUFFIX_def)
  have sf: "skin_fits (files w) FA a1 (d @ SLASH # b1 @ SKIN_SUFFIX)" "skin_fits (files w) FB a2 (d @ SLASH # b2 @ SKIN_SUFFIX)"
    unfolding skin_fits_def using fits suffix unfolding pipeline_fits_def by fastforce+
  have len: "length d + length b1 + 7 < BUFMAX" "length d + length b2 + 7 < BUFMAX"
    using fits dirA unfolding pipeline_fits_def by (auto simp: visible_def dest!: spec [of _ "[]"])
  obtain w1 w2 where w12: "skin_main A prog [a1, d] w = Exit 0 w1" "skin_main A prog [a2, d] w1 = Exit 0 w2"
    and st: "skins_taken A (files w) a1 FA a2 FB ?SA ?SB (files w2)"
    using two_skins [OF wf t base(1) slash(1) names(1) base(2) slash(2) names(2) ne sub out fresh(1,2) sf len, of A prog] by blast
  have margs: "molt_args w2 (d @ SLASH # b1 @ SKIN_SUFFIX) ?SA (d @ SLASH # b2 @ SKIN_SUFFIX) ?SB
      (d @ SLASH # b2 @ MOLT_SUFFIX) ?M (\<lambda>r. file_text (files w) (FB @ r))"
    by (rule skins_molt_args [OF assms(1) wf t st names(1,2) fresh(3) out(2) fresh(1,2) fits])
  have dv: "resolve w2 d = Some P" "fs_get (files w2) P = Some Directory" "hd d = SLASH" "d \<noteq> []"
    using tree_at_grow [OF t(3), of w2] st resolve_nonempty by (auto simp: tree_at_def skins_taken_def)
  have frM: "fs_get (files w2) ?M = None"
  proof -
    have "\<not> prefix ?SA ?M" "\<not> prefix ?SB ?M" using margs by (auto simp: molt_args_def parallel_def)
    then show ?thesis using st fresh(3) by (simp add: skins_taken_def)
  qed
  have fit: "length (a1 @ join_path r) < BUFMAX \<and> length (a2 @ join_path r) < BUFMAX"
    if "visible r" "fs_get (files w) (FA @ r) \<noteq> None \<or> fs_get (files w) (FB @ r) \<noteq> None" for r
    using fits that unfolding pipeline_fits_def by fastforce
  have ch: "changed (files w2) ?SA ?SB r \<longleftrightarrow> edited digest (files w) FA FB r" for r
    by (rule skins_changed [OF assms(1) wf st cs dirA fit])
  obtain w3 where w3: "molt_main sh [d @ SLASH # b1 @ SKIN_SUFFIX, d @ SLASH # b2 @ SKIN_SUFFIX] w2 = Exit 0 w3"
    "\<forall>r. fs_get (files w3) (?M @ r) = molt_tree (\<lambda>r. file_text (files w) (FB @ r)) {r. edited digest (files w) FA FB r} r"
    "\<forall>p. \<not> prefix ?M p \<longrightarrow> fs_get (files w3) p = fs_get (files w2) p"
    using molt_run [OF assms(2) _ _ _ _ _ names(3) margs refl dv(1,2) frM, of "d @ SLASH # b2"] dv(3,4)
    unfolding ch by (auto simp: SKIN_SUFFIX_def MOLT_SUFFIX_def)
  then show ?thesis using w12 st by (auto simp: skins_taken_def)
qed

lemma kernel_trees_dir:
  "fs_get kernel_trees ([''k1''] @ r) \<noteq> None \<Longrightarrow> r \<in> {[], [''f''], [''d'']}"
  "fs_get kernel_trees ([''k2''] @ r) \<noteq> None \<Longrightarrow> r \<in> {[], [''f'']}"
  by (erule all_below_check [rotated 2]; simp add: kernel_trees_def)+

lemma kernel_trees_args:
  "pipeline_args (boot_world kernel_trees) ''/k1'' [''k1''] ''/k2'' [''k2''] ''/s'' [''s''] ''k1'' ''k2''"
proof -
  have "pipeline_fits kernel_trees ''/k1'' [''k1''] ''/k2'' [''k2''] ''/s'' ''k1'' ''k2''"
    unfolding pipeline_fits_def
  proof (intro allI impI)
    fix r assume "fs_get kernel_trees ([''k1''] @ r) \<noteq> None \<or> fs_get kernel_trees ([''k2''] @ r) \<noteq> None"
    then have "r \<in> {[], [''f''], [''d'']}" using kernel_trees_dir [of r] by blast
    then show "length ''/k1'' + length (join_path r) + HASHLEN < BUFMAX \<and>
        length ''/s'' + length ''k1'' + length (join_path r) + 7 < BUFMAX \<and>
        length ''/k2'' + length ''/s'' + length ''k2'' + 2 * length (join_path r) + HASHLEN + 7 < BUFMAX \<and>
        shell_word (''/k2'' @ join_path r) \<and> shell_word (''/s'' @ SLASH # ''k2'' @ MOLT_SUFFIX @ join_path r)"
      by (elim insertE) (simp_all add: shell_word_def SLASH_def MOLT_SUFFIX_def)
  qed
  moreover have "\<exists>x1 x2. ''/k1'' = x1 @ SLASH # ''k1'' \<and> ''/k2'' = x2 @ SLASH # ''k2''"
    by (intro exI [of _ "[]"]) (simp add: SLASH_def)
  moreover have "fs_wf (files (boot_world kernel_trees))" by (simp add: world_eval kernel_trees_def)
  moreover have "tree_at (boot_world kernel_trees) ''/k1'' [''k1'']" "tree_at (boot_world kernel_trees) ''/k2'' [''k2'']"
    "tree_at (boot_world kernel_trees) ''/s'' [''s'']"
    by (simp_all add: tree_at_def world_eval kernel_trees_def)
  moreover have "\<forall>n \<in> {''k1'' @ SKIN_SUFFIX, ''k2'' @ SKIN_SUFFIX, ''k2'' @ MOLT_SUFFIX}. valid_name n \<and>
      fs_get (files (boot_world kernel_trees)) ([''s''] @ [n]) = None"
    by (simp add: world_eval kernel_trees_def SKIN_SUFFIX_def MOLT_SUFFIX_def)
  moreover have "\<not> sublist ''/k1'' ''/s''" "\<not> sublist ''/k2'' ''/s''" by (simp_all add: sublist_Cons_right)
  ultimately show ?thesis unfolding pipeline_args_def by (simp add: boot_world_def)
qed

theorem pipeline_correct_witness:
  "\<exists>w1 w2 w3. skin_main (kernel_md5 rfc1321_H) ''skin'' [''/k1'', ''/s''] (boot_world kernel_trees) = Exit 0 w1 \<and>
    skin_main (kernel_md5 rfc1321_H) ''skin'' [''/k2'', ''/s''] w1 = Exit 0 w2 \<and>
    molt_main coreutils [''/s'' @ SLASH # ''k1'' @ SKIN_SUFFIX, ''/s'' @ SLASH # ''k2'' @ SKIN_SUFFIX] w2 = Exit 0 w3 \<and>
    (fs_get (files w3) [''s'', ''k2__molt'', ''f''] = Some (Reg ''y'') \<longleftrightarrow> kernel_digest rfc1321_H ''x'' \<noteq> kernel_digest rfc1321_H ''y'')"
proof -
  obtain w1 w2 w3 where w: "skin_main (kernel_md5 rfc1321_H) ''skin'' [''/k1'', ''/s''] (boot_world kernel_trees) = Exit 0 w1"
    "skin_main (kernel_md5 rfc1321_H) ''skin'' [''/k2'', ''/s''] w1 = Exit 0 w2"
    "molt_main coreutils [''/s'' @ SLASH # ''k1'' @ SKIN_SUFFIX, ''/s'' @ SLASH # ''k2'' @ SKIN_SUFFIX] w2 = Exit 0 w3"
    and m: "\<forall>r. fs_get (files w3) ([''s''] @ (''k2'' @ MOLT_SUFFIX) # r) =
       molt_tree (\<lambda>r. file_text (files (boot_world kernel_trees)) ([''k2''] @ r))
         {r. edited (kernel_digest rfc1321_H) (files (boot_world kernel_trees)) [''k1''] [''k2''] r} r"
    using pipeline_correct [OF kmd5.md5_contract_axioms [of rfc1321_H] coreutils.shell_copy_axioms kernel_trees_args, of "''skin''"] by blast
  have "\<not> edited (kernel_digest rfc1321_H) (files (boot_world kernel_trees)) [''k1''] [''k2''] r" if "strict_prefix [''f''] r" for r
    using that kernel_trees_dir(1) [of r] by (auto simp: edited_def boot_world_def)
  then show ?thesis using w m [rule_format, of "[''f'']"]
    by (auto simp: molt_tree_def edited_def file_text_def world_eval kernel_trees_def MOLT_SUFFIX_def)
qed

end
