(* ===== verification/SsuDiff.thy ===== *)
theory SsuDiff
  imports SkinFormat
begin

text \<open>
  \<open>3-3/src/comp_kernel/ssu_diff.c\<close> and \<open>ssu_diff2.c\<close>: the comparison of two molts against the
  original tree. The two programs differ only in what they print for a pair of files
  (\<open>diff_file\<close> and \<open>diff_file_org\<close>), so the traversal is defined once over those two
  functions. What \<open>diff\<close> writes, read through \<open>popen\<close>, is the parameter \<open>po\<close>.
\<close>

section \<open>Printing a pair of files\<close>

definition ssu_filter :: "string \<Rightarrow> bool" where
  "ssu_filter d_name =
     (if strcmp d_name ''.'' = 0 \<or> strcmp d_name ''..'' = 0 \<or> strcmp d_name ''.git'' = 0
      then False else True)"

definition diff_cmd :: "string \<Rightarrow> string \<Rightarrow> string" where
  "diff_cmd p1 p2 = ''diff '' @ p1 @ '' '' @ p2"

definition fgets_len :: "nat \<Rightarrow> string \<Rightarrow> nat" where
  "fgets_len n s = min (n - 1) (min (Suc (length (takeWhile (\<lambda>c. [c] \<noteq> NL) s))) (length s))"

function copy_lines :: "string \<Rightarrow> string" where
  "copy_lines s =
     (if s = [] then []
      else let k = fgets_len BUFMAX s
           in takeWhile (\<lambda>c. c \<noteq> NUL) (take k s) @ copy_lines (drop k s))"
  by pat_completeness auto
termination
  by (relation "measure length") (auto simp: fgets_len_def)

declare copy_lines.simps [simp del]

definition popen_print :: "(string \<Rightarrow> fs \<Rightarrow> string) \<Rightarrow> string \<Rightarrow> world \<Rightarrow> world" where
  "popen_print po cmdline w =
     printf_out (copy_lines (po cmdline (files w))) (w\<lparr>cmds := cmds w @ [cmdline]\<rparr>)"

definition skin_differs :: "world \<Rightarrow> string \<Rightarrow> string \<Rightarrow> stop + bool" where
  "skin_differs w s_path1 s_path2 =
     (let fd1 = (case open_read w s_path1 of None \<Rightarrow> [] | Some s \<Rightarrow> s);
          fd2 = (case open_read w s_path2 of None \<Rightarrow> [] | Some s \<Rightarrow> s);
          hash1 = (read_buf HASHLEN fd1)[HASHLEN - 1 := Some NUL];
          hash2 = (read_buf HASHLEN fd2)[HASHLEN - 1 := Some NUL] in
      run_bind (strcmp_buf hash1 hash2) (\<lambda>n. Inr (n \<noteq> 0)))"

definition diff_file_org :: "(string \<Rightarrow> fs \<Rightarrow> string) \<Rightarrow> string \<Rightarrow> string \<Rightarrow> world \<Rightarrow> run" where
  "diff_file_org po path1 path2 w =
     run_bind (sprintf_buf BUFMAX (diff_cmd path1 path2)) (\<lambda>cmdline.
     Inr (popen_print po cmdline (printf_out (''diff '' @ path2 @ NL) w)))"

definition diff_file ::
  "(string \<Rightarrow> fs \<Rightarrow> string) \<Rightarrow> string \<Rightarrow> string \<Rightarrow> string \<Rightarrow> string \<Rightarrow> world \<Rightarrow> run" where
  "diff_file po m_path1 m_path2 s_path1 s_path2 w =
     run_bind (skin_differs w s_path1 s_path2) (\<lambda>differ.
     if differ then
       run_bind (sprintf_buf BUFMAX (diff_cmd m_path1 m_path2)) (\<lambda>cmdline.
       Inr (popen_print po cmdline (printf_out (''diff '' @ m_path2 @ NL) w)))
     else Inr w)"

definition diff_file_org2 :: "string \<Rightarrow> string \<Rightarrow> world \<Rightarrow> run" where
  "diff_file_org2 path1 path2 w =
     run_bind (sprintf_buf BUFMAX (diff_cmd path1 path2)) (\<lambda>cmdline.
     Inr (printf_out (''diff|'' @ path1 @ ''|'' @ path2 @ NL) w))"

definition diff_file2 :: "string \<Rightarrow> string \<Rightarrow> string \<Rightarrow> string \<Rightarrow> world \<Rightarrow> run" where
  "diff_file2 m_path1 m_path2 s_path1 s_path2 w =
     run_bind (skin_differs w s_path1 s_path2) (\<lambda>differ.
     if differ then
       run_bind (sprintf_buf BUFMAX (diff_cmd m_path1 m_path2)) (\<lambda>cmdline.
       Inr (printf_out (''diff|'' @ m_path1 @ ''|'' @ m_path2 @ NL) w))
     else Inr w)"

section \<open>The traversal\<close>

function (sequential)
  diff_dir :: "(string \<Rightarrow> string \<Rightarrow> world \<Rightarrow> run) \<Rightarrow> string \<Rightarrow> string \<Rightarrow> bool \<Rightarrow> world \<Rightarrow> run"
and diff_dir_loop :: "(string \<Rightarrow> string \<Rightarrow> world \<Rightarrow> run) \<Rightarrow> string \<Rightarrow> string \<Rightarrow> bool \<Rightarrow> bool option
      \<Rightarrow> string list \<Rightarrow> world \<Rightarrow> run"
where
  "diff_dir dfo path1 path2 flag w =
     run_bind (sprintf_buf BUFMAX (if \<not> flag then path2 else path1)) (\<lambda>o_path.
     run_bind (sprintf_buf BUFMAX (if \<not> flag then path1 else path2)) (\<lambda>m_path.
     let filelist = scandir ssu_filter w m_path;
         count = (if filelist = None then 1 else 0 :: nat) in
     if count \<noteq> 0 then Inr (printf_err (''in diff_dir, scandir error...'' @ NL) w)
     else diff_dir_loop dfo o_path m_path flag None (take count (the filelist)) w))"
| "diff_dir_loop dfo o_path m_path flag statbuf [] w = Inr w"
| "diff_dir_loop dfo o_path m_path flag statbuf (d_name # filelist) w =
     run_bind (sprintf_buf BUFMAX (m_path @ SLASH # d_name)) (\<lambda>tmp_m_path.
     run_bind (sprintf_buf BUFMAX (o_path @ SLASH # d_name)) (\<lambda>tmp_o_path.
     let statbuf' = stat_buf w tmp_m_path statbuf in
     run_bind (init_read statbuf') (\<lambda>isdir.
     run_bind
       (if isdir then
          (if \<not> flag then diff_dir dfo tmp_m_path tmp_o_path flag w
           else diff_dir dfo tmp_o_path tmp_m_path flag w)
        else
          (if \<not> flag then dfo tmp_m_path tmp_o_path w else dfo tmp_o_path tmp_m_path w)) (\<lambda>w'.
     diff_dir_loop dfo o_path m_path flag statbuf' filelist w'))))"
  by pat_completeness auto
termination
  by (relation "measures [
      \<lambda>x. case x of Inl (d, p, q, f, w) \<Rightarrow> BUFMAX - length (if \<not> f then p else q)
                  | Inr (d, p, q, f, b, l, w) \<Rightarrow> BUFMAX - length q,
      \<lambda>x. case x of Inl _ \<Rightarrow> 1 | Inr _ \<Rightarrow> 0,
      \<lambda>x. case x of Inl _ \<Rightarrow> 0 | Inr (d, p, q, f, b, l, w) \<Rightarrow> length l]")
     (auto simp: sprintf_buf_def split: if_splits)

declare diff_dir.simps [simp del]

function (sequential)
  comp_dir :: "(string \<Rightarrow> string \<Rightarrow> string \<Rightarrow> string \<Rightarrow> world \<Rightarrow> run) \<Rightarrow> (string \<Rightarrow> string \<Rightarrow> world \<Rightarrow> run)
      \<Rightarrow> string \<Rightarrow> string \<Rightarrow> string \<Rightarrow> string \<Rightarrow> string \<Rightarrow> world \<Rightarrow> run"
and comp_loop :: "(string \<Rightarrow> string \<Rightarrow> string \<Rightarrow> string \<Rightarrow> world \<Rightarrow> run) \<Rightarrow> (string \<Rightarrow> string \<Rightarrow> world \<Rightarrow> run)
      \<Rightarrow> string \<Rightarrow> string \<Rightarrow> string \<Rightarrow> string \<Rightarrow> string \<Rightarrow> bool option \<Rightarrow> bool option
      \<Rightarrow> string list \<Rightarrow> string list \<Rightarrow> world \<Rightarrow> run"
where
  "comp_dir df dfo o_path m_path1 m_path2 s_path1 s_path2 w =
     (case scandir ssu_filter w m_path1 of
        None \<Rightarrow> Inr (printf_err (''in function diff_dir: scandir error..'' @ NL) w)
      | Some m_filelist1 \<Rightarrow>
     (case scandir ssu_filter w m_path2 of
        None \<Rightarrow> Inr (printf_err (''in function diff_dir: scandir error..'' @ NL) w)
      | Some m_filelist2 \<Rightarrow>
          comp_loop df dfo o_path m_path1 m_path2 s_path1 s_path2 None None m_filelist1 m_filelist2 w))"
| "comp_loop df dfo o_path m_path1 m_path2 s_path1 s_path2 st1 st2 (n1 # l1) (n2 # l2) w =
     run_bind (sprintf_buf BUFMAX (m_path1 @ SLASH # n1)) (\<lambda>tmp_m_path1.
     run_bind (sprintf_buf BUFMAX (m_path2 @ SLASH # n2)) (\<lambda>tmp_m_path2.
     run_bind (sprintf_buf BUFMAX (s_path1 @ SLASH # n1)) (\<lambda>tmp_s_path1.
     run_bind (sprintf_buf BUFMAX (s_path2 @ SLASH # n2)) (\<lambda>tmp_s_path2.
     let st1' = stat_buf w tmp_m_path1 st1; st2' = stat_buf w tmp_m_path2 st2;
         n = strcmp n1 n2 in
     if n = 0 then
       run_bind (init_read st1') (\<lambda>dir1.
       run_bind (init_read st2') (\<lambda>dir2.
       run_bind
         (if dir1 \<and> dir2 then
            run_bind (sprintf_buf BUFMAX (o_path @ SLASH # n1)) (\<lambda>tmp_o_path.
            comp_dir df dfo tmp_o_path tmp_m_path1 tmp_m_path2 tmp_s_path1 tmp_s_path2 w)
          else if \<not> dir1 \<and> \<not> dir2 then df tmp_m_path1 tmp_m_path2 tmp_s_path1 tmp_s_path2 w
          else Inr w) (\<lambda>w'.
       comp_loop df dfo o_path m_path1 m_path2 s_path1 s_path2 st1' st2' l1 l2 w')))
     else if n < 0 then
       run_bind (sprintf_buf BUFMAX (o_path @ SLASH # n1)) (\<lambda>tmp_o_path.
       run_bind (init_read st1') (\<lambda>dir1.
       run_bind (init_read (stat_buf w tmp_o_path None)) (\<lambda>diro.
       run_bind
         (if dir1 \<and> diro then diff_dir dfo tmp_m_path1 tmp_o_path False w
          else if \<not> dir1 \<and> \<not> diro then dfo tmp_m_path1 tmp_o_path w
          else Inr w) (\<lambda>w'.
       comp_loop df dfo o_path m_path1 m_path2 s_path1 s_path2 st1' st2' l1 (n2 # l2) w'))))
     else
       run_bind (sprintf_buf BUFMAX (o_path @ SLASH # n2)) (\<lambda>tmp_o_path.
       run_bind (init_read (stat_buf w tmp_o_path None)) (\<lambda>diro.
       run_bind (init_read st2') (\<lambda>dir2.
       run_bind
         (if diro \<and> dir2 then diff_dir dfo tmp_o_path tmp_m_path2 True w
          else if \<not> diro \<and> \<not> dir2 then dfo tmp_o_path tmp_m_path2 w
          else Inr w) (\<lambda>w'.
       comp_loop df dfo o_path m_path1 m_path2 s_path1 s_path2 st1' st2' (n1 # l1) l2 w'))))))))"
| "comp_loop df dfo o_path m_path1 m_path2 s_path1 s_path2 st1 st2 l1 l2 w = Inr w"
  by pat_completeness auto
termination
  by (relation "measures [
      \<lambda>x. case x of Inl (d, e, p, m, _) \<Rightarrow> BUFMAX - length m | Inr (d, e, p, m, _) \<Rightarrow> BUFMAX - length m,
      \<lambda>x. case x of Inl _ \<Rightarrow> 1 | Inr _ \<Rightarrow> 0,
      \<lambda>x. case x of Inl _ \<Rightarrow> 0
                  | Inr (d, e, p, m, m2, s, s2, b, b2, l, l2, w) \<Rightarrow> length l + length l2]")
     (auto simp: sprintf_buf_def split: if_splits)

declare comp_dir.simps [simp del]

section \<open>The two programs\<close>

definition skin_of :: "string \<Rightarrow> stop + string" where
  "skin_of molt_path =
     (case strrchr molt_path (CHR ''_'') of
        None \<Rightarrow> Inl (Undef Null_Pointer)
      | Some i \<Rightarrow> if i = 0 then Inl (Undef Out_Of_Bounds)
                  else sprintf_buf BUFMAX (take (i - 1) molt_path @ ''__skin''))"

definition ssu_body :: "(string \<Rightarrow> string \<Rightarrow> string \<Rightarrow> string \<Rightarrow> world \<Rightarrow> run) \<Rightarrow> (string \<Rightarrow> string \<Rightarrow> world \<Rightarrow> run)
    \<Rightarrow> string \<Rightarrow> string list \<Rightarrow> world \<Rightarrow> run" where
  "ssu_body df dfo prog args w =
     (if length args \<noteq> 3
      then Inl (Exit 1 (printf_err
        (''usage : '' @ prog @ '' <molt path org> <molt path 1> <molt path 2>'' @ NL) w))
      else let arg1 = args ! 0; arg2 = args ! 1; arg3 = args ! 2 in
      if \<not> access_ok w arg1 \<or> \<not> access_ok w arg2 \<or> \<not> access_ok w arg3
      then Inl (Exit 1 (printf_err (''argv[1] or argv[2] don'' @ [CHR 0x27] @ ''t exist..'' @ NL) w))
      else
      run_bind (init_read (stat_buf w arg1 None)) (\<lambda>isdir1.
      run_bind (init_read (stat_buf w arg2 None)) (\<lambda>isdir2.
      run_bind (init_read (stat_buf w arg3 None)) (\<lambda>isdir3.
      if \<not> isdir1 \<or> \<not> isdir2 \<or> \<not> isdir3
      then Inl (Exit 1 (printf_err (''argv[1] or argv[2] or argv[3] are not dir'' @ NL) w))
      else
      run_bind (abs_path w arg1) (\<lambda>org_path.
      run_bind (abs_path w arg2) (\<lambda>molt_path1.
      run_bind (abs_path w arg3) (\<lambda>molt_path2.
      run_bind (skin_of molt_path1) (\<lambda>skin_path1.
      run_bind (skin_of molt_path2) (\<lambda>skin_path2.
      let w1 = printf_out (''skin_path : '' @ skin_path1 @ '' | '' @ skin_path2 @ NL) w;
          w2 = printf_out (''molt_path : '' @ molt_path1 @ '' | '' @ molt_path2 @ NL) w1 in
      if \<not> access_ok w2 skin_path1 \<or> \<not> access_ok w2 skin_path2
      then Inl (Exit 1 (printf_err (''skin paths are not exist..'' @ NL) w2))
      else
      run_bind (init_read (stat_buf w2 skin_path1 (Some isdir1))) (\<lambda>sdir1.
      run_bind (init_read (stat_buf w2 skin_path2 (Some isdir2))) (\<lambda>sdir2.
      if \<not> sdir1 \<or> \<not> sdir2
      then Inl (Exit 1 (printf_err (''skin path are not dir'' @ NL) w2))
      else
      let w3 = printf_out ('' '' @ skin_path1 @ '' '' @ skin_path2 @ NL) w2
      in comp_dir df dfo org_path molt_path1 molt_path2 skin_path1 skin_path2 w3)))))))))))"

definition ssu_diff_main :: "(string \<Rightarrow> fs \<Rightarrow> string) \<Rightarrow> string \<Rightarrow> string list \<Rightarrow> world \<Rightarrow> stop" where
  "ssu_diff_main po prog args w =
     (case ssu_body (diff_file po) (diff_file_org po) prog args w of Inl st \<Rightarrow> st | Inr w' \<Rightarrow> Exit 0 w')"

definition ssu_diff2_main :: "string \<Rightarrow> string list \<Rightarrow> world \<Rightarrow> stop" where
  "ssu_diff2_main prog args w =
     (case ssu_body diff_file2 diff_file_org2 prog args w of Inl st \<Rightarrow> st | Inr w' \<Rightarrow> Exit 0 w')"

section \<open>What the printers promise\<close>

locale pair_printer =
  fixes df :: "string \<Rightarrow> string \<Rightarrow> string \<Rightarrow> string \<Rightarrow> world \<Rightarrow> run"
    and dfo :: "string \<Rightarrow> string \<Rightarrow> world \<Rightarrow> run"
    and emit :: "string \<Rightarrow> string \<Rightarrow> fs \<Rightarrow> string"
  assumes dfo_ok: "length (diff_cmd p1 p2) < BUFMAX \<Longrightarrow> \<exists>w'. dfo p1 p2 w = Inr w' \<and>
      files w' = files w \<and> cwd w' = cwd w \<and> errs w' = errs w \<and> outs w' = outs w @ emit p1 p2 (files w)"
    and dfo_overflow: "\<not> length (diff_cmd p1 p2) < BUFMAX \<Longrightarrow> dfo p1 p2 w = Inl (Undef Buffer_Overflow)"
    and df_eq: "df m1 m2 s1 s2 w = run_bind (skin_differs w s1 s2) (\<lambda>d. if d then dfo m1 m2 w else Inr w)"

definition emit1 :: "(string \<Rightarrow> fs \<Rightarrow> string) \<Rightarrow> string \<Rightarrow> string \<Rightarrow> fs \<Rightarrow> string" where
  "emit1 po p1 p2 f = ''diff '' @ p2 @ NL @ copy_lines (po (diff_cmd p1 p2) f)"

definition emit2 :: "string \<Rightarrow> string \<Rightarrow> fs \<Rightarrow> string" where
  "emit2 p1 p2 f = ''diff|'' @ p1 @ ''|'' @ p2 @ NL"

lemma diff_file_org_eq:
  "diff_file po m1 m2 s1 s2 w =
     run_bind (skin_differs w s1 s2) (\<lambda>d. if d then diff_file_org po m1 m2 w else Inr w)"
  "diff_file2 m1 m2 s1 s2 w =
     run_bind (skin_differs w s1 s2) (\<lambda>d. if d then diff_file_org2 m1 m2 w else Inr w)"
  by (simp_all only: diff_file_def diff_file2_def diff_file_org_def diff_file_org2_def)

interpretation printer1: pair_printer "diff_file po" "diff_file_org po" "emit1 po" for po
  by unfold_locales
    (simp_all add: diff_file_org_eq diff_file_org_def sprintf_buf_def popen_print_def printf_out_def emit1_def)

interpretation printer2: pair_printer diff_file2 diff_file_org2 emit2
  by unfold_locales
    (simp_all add: diff_file_org_eq diff_file_org2_def sprintf_buf_def printf_out_def emit2_def)

lemma copy_lines_cstring: "cstring s \<Longrightarrow> copy_lines s = s"
proof (induction s rule: copy_lines.induct)
  case (1 s)
  show ?case
  proof (cases "s = []")
    case False
    let ?k = "fgets_len BUFMAX s"
    have "cstring (take ?k s)" "cstring (drop ?k s)"
      using "1.prems" by (auto simp: cstring_def dest: in_set_takeD in_set_dropD)
    then have "takeWhile (\<lambda>c. c \<noteq> NUL) (take ?k s) = take ?k s" "copy_lines (drop ?k s) = drop ?k s"
      using "1.IH" [OF False refl] by (auto simp: cstring_def takeWhile_eq_all_conv)
    then show ?thesis unfolding copy_lines.simps [of s] Let_def by (simp only: append_take_drop_id if_cancel False if_False)
  qed (simp add: copy_lines.simps)
qed

section \<open>The one-sided directory walk\<close>

lemma diff_dir_silent:
  "diff_dir dfo p1 p2 flag w =
     (if length p1 < BUFMAX \<and> length p2 < BUFMAX
      then (if scandir ssu_filter w (if flag then p2 else p1) = None
            then Inr (printf_err (''in diff_dir, scandir error...'' @ NL) w) else Inr w)
      else Inl (Undef Buffer_Overflow))"
  by (auto simp: diff_dir.simps sprintf_buf_def Let_def)

section \<open>What is reported\<close>

definition names_in :: "fs \<Rightarrow> string list \<Rightarrow> string list \<Rightarrow> string set" where
  "names_in f D q = {n. fs_get f (D @ q @ [n]) \<noteq> None \<and> n \<noteq> ''.git''}"

definition is_reg :: "fnode option \<Rightarrow> bool" where
  "is_reg x \<longleftrightarrow> (\<exists>s. x = Some (Reg s))"

definition hash_of :: "fs \<Rightarrow> string list \<Rightarrow> string" where
  "hash_of f p = (case fs_get f p of Some (Reg s) \<Rightarrow> skin_hash s | _ \<Rightarrow> [])"

definition reported_at :: "fs \<Rightarrow> string list \<Rightarrow> string list \<Rightarrow> string list \<Rightarrow> string list \<Rightarrow> string list
    \<Rightarrow> string set \<Rightarrow> string set \<Rightarrow> string list \<Rightarrow> string \<Rightarrow> bool" where
  "reported_at f Or A B SA SB N1 N2 q n \<longleftrightarrow>
     (n \<in> N1 \<and> n \<in> N2 \<and> is_reg (fs_get f (A @ q @ [n])) \<and> is_reg (fs_get f (B @ q @ [n])) \<and>
        hash_of f (SA @ q @ [n]) \<noteq> hash_of f (SB @ q @ [n])) \<or>
     (n \<in> N1 \<and> n \<notin> N2 \<and> (\<exists>m \<in> N2. n < m) \<and>
        is_reg (fs_get f (A @ q @ [n])) \<and> is_reg (fs_get f (Or @ q @ [n]))) \<or>
     (n \<notin> N1 \<and> n \<in> N2 \<and> (\<exists>m \<in> N1. n < m) \<and>
        is_reg (fs_get f (B @ q @ [n])) \<and> is_reg (fs_get f (Or @ q @ [n])))"

definition common_dir :: "fs \<Rightarrow> string list \<Rightarrow> string list \<Rightarrow> string list \<Rightarrow> bool" where
  "common_dir f A B q \<longleftrightarrow> visible q \<and> fs_get f (A @ q) = Some Directory \<and> fs_get f (B @ q) = Some Directory"

definition reported :: "fs \<Rightarrow> string list \<Rightarrow> string list \<Rightarrow> string list \<Rightarrow> string list \<Rightarrow> string list
    \<Rightarrow> string list \<Rightarrow> bool" where
  "reported f Or A B SA SB r \<longleftrightarrow> (\<exists>q n. r = q @ [n] \<and> common_dir f A B q \<and>
     reported_at f Or A B SA SB (names_in f A q) (names_in f B q) q n)"

definition loop_reported :: "fs \<Rightarrow> string list \<Rightarrow> string list \<Rightarrow> string list \<Rightarrow> string list \<Rightarrow> string list
    \<Rightarrow> string set \<Rightarrow> string set \<Rightarrow> string list \<Rightarrow> string list set" where
  "loop_reported f Or A B SA SB N1 N2 q =
     {q @ [n] | n. reported_at f Or A B SA SB N1 N2 q n} \<union>
     {r. reported f Or A B SA SB r \<and> (\<exists>n \<in> N1 \<inter> N2. strict_prefix (q @ [n]) r)}"

definition pair_of :: "fs \<Rightarrow> string list \<Rightarrow> string list \<Rightarrow> string \<Rightarrow> string \<Rightarrow> string \<Rightarrow> string list \<Rightarrow> string \<times> string" where
  "pair_of f A B op m1 m2 r =
     (if fs_get f (A @ r) = None then (op @ join_path r, m2 @ join_path r)
      else if fs_get f (B @ r) = None then (m1 @ join_path r, op @ join_path r)
      else (m1 @ join_path r, m2 @ join_path r))"

lemma reported_atI_eq:
  assumes "\<forall>m \<in> N1. n < m" "\<forall>m \<in> N2. n < m"
  shows "reported_at f Or A B SA SB (insert n N1) (insert n N2) q k \<longleftrightarrow>
     (if k = n then is_reg (fs_get f (A @ q @ [n])) \<and> is_reg (fs_get f (B @ q @ [n])) \<and>
        hash_of f (SA @ q @ [n]) \<noteq> hash_of f (SB @ q @ [n])
      else reported_at f Or A B SA SB N1 N2 q k)"
  using assms unfolding reported_at_def by (auto dest: less_asym)

lemma reported_at_lt:
  assumes "\<forall>m \<in> N1. n1 < m" "\<forall>m \<in> N2. n1 < m" "N2 \<noteq> {}"
  shows "reported_at f Or A B SA SB (insert n1 N1) N2 q k \<longleftrightarrow>
     (if k = n1 then is_reg (fs_get f (A @ q @ [n1])) \<and> is_reg (fs_get f (Or @ q @ [n1]))
      else reported_at f Or A B SA SB N1 N2 q k)"
  using assms unfolding reported_at_def by (auto dest: less_asym)

lemma reported_at_gt:
  assumes "\<forall>m \<in> N1. n2 < m" "\<forall>m \<in> N2. n2 < m" "N1 \<noteq> {}"
  shows "reported_at f Or A B SA SB N1 (insert n2 N2) q k \<longleftrightarrow>
     (if k = n2 then is_reg (fs_get f (B @ q @ [n2])) \<and> is_reg (fs_get f (Or @ q @ [n2]))
      else reported_at f Or A B SA SB N1 N2 q k)"
  using assms unfolding reported_at_def by (auto dest: less_asym)

lemma reported_at_empty: "N1 = {} \<or> N2 = {} \<Longrightarrow> \<not> reported_at f Or A B SA SB N1 N2 q k"
  unfolding reported_at_def by auto

lemma reported_below:
  assumes "fs_wf f" "reported f Or A B SA SB r" "strict_prefix p r"
  shows "fs_get f (A @ p) = Some Directory" "fs_get f (B @ p) = Some Directory" "visible p"
proof -
  obtain q n where r: "r = q @ [n]" and c: "common_dir f A B q"
    using assms(2) unfolding reported_def by blast
  have "prefix p q" using assms(3) r by (metis prefix_order.less_le prefix_snoc)
  then obtain t where q: "q = p @ t" by (auto elim: prefixE)
  have above: "fs_get f (D @ p) = Some Directory" if "fs_get f (D @ q) = Some Directory" for D
    using that fstore.get_above [OF assms(1), of "D @ p" "hd t" "tl t"] q by (cases t) simp_all
  show "fs_get f (A @ p) = Some Directory" "fs_get f (B @ p) = Some Directory"
    using c above unfolding common_dir_def by blast+
  show "visible p" using c q by (simp add: common_dir_def visible_def)
qed

lemma strict_prefix_child: "strict_prefix q r \<longleftrightarrow> (\<exists>n. r = q @ [n] \<or> strict_prefix (q @ [n]) r)"
proof
  assume "strict_prefix q r"
  then obtain n t where "r = q @ n # t" by (rule strict_prefixE')
  then show "\<exists>n. r = q @ [n] \<or> strict_prefix (q @ [n]) r" by (cases t) (auto simp: strict_prefix_def)
qed (auto simp: strict_prefix_def dest: append_prefixD)

lemma loop_reported_all:
  assumes "fs_wf f" "common_dir f A B q"
  shows "loop_reported f Or A B SA SB (names_in f A q) (names_in f B q) q =
    {r. reported f Or A B SA SB r \<and> strict_prefix q r}" (is "?L = ?R")
proof
  show "?L \<subseteq> ?R"
    using assms(2) by (auto simp: loop_reported_def reported_def strict_prefix_child [of q])
  show "?R \<subseteq> ?L"
  proof
    fix r assume "r \<in> ?R"
    then have r: "reported f Or A B SA SB r" and "strict_prefix q r" by auto
    then consider n where "r = q @ [n]" | n where "strict_prefix (q @ [n]) r"
      by (auto simp: strict_prefix_child [of q])
    then show "r \<in> ?L"
    proof cases
      case 1
      then show ?thesis using r by (auto simp: loop_reported_def reported_def)
    next
      case 2
      have "n \<in> names_in f A q \<inter> names_in f B q"
        using reported_below [OF assms(1) r 2] by (auto simp: names_in_def visible_def)
      then show ?thesis using r 2 by (auto simp: loop_reported_def)
    qed
  qed
qed

lemma loop_reported_eq:
  assumes "\<forall>m \<in> N1. n < m" "\<forall>m \<in> N2. n < m"
  shows "loop_reported f Or A B SA SB (insert n N1) (insert n N2) q =
    (if is_reg (fs_get f (A @ q @ [n])) \<and> is_reg (fs_get f (B @ q @ [n])) \<and>
        hash_of f (SA @ q @ [n]) \<noteq> hash_of f (SB @ q @ [n]) then {q @ [n]} else {}) \<union>
    {r. reported f Or A B SA SB r \<and> strict_prefix (q @ [n]) r} \<union> loop_reported f Or A B SA SB N1 N2 q"
proof -
  have "n \<notin> N1" "n \<notin> N2" using assms by auto
  then have "\<not> reported_at f Or A B SA SB N1 N2 q n" "insert n N1 \<inter> insert n N2 = insert n (N1 \<inter> N2)"
    by (auto simp: reported_at_def)
  then show ?thesis unfolding loop_reported_def reported_atI_eq [OF assms] by auto
qed

lemma loop_reported_lt:
  assumes "\<forall>m \<in> N1. n < m" "\<forall>m \<in> N2. n < m" "N2 \<noteq> {}"
  shows "loop_reported f Or A B SA SB (insert n N1) N2 q =
    (if is_reg (fs_get f (A @ q @ [n])) \<and> is_reg (fs_get f (Or @ q @ [n])) then {q @ [n]} else {}) \<union>
    loop_reported f Or A B SA SB N1 N2 q"
proof -
  have "n \<notin> N1" "n \<notin> N2" using assms by auto
  then have "\<not> reported_at f Or A B SA SB N1 N2 q n" "insert n N1 \<inter> N2 = N1 \<inter> N2"
    by (auto simp: reported_at_def)
  then show ?thesis unfolding loop_reported_def reported_at_lt [OF assms] by auto
qed

lemma loop_reported_gt:
  assumes "\<forall>m \<in> N1. n < m" "\<forall>m \<in> N2. n < m" "N1 \<noteq> {}"
  shows "loop_reported f Or A B SA SB N1 (insert n N2) q =
    (if is_reg (fs_get f (B @ q @ [n])) \<and> is_reg (fs_get f (Or @ q @ [n])) then {q @ [n]} else {}) \<union>
    loop_reported f Or A B SA SB N1 N2 q"
proof -
  have "n \<notin> N1" "n \<notin> N2" using assms by auto
  then have "\<not> reported_at f Or A B SA SB N1 N2 q n" "N1 \<inter> insert n N2 = N1 \<inter> N2"
    by (auto simp: reported_at_def)
  then show ?thesis unfolding loop_reported_def reported_at_gt [OF assms] by auto
qed

lemma loop_reported_empty: "N1 = {} \<or> N2 = {} \<Longrightarrow> loop_reported f Or A B SA SB N1 N2 q = {}"
  by (auto simp: loop_reported_def reported_at_empty)

lemma append_less: "(q @ x :: 'a :: linorder list) < q @ y \<longleftrightarrow> x < y"
  by (induction q) auto

lemma loop_reported_after:
  assumes "\<forall>m \<in> N1. n < m" "\<forall>m \<in> N2. n < m" "r \<in> loop_reported f Or A B SA SB N1 N2 q" "prefix (q @ [n]) r'"
  shows "r' < r"
proof -
  obtain t where r': "r' = q @ n # t" using assms(4) by (auto elim: prefixE)
  have "\<exists>m u. r = q @ m # u \<and> m \<in> N1 \<union> N2"
    using assms(3) by (auto simp: loop_reported_def reported_at_def strict_prefix_def elim!: prefixE)
  then show ?thesis using r' assms(1,2) by (auto simp: append_less)
qed

section \<open>The traversal reports exactly these pairs\<close>

definition cmp_args :: "world \<Rightarrow> string \<Rightarrow> string \<Rightarrow> string \<Rightarrow> string \<Rightarrow> string \<Rightarrow>
    string list \<Rightarrow> string list \<Rightarrow> string list \<Rightarrow> string list \<Rightarrow> string list \<Rightarrow> bool" where
  "cmp_args w op m1 m2 s1 s2 Or A B SA SB \<longleftrightarrow> fs_wf (files w) \<and>
     resolve w op = Some Or \<and> resolve w m1 = Some A \<and> resolve w m2 = Some B \<and>
     resolve w s1 = Some SA \<and> resolve w s2 = Some SB \<and>
     (\<forall>D \<in> {Or, A, B, SA, SB}. fs_get (files w) D = Some Directory)"

definition cmp_fits :: "string \<Rightarrow> string \<Rightarrow> string \<Rightarrow> string \<Rightarrow> string \<Rightarrow> string list \<Rightarrow> bool" where
  "cmp_fits op m1 m2 s1 s2 r \<longleftrightarrow>
     length s1 + length (join_path r) < BUFMAX \<and> length s2 + length (join_path r) < BUFMAX \<and>
     length (diff_cmd (m1 @ join_path r) (m2 @ join_path r)) < BUFMAX \<and>
     length (diff_cmd (m1 @ join_path r) (op @ join_path r)) < BUFMAX \<and>
     length (diff_cmd (op @ join_path r) (m2 @ join_path r)) < BUFMAX"

definition cmp_pre :: "fs \<Rightarrow> string \<Rightarrow> string \<Rightarrow> string \<Rightarrow> string \<Rightarrow> string \<Rightarrow>
    string list \<Rightarrow> string list \<Rightarrow> string list \<Rightarrow> string list \<Rightarrow> string list \<Rightarrow> bool" where
  "cmp_pre f op m1 m2 s1 s2 Or A B SA SB \<longleftrightarrow>
     (\<forall>r. visible r \<and> (fs_get f (A @ r) \<noteq> None \<or> fs_get f (B @ r) \<noteq> None) \<longrightarrow>
        cmp_fits op m1 m2 s1 s2 r \<and> fs_get f (Or @ r) \<noteq> None \<and>
        (is_reg (fs_get f (A @ r)) \<and> is_reg (fs_get f (B @ r)) \<longrightarrow>
           (\<exists>h1 h2. fs_get f (SA @ r) = Some (Reg h1) \<and> wf_skin h1 \<and>
                    fs_get f (SB @ r) = Some (Reg h2) \<and> wf_skin h2)))"

definition compared :: "(string list \<Rightarrow> string) \<Rightarrow> world \<Rightarrow> run \<Rightarrow> string list set \<Rightarrow> bool" where
  "compared ren w res R \<longleftrightarrow> (\<exists>w' rs. res = Inr w' \<and> files w' = files w \<and> cwd w' = cwd w \<and>
     errs w' = errs w \<and> sorted_wrt (<) rs \<and> set rs = R \<and> outs w' = outs w @ concat (map ren rs))"

lemma compared_skip [simp]: "compared ren w (Inr w) {}"
  by (simp add: compared_def)

lemma compared_one:
  assumes "\<exists>w'. res = Inr w' \<and> files w' = files w \<and> cwd w' = cwd w \<and> errs w' = errs w \<and>
    outs w' = outs w @ ren r"
  shows "compared ren w res {r}"
proof -
  obtain w' where "res = Inr w'" "files w' = files w" "cwd w' = cwd w" "errs w' = errs w"
    "outs w' = outs w @ ren r" using assms by blast
  then have "res = Inr w' \<and> files w' = files w \<and> cwd w' = cwd w \<and> errs w' = errs w \<and>
    sorted_wrt (<) [r] \<and> set [r] = {r} \<and> outs w' = outs w @ concat (map ren [r])" by simp
  then show ?thesis unfolding compared_def by blast
qed

lemma compared_bind:
  assumes x: "compared ren w x R1"
    and k: "\<And>w'. files w' = files w \<Longrightarrow> cwd w' = cwd w \<Longrightarrow> compared ren w' (k w') R2"
    and less: "\<And>r r'. r \<in> R1 \<Longrightarrow> r' \<in> R2 \<Longrightarrow> r < r'"
  shows "compared ren w (run_bind x k) (R1 \<union> R2)"
proof -
  obtain w1 rs1 where 1: "x = Inr w1" "files w1 = files w" "cwd w1 = cwd w" "errs w1 = errs w"
    "sorted_wrt (<) rs1" "set rs1 = R1" "outs w1 = outs w @ concat (map ren rs1)"
    using x unfolding compared_def by blast
  obtain w2 rs2 where 2: "k w1 = Inr w2" "files w2 = files w1" "cwd w2 = cwd w1" "errs w2 = errs w1"
    "sorted_wrt (<) rs2" "set rs2 = R2" "outs w2 = outs w1 @ concat (map ren rs2)"
    using k [OF 1(2,3)] unfolding compared_def by blast
  have "sorted_wrt (<) (rs1 @ rs2)" using 1(5,6) 2(5,6) less by (simp add: sorted_wrt_append)
  moreover have "run_bind x k = Inr w2" "set (rs1 @ rs2) = R1 \<union> R2" "files w2 = files w" "cwd w2 = cwd w"
    "errs w2 = errs w" "outs w2 = outs w @ concat (map ren (rs1 @ rs2))" using 1 2 by simp_all
  ultimately show ?thesis unfolding compared_def by blast
qed

lemma ssu_filter_ok: "tool_filter ssu_filter"
  by (simp add: tool_filter_def ssu_filter_def strcmp_eq cstring_def NUL_def)

lemma skin_differs_hash:
  assumes "stat_node w p1 = Some (Reg h1)" "wf_skin h1" "stat_node w p2 = Some (Reg h2)" "wf_skin h2"
  shows "skin_differs w p1 p2 = Inr (skin_hash h1 \<noteq> skin_hash h2)"
proof -
  obtain n where "strcmp_buf (map Some (skin_hash h1) @ [Some NUL]) (map Some (skin_hash h2) @ [Some NUL]) = Inr n"
    "n = 0 \<longleftrightarrow> skin_hash h1 = skin_hash h2"
    using strcmp_buf_map [OF wf_skin_hash_buf(2) [OF assms(2)] wf_skin_hash_buf(2) [OF assms(4)]] by blast
  then show ?thesis using assms unfolding skin_differs_def Let_def open_read_def
    by (simp only: option.case fnode.case wf_skin_hash_buf(1) run_bind_Inr)
qed

lemma stat_join:
  assumes "cmp_args w op m1 m2 s1 s2 Or A B SA SB" "\<forall>n \<in> set r. valid_name n"
    and "(p, D) \<in> {(op, Or), (m1, A), (m2, B), (s1, SA), (s2, SB)}"
    and "length p + length (join_path r) < PATH_MAX"
  shows "stat_node w (p @ join_path r) = fs_get (files w) (D @ r)"
  using assms resolve_join [of w p D r] by (auto simp: stat_node_def cmp_args_def)

lemma names_in_fits:
  assumes "cmp_args w op m1 m2 s1 s2 Or A B SA SB" "cmp_pre (files w) op m1 m2 s1 s2 Or A B SA SB"
    and "common_dir (files w) A B q" "n \<in> names_in (files w) A q \<union> names_in (files w) B q"
  shows "cmp_fits op m1 m2 s1 s2 (q @ [n])" "fs_get (files w) (Or @ q @ [n]) \<noteq> None"
    "\<forall>x \<in> set (q @ [n]). valid_name x"
proof -
  have v: "visible (q @ [n])" "fs_get (files w) (A @ q @ [n]) \<noteq> None \<or> fs_get (files w) (B @ q @ [n]) \<noteq> None"
    using assms(3,4) by (auto simp: common_dir_def names_in_def visible_def)
  then show "cmp_fits op m1 m2 s1 s2 (q @ [n])" "fs_get (files w) (Or @ q @ [n]) \<noteq> None"
    using assms(2) unfolding cmp_pre_def by blast+
  have "fs_wf (files w)" using assms(1) by (simp add: cmp_args_def)
  then show "\<forall>x \<in> set (q @ [n]). valid_name x"
    using v(2) fstore.names_valid [of "files w" "A @ q @ [n]"] fstore.names_valid [of "files w" "B @ q @ [n]"]
    by auto
qed

lemma names_in_stat:
  assumes "cmp_args w op m1 m2 s1 s2 Or A B SA SB" "cmp_pre (files w) op m1 m2 s1 s2 Or A B SA SB"
    and "common_dir (files w) A B q" "n \<in> names_in (files w) A q \<union> names_in (files w) B q"
  shows "stat_node w (op @ join_path q @ SLASH # n) = fs_get (files w) (Or @ q @ [n])"
    "stat_node w (m1 @ join_path q @ SLASH # n) = fs_get (files w) (A @ q @ [n])"
    "stat_node w (m2 @ join_path q @ SLASH # n) = fs_get (files w) (B @ q @ [n])"
    "stat_node w (s1 @ join_path q @ SLASH # n) = fs_get (files w) (SA @ q @ [n])"
    "stat_node w (s2 @ join_path q @ SLASH # n) = fs_get (files w) (SB @ q @ [n])"
  using names_in_fits [OF assms] stat_join [OF assms(1), of "q @ [n]"]
  by (auto simp: cmp_fits_def diff_cmd_def)

definition is_directory :: "fs \<Rightarrow> string list \<Rightarrow> bool" where
  "is_directory f p \<longleftrightarrow> fs_get f p = Some Directory"

lemma comp_loop_step:
  assumes pre: "cmp_args w op m1 m2 s1 s2 Or A B SA SB" "cmp_pre (files w) op m1 m2 s1 s2 Or A B SA SB"
      "common_dir (files w) A B q"
    and n: "n1 \<in> names_in (files w) A q" "n2 \<in> names_in (files w) B q"
  shows "comp_loop df dfo (op @ join_path q) (m1 @ join_path q) (m2 @ join_path q)
      (s1 @ join_path q) (s2 @ join_path q) st1 st2 (n1 # l1) (n2 # l2) w =
    (if n1 = n2 then run_bind
       (if is_directory (files w) (A @ q @ [n1]) \<and> is_directory (files w) (B @ q @ [n1])
        then comp_dir df dfo (op @ join_path (q @ [n1])) (m1 @ join_path (q @ [n1]))
          (m2 @ join_path (q @ [n1])) (s1 @ join_path (q @ [n1])) (s2 @ join_path (q @ [n1])) w
        else if \<not> is_directory (files w) (A @ q @ [n1]) \<and> \<not> is_directory (files w) (B @ q @ [n1])
        then df (m1 @ join_path (q @ [n1])) (m2 @ join_path (q @ [n1]))
          (s1 @ join_path (q @ [n1])) (s2 @ join_path (q @ [n1])) w else Inr w)
       (comp_loop df dfo (op @ join_path q) (m1 @ join_path q) (m2 @ join_path q)
          (s1 @ join_path q) (s2 @ join_path q) (Some (is_directory (files w) (A @ q @ [n1])))
          (Some (is_directory (files w) (B @ q @ [n2]))) l1 l2)
     else if n1 < n2 then run_bind
       (if is_directory (files w) (A @ q @ [n1]) \<and> is_directory (files w) (Or @ q @ [n1])
        then diff_dir dfo (m1 @ join_path (q @ [n1])) (op @ join_path (q @ [n1])) False w
        else if \<not> is_directory (files w) (A @ q @ [n1]) \<and> \<not> is_directory (files w) (Or @ q @ [n1])
        then dfo (m1 @ join_path (q @ [n1])) (op @ join_path (q @ [n1])) w else Inr w)
       (comp_loop df dfo (op @ join_path q) (m1 @ join_path q) (m2 @ join_path q)
          (s1 @ join_path q) (s2 @ join_path q) (Some (is_directory (files w) (A @ q @ [n1])))
          (Some (is_directory (files w) (B @ q @ [n2]))) l1 (n2 # l2))
     else run_bind
       (if is_directory (files w) (Or @ q @ [n2]) \<and> is_directory (files w) (B @ q @ [n2])
        then diff_dir dfo (op @ join_path (q @ [n2])) (m2 @ join_path (q @ [n2])) True w
        else if \<not> is_directory (files w) (Or @ q @ [n2]) \<and> \<not> is_directory (files w) (B @ q @ [n2])
        then dfo (op @ join_path (q @ [n2])) (m2 @ join_path (q @ [n2])) w else Inr w)
       (comp_loop df dfo (op @ join_path q) (m1 @ join_path q) (m2 @ join_path q)
          (s1 @ join_path q) (s2 @ join_path q) (Some (is_directory (files w) (A @ q @ [n1])))
          (Some (is_directory (files w) (B @ q @ [n2]))) (n1 # l1) l2))"
proof -
  have n': "n1 \<in> names_in (files w) A q \<union> names_in (files w) B q" "n2 \<in> names_in (files w) A q \<union> names_in (files w) B q"
    using n by auto
  note f1 = names_in_fits [OF pre n'(1)] and f2 = names_in_fits [OF pre n'(2)]
  note st = names_in_stat [OF pre n'(1)] names_in_stat [OF pre n'(2)]
  have some: "fs_get (files w) (A @ q @ [n1]) \<noteq> None" "fs_get (files w) (B @ q @ [n2]) \<noteq> None"
    using n by (auto simp: names_in_def)
  have cs: "cstring n1" "cstring n2" using f1(3) f2(3) valid_name_cstring by auto
  have bufs: "stat_buf w (m1 @ join_path q @ SLASH # n1) st = Some (is_directory (files w) (A @ q @ [n1]))"
    "stat_buf w (m2 @ join_path q @ SLASH # n2) st = Some (is_directory (files w) (B @ q @ [n2]))"
    "stat_buf w (op @ join_path q @ SLASH # n1) st = Some (is_directory (files w) (Or @ q @ [n1]))"
    "stat_buf w (op @ join_path q @ SLASH # n2) st = Some (is_directory (files w) (Or @ q @ [n2]))" for st
    using some f1(2) f2(2) by (auto simp: stat_buf_def st is_directory_def)
  have lens: "sprintf_buf BUFMAX (p @ join_path q @ SLASH # n) = Inr (p @ join_path q @ SLASH # n)"
    if "p \<in> {op, m1, m2, s1, s2}" "n \<in> {n1, n2}" for p n
    using that f1(1) f2(1) by (auto simp: sprintf_buf_def cmp_fits_def diff_cmd_def)
  show ?thesis
  proof (cases "n1 = n2")
    case True
    then show ?thesis using lens bufs by (simp add: init_read_def Let_def)
  next
    case False
    then show ?thesis using cs lens bufs by (simp add: init_read_def Let_def)
  qed
qed

definition report :: "(string \<Rightarrow> string \<Rightarrow> fs \<Rightarrow> string) \<Rightarrow> fs \<Rightarrow> string list \<Rightarrow> string list
    \<Rightarrow> string \<Rightarrow> string \<Rightarrow> string \<Rightarrow> string list \<Rightarrow> string" where
  "report emit f A B op m1 m2 r = (case pair_of f A B op m1 m2 r of (p1, p2) \<Rightarrow> emit p1 p2 f)"

lemma cmp_args_cong: "files v = files w \<Longrightarrow> cwd v = cwd w \<Longrightarrow>
    cmp_args v op m1 m2 s1 s2 Or A B SA SB = cmp_args w op m1 m2 s1 s2 Or A B SA SB"
  using resolve_cong [of v w] by (simp add: cmp_args_def)

lemma common_child:
  assumes "common_dir f A B q" "n \<in> names_in f A q" "is_directory f (A @ q @ [n])" "is_directory f (B @ q @ [n])"
  shows "common_dir f A B (q @ [n])"
  using assms by (simp add: common_dir_def names_in_def is_directory_def visible_def)

lemma none_reported_below:
  assumes "fs_wf f" "\<not> (is_directory f (A @ p) \<and> is_directory f (B @ p))"
  shows "{r. reported f Or A B SA SB r \<and> strict_prefix p r} = {}"
  using reported_below [OF assms(1)] assms(2) unfolding is_directory_def by blast

lemma not_is_reg: "fs_get f p \<noteq> None \<Longrightarrow> is_reg (fs_get f p) \<longleftrightarrow> \<not> is_directory f p"
  by (cases "fs_get f p"; cases "the (fs_get f p)") (auto simp: is_reg_def is_directory_def)

definition lists_ok :: "fs \<Rightarrow> string list \<Rightarrow> string list \<Rightarrow> string list \<Rightarrow> string list \<Rightarrow> string list \<Rightarrow> bool" where
  "lists_ok f A B q l1 l2 \<longleftrightarrow> sorted l1 \<and> distinct l1 \<and> sorted l2 \<and> distinct l2 \<and>
     set l1 \<subseteq> names_in f A q \<and> set l2 \<subseteq> names_in f B q \<and>
     (names_in f A q - set l1) \<inter> set l2 = {} \<and> (names_in f B q - set l2) \<inter> set l1 = {}"

lemma lists_ok_eq:
  assumes "lists_ok f A B q (n # k1) (n # k2)"
  shows "lists_ok f A B q k1 k2" "n \<in> names_in f A q" "n \<in> names_in f B q"
    "\<forall>m \<in> set k1. n < m" "\<forall>m \<in> set k2. n < m"
  using assms unfolding lists_ok_def by (auto simp: order_le_less)

lemma lists_ok_lt:
  assumes "lists_ok f A B q (n1 # k1) (n2 # k2)" "n1 < n2"
  shows "lists_ok f A B q k1 (n2 # k2)" "n1 \<in> names_in f A q" "n1 \<notin> names_in f B q"
    "\<forall>m \<in> set k1. n1 < m" "\<forall>m \<in> set (n2 # k2). n1 < m"
proof -
  show after: "\<forall>m \<in> set k1. n1 < m" "\<forall>m \<in> set (n2 # k2). n1 < m"
    using assms unfolding lists_ok_def by (auto simp: order_le_less)
  show "n1 \<in> names_in f A q" "n1 \<notin> names_in f B q"
    using assms after unfolding lists_ok_def by auto
  show "lists_ok f A B q k1 (n2 # k2)" using assms(1) after unfolding lists_ok_def by auto
qed

lemma lists_ok_gt:
  assumes "lists_ok f A B q (n1 # k1) (n2 # k2)" "n2 < n1"
  shows "lists_ok f A B q (n1 # k1) k2" "n2 \<notin> names_in f A q" "n2 \<in> names_in f B q"
    "\<forall>m \<in> set (n1 # k1). n2 < m" "\<forall>m \<in> set k2. n2 < m"
proof -
  show after: "\<forall>m \<in> set (n1 # k1). n2 < m" "\<forall>m \<in> set k2. n2 < m"
    using assms unfolding lists_ok_def by (auto simp: order_le_less)
  show "n2 \<notin> names_in f A q" "n2 \<in> names_in f B q"
    using assms after unfolding lists_ok_def by auto
  show "lists_ok f A B q (n1 # k1) k2" using assms(1) after unfolding lists_ok_def by auto
qed

context pair_printer
begin

lemma dfo_compared:
  assumes "length (diff_cmd p1 p2) < BUFMAX" "ren r = emit p1 p2 (files w)"
  shows "compared ren w (dfo p1 p2 w) {r}"
  using dfo_ok [OF assms(1), of w] assms(2) by (intro compared_one) simp

lemma df_compared:
  assumes "length (diff_cmd p1 p2) < BUFMAX" "ren r = emit p1 p2 (files w)" "skin_differs w t1 t2 = Inr d"
  shows "compared ren w (df p1 p2 t1 t2 w) (if d then {r} else {})"
  using dfo_compared [where ren = ren and r = r, OF assms(1,2)] assms(3) by (simp add: df_eq)

lemma diff_dir_compared:
  assumes "length p1 < BUFMAX" "length p2 < BUFMAX" "stat_node w (if flag then p2 else p1) = Some Directory"
  shows "compared ren w (diff_dir dfo p1 p2 flag w) {}"
proof -
  have "scandir ssu_filter w (if flag then p2 else p1) \<noteq> None"
    using assms(3) by (cases flag) (auto simp: scandir_def stat_node_def split: option.splits)
  then show ?thesis using assms(1,2) unfolding diff_dir_silent
    by (simp only: simp_thms if_True if_False compared_skip)
qed

lemma both_compared:
  assumes pre: "cmp_args w op m1 m2 s1 s2 Or A B SA SB" "cmp_pre (files w) op m1 m2 s1 s2 Or A B SA SB"
      "common_dir (files w) A B q"
    and n: "n \<in> names_in (files w) A q" "n \<in> names_in (files w) B q"
    and sub: "common_dir (files w) A B (q @ [n]) \<Longrightarrow>
      compared (report emit (files w) A B op m1 m2) w
       (comp_dir df dfo (op @ join_path (q @ [n])) (m1 @ join_path (q @ [n]))
          (m2 @ join_path (q @ [n])) (s1 @ join_path (q @ [n])) (s2 @ join_path (q @ [n])) w)
       {r. reported (files w) Or A B SA SB r \<and> strict_prefix (q @ [n]) r}"
  shows "compared (report emit (files w) A B op m1 m2) w
    (if is_directory (files w) (A @ q @ [n]) \<and> is_directory (files w) (B @ q @ [n])
        then comp_dir df dfo (op @ join_path (q @ [n])) (m1 @ join_path (q @ [n]))
          (m2 @ join_path (q @ [n])) (s1 @ join_path (q @ [n])) (s2 @ join_path (q @ [n])) w
        else if \<not> is_directory (files w) (A @ q @ [n]) \<and> \<not> is_directory (files w) (B @ q @ [n])
        then df (m1 @ join_path (q @ [n])) (m2 @ join_path (q @ [n]))
          (s1 @ join_path (q @ [n])) (s2 @ join_path (q @ [n])) w else Inr w)
    ((if is_reg (fs_get (files w) (A @ q @ [n])) \<and> is_reg (fs_get (files w) (B @ q @ [n])) \<and>
        hash_of (files w) (SA @ q @ [n]) \<noteq> hash_of (files w) (SB @ q @ [n]) then {q @ [n]} else {}) \<union>
    {r. reported (files w) Or A B SA SB r \<and> strict_prefix (q @ [n]) r})"
proof -
  have wf: "fs_wf (files w)" using pre(1) by (simp add: cmp_args_def)
  have some: "fs_get (files w) (A @ q @ [n]) \<noteq> None" "fs_get (files w) (B @ q @ [n]) \<noteq> None"
    using n by (auto simp: names_in_def)
  note none = none_reported_below [OF wf, of A "q @ [n]" B Or SA SB] and reg = some [THEN not_is_reg]
  consider (dirs) "is_directory (files w) (A @ q @ [n])" "is_directory (files w) (B @ q @ [n])"
    | (regs) "\<not> is_directory (files w) (A @ q @ [n])" "\<not> is_directory (files w) (B @ q @ [n])"
    | (mixed) "is_directory (files w) (A @ q @ [n]) \<noteq> is_directory (files w) (B @ q @ [n])" by blast
  then show ?thesis
  proof cases
    case regs
    have v: "visible (q @ [n])" using n pre(3) by (auto simp: common_dir_def names_in_def visible_def)
    obtain h1 h2 where h: "fs_get (files w) (SA @ q @ [n]) = Some (Reg h1)" "wf_skin h1"
      "fs_get (files w) (SB @ q @ [n]) = Some (Reg h2)" "wf_skin h2"
      using pre(2) v some reg regs unfolding cmp_pre_def by blast
    have d: "skin_differs w (s1 @ join_path (q @ [n])) (s2 @ join_path (q @ [n])) =
        Inr (hash_of (files w) (SA @ q @ [n]) \<noteq> hash_of (files w) (SB @ q @ [n]))"
      using names_in_stat(4,5) [OF pre, of n] n h by (simp add: skin_differs_hash hash_of_def)
    have f: "length (diff_cmd (m1 @ join_path (q @ [n])) (m2 @ join_path (q @ [n]))) < BUFMAX"
      using names_in_fits(1) [OF pre, of n] n unfolding cmp_fits_def by blast
    have t: "report emit (files w) A B op m1 m2 (q @ [n]) =
        emit (m1 @ join_path (q @ [n])) (m2 @ join_path (q @ [n])) (files w)"
      using some by (auto simp: report_def pair_of_def)
    have e: "{r. reported (files w) Or A B SA SB r \<and> strict_prefix (q @ [n]) r} = {}" using none regs by blast
    show ?thesis unfolding e
      using df_compared [where ren = "report emit (files w) A B op m1 m2", OF f t d] regs reg by simp
  next
    case dirs
    then show ?thesis using sub [OF common_child [OF pre(3) n(1) dirs]] reg by simp
  next
    case mixed
    then have e: "{r. reported (files w) Or A B SA SB r \<and> strict_prefix (q @ [n]) r} = {}" using none by blast
    show ?thesis unfolding e using mixed reg by auto
  qed
qed

lemma one_compared:
  assumes pre: "cmp_args w op m1 m2 s1 s2 Or A B SA SB" "cmp_pre (files w) op m1 m2 s1 s2 Or A B SA SB"
      "common_dir (files w) A B q"
    and n: "n \<in> names_in (files w) A q" "n \<notin> names_in (files w) B q"
  shows "compared (report emit (files w) A B op m1 m2) w
    (if is_directory (files w) (A @ q @ [n]) \<and> is_directory (files w) (Or @ q @ [n])
     then diff_dir dfo (m1 @ join_path (q @ [n])) (op @ join_path (q @ [n])) False w
     else if \<not> is_directory (files w) (A @ q @ [n]) \<and> \<not> is_directory (files w) (Or @ q @ [n])
     then dfo (m1 @ join_path (q @ [n])) (op @ join_path (q @ [n])) w else Inr w)
    (if is_reg (fs_get (files w) (A @ q @ [n])) \<and> is_reg (fs_get (files w) (Or @ q @ [n])) then {q @ [n]} else {})"
proof -
  have n': "n \<in> names_in (files w) A q \<union> names_in (files w) B q" using n by simp
  note fits = names_in_fits [OF pre n'] and st = names_in_stat(2) [OF pre n']
  have some: "fs_get (files w) (A @ q @ [n]) \<noteq> None" "fs_get (files w) (B @ q @ [n]) = None"
    using n by (auto simp: names_in_def)
  note reg = not_is_reg [OF some(1)] not_is_reg [OF fits(2)]
  have t: "report emit (files w) A B op m1 m2 (q @ [n]) =
      emit (m1 @ join_path (q @ [n])) (op @ join_path (q @ [n])) (files w)"
    using some by (auto simp: report_def pair_of_def)
  have f: "length (diff_cmd (m1 @ join_path (q @ [n])) (op @ join_path (q @ [n]))) < BUFMAX"
    using fits(1) unfolding cmp_fits_def by blast
  then have l: "length (m1 @ join_path (q @ [n])) < BUFMAX" "length (op @ join_path (q @ [n])) < BUFMAX"
    by (simp_all add: diff_cmd_def)
  show ?thesis
    using dfo_compared [where ren = "report emit (files w) A B op m1 m2", OF f t]
      diff_dir_compared [OF l, of w False] st reg
    by (simp add: is_directory_def)
qed

lemma two_compared:
  assumes pre: "cmp_args w op m1 m2 s1 s2 Or A B SA SB" "cmp_pre (files w) op m1 m2 s1 s2 Or A B SA SB"
      "common_dir (files w) A B q"
    and n: "n \<notin> names_in (files w) A q" "n \<in> names_in (files w) B q"
  shows "compared (report emit (files w) A B op m1 m2) w
    (if is_directory (files w) (Or @ q @ [n]) \<and> is_directory (files w) (B @ q @ [n])
     then diff_dir dfo (op @ join_path (q @ [n])) (m2 @ join_path (q @ [n])) True w
     else if \<not> is_directory (files w) (Or @ q @ [n]) \<and> \<not> is_directory (files w) (B @ q @ [n])
     then dfo (op @ join_path (q @ [n])) (m2 @ join_path (q @ [n])) w else Inr w)
    (if is_reg (fs_get (files w) (B @ q @ [n])) \<and> is_reg (fs_get (files w) (Or @ q @ [n])) then {q @ [n]} else {})"
proof -
  have n': "n \<in> names_in (files w) A q \<union> names_in (files w) B q" using n by simp
  note fits = names_in_fits [OF pre n'] and st = names_in_stat(3) [OF pre n']
  have some: "fs_get (files w) (B @ q @ [n]) \<noteq> None" "fs_get (files w) (A @ q @ [n]) = None"
    using n by (auto simp: names_in_def)
  note reg = not_is_reg [OF some(1)] not_is_reg [OF fits(2)]
  have t: "report emit (files w) A B op m1 m2 (q @ [n]) =
      emit (op @ join_path (q @ [n])) (m2 @ join_path (q @ [n])) (files w)"
    using some by (auto simp: report_def pair_of_def)
  have f: "length (diff_cmd (op @ join_path (q @ [n])) (m2 @ join_path (q @ [n]))) < BUFMAX"
    using fits(1) unfolding cmp_fits_def by blast
  then have l: "length (op @ join_path (q @ [n])) < BUFMAX" "length (m2 @ join_path (q @ [n])) < BUFMAX"
    by (simp_all add: diff_cmd_def)
  show ?thesis
    using dfo_compared [where ren = "report emit (files w) A B op m1 m2", OF f t]
      diff_dir_compared [OF l, of w True] st reg
    by (simp add: is_directory_def)
qed

lemma comp_loop_ok:
  assumes sub: "\<And>n w. cmp_args w op m1 m2 s1 s2 Or A B SA SB \<Longrightarrow> files w = f \<Longrightarrow> n \<in> names_in f A q \<Longrightarrow>
      common_dir f A B (q @ [n]) \<Longrightarrow>
      compared (report emit f A B op m1 m2) w
       (comp_dir df dfo (op @ join_path (q @ [n])) (m1 @ join_path (q @ [n]))
          (m2 @ join_path (q @ [n])) (s1 @ join_path (q @ [n])) (s2 @ join_path (q @ [n])) w)
       {r. reported f Or A B SA SB r \<and> strict_prefix (q @ [n]) r}"
    and pre: "cmp_pre f op m1 m2 s1 s2 Or A B SA SB" "common_dir f A B q"
  shows "cmp_args w op m1 m2 s1 s2 Or A B SA SB \<Longrightarrow> files w = f \<Longrightarrow> lists_ok f A B q l1 l2 \<Longrightarrow>
    compared (report emit f A B op m1 m2) w
      (comp_loop df dfo (op @ join_path q) (m1 @ join_path q) (m2 @ join_path q)
        (s1 @ join_path q) (s2 @ join_path q) st1 st2 l1 l2 w)
      (loop_reported f Or A B SA SB (set l1) (set l2) q)"
proof (induction "length l1 + length l2" arbitrary: l1 l2 w st1 st2 rule: less_induct)
  case less
  have IH: "compared (report emit f A B op m1 m2) w'
      (comp_loop df dfo (op @ join_path q) (m1 @ join_path q) (m2 @ join_path q)
        (s1 @ join_path q) (s2 @ join_path q) st1' st2' k1 k2 w')
      (loop_reported f Or A B SA SB (set k1) (set k2) q)"
    if "length k1 + length k2 < length l1 + length l2" "files w' = files w" "cwd w' = cwd w"
      "lists_ok f A B q k1 k2" for w' k1 k2 st1' st2'
    using less.hyps [OF that(1) _ _ that(4)] less.prems(1,2) that(2,3) cmp_args_cong [OF that(2,3)] by simp
  consider "l1 = [] \<or> l2 = []" | n1 k1 n2 k2 where "l1 = n1 # k1" "l2 = n2 # k2"
    by (cases l1; cases l2) auto
  then show ?case
  proof cases
    case 1
    then have "comp_loop df dfo op' m1' m2' s1' s2' st1 st2 l1 l2 w = Inr w" for op' m1' m2' s1' s2'
      by (cases l1) auto
    then show ?thesis using 1 by (simp add: loop_reported_empty)
  next
    case 2
    note w = less.prems(1) pre [folded less.prems(2)]
    have ok: "lists_ok f A B q (n1 # k1) (n2 # k2)" using less.prems(3) 2 by simp
    then have "n1 \<in> names_in (files w) A q" "n2 \<in> names_in (files w) B q"
      using less.prems(2) by (auto simp: lists_ok_def)
    note step = comp_loop_step [OF w this, of df dfo st1 st2 k1 k2, unfolded less.prems(2), folded 2]
    consider (eq) "n1 = n2" | (lt) "n1 < n2" | (gt) "n2 < n1" by fastforce
    then show ?thesis
    proof cases
      case eq
      note h = lists_ok_eq [OF ok [unfolded eq]]
      have c: "(n2 = n2) = True" by simp
      note both = both_compared [OF w, of n2, unfolded less.prems(2), OF h(2,3) sub [OF less.prems(1,2) h(2)]]
      show ?thesis unfolding step unfolding 2 eq list.set loop_reported_eq [OF h(4,5)] c if_True
      proof (rule compared_bind [OF both])
        show "r < r'" if "r \<in> (if is_reg (fs_get f (A @ q @ [n2])) \<and> is_reg (fs_get f (B @ q @ [n2])) \<and>
            hash_of f (SA @ q @ [n2]) \<noteq> hash_of f (SB @ q @ [n2]) then {q @ [n2]} else {}) \<union>
            {r. reported f Or A B SA SB r \<and> strict_prefix (q @ [n2]) r}"
          "r' \<in> loop_reported f Or A B SA SB (set k1) (set k2) q" for r r'
          using loop_reported_after [OF h(4,5) that(2)] that(1) by (auto split: if_splits)
      qed (assumption, (rule IH; simp add: 2 h))
    next
      case lt
      note h = lists_ok_lt [OF ok lt]
      have c: "(n1 = n2) = False" "(n1 < n2) = True" and ne: "set (n2 # k2) \<noteq> {}" using lt by auto
      note one = one_compared [OF w, of n1, unfolded less.prems(2), OF h(2,3)]
      show ?thesis unfolding step unfolding 2(1) list.set(2) [of n1] c if_True if_False loop_reported_lt [OF h(4) h(5) [folded 2] ne [folded 2]]
      proof (rule compared_bind [OF one])
        show "r < r'" if "r \<in> (if is_reg (fs_get f (A @ q @ [n1])) \<and> is_reg (fs_get f (Or @ q @ [n1])) then {q @ [n1]} else {})"
          "r' \<in> loop_reported f Or A B SA SB (set k1) (set l2) q" for r r'
          using loop_reported_after [OF h(4) h(5) [folded 2] that(2)] that(1) by (auto split: if_splits)
      qed (unfold 2(2), rule IH; simp add: 2 h)
    next
      case gt
      note h = lists_ok_gt [OF ok gt]
      have c: "(n1 = n2) = False" "(n1 < n2) = False" and ne: "set (n1 # k1) \<noteq> {}" using gt by auto
      note two = two_compared [OF w, of n2, unfolded less.prems(2), OF h(2,3)]
      show ?thesis unfolding step unfolding 2(2) list.set(2) [of n2] c if_True if_False loop_reported_gt [OF h(4) [folded 2] h(5) ne [folded 2]]
      proof (rule compared_bind [OF two])
        show "r < r'" if "r \<in> (if is_reg (fs_get f (B @ q @ [n2])) \<and> is_reg (fs_get f (Or @ q @ [n2])) then {q @ [n2]} else {})"
          "r' \<in> loop_reported f Or A B SA SB (set l1) (set k2) q" for r r'
          using loop_reported_after [OF h(4) [folded 2] h(5) that(2)] that(1) by (auto split: if_splits)
      qed (unfold 2(1), rule IH; simp add: 2 h)
    qed
  qed
qed

lemma comp_dir_ok:
  assumes pre: "cmp_pre f op m1 m2 s1 s2 Or A B SA SB"
  shows "cmp_args w op m1 m2 s1 s2 Or A B SA SB \<Longrightarrow> files w = f \<Longrightarrow> common_dir f A B q \<Longrightarrow>
    compared (report emit f A B op m1 m2) w
      (comp_dir df dfo (op @ join_path q) (m1 @ join_path q) (m2 @ join_path q)
        (s1 @ join_path q) (s2 @ join_path q) w)
      {r. reported f Or A B SA SB r \<and> strict_prefix q r}"
proof (induction "BUFMAX - length (join_path q)" arbitrary: q w rule: less_induct)
  case less
  note w = less.prems(1) pre [folded less.prems(2)] less.prems(3) [folded less.prems(2)]
  have wf: "fs_wf (files w)" using less.prems(1) by (simp add: cmp_args_def)
  have c: "cmp_fits op m1 m2 s1 s2 q" using pre less.prems(3) by (auto simp: cmp_pre_def common_dir_def)
  have v: "\<forall>n \<in> set q. valid_name n"
    using fstore.names_valid [OF wf, of "A @ q"] less.prems(2,3) by (simp add: common_dir_def)
  have ends: "resolve w m1 = Some A" "fs_get (files w) A = Some Directory"
    "resolve w m2 = Some B" "fs_get (files w) B = Some Directory"
    using less.prems(1) by (simp_all add: cmp_args_def)
  have dirs: "fs_get (files w) (A @ q) = Some Directory" "fs_get (files w) (B @ q) = Some Directory"
    using less.prems(2,3) by (simp_all add: common_dir_def)
  have res: "resolve w (m1 @ join_path q) = Some (A @ q)" "resolve w (m2 @ join_path q) = Some (B @ q)"
    using resolve_join [OF wf ends(1,2) v] resolve_join [OF wf ends(3,4) v] dirs c
    by (simp_all add: cmp_fits_def diff_cmd_def)
  obtain l1 where l1: "scandir ssu_filter w (m1 @ join_path q) = Some l1" "distinct l1" "sorted l1"
    "\<And>n. n \<in> set l1 \<longleftrightarrow> fs_get (files w) ((A @ q) @ [n]) \<noteq> None \<and> n \<noteq> ''.git''"
    by (rule scandir_listing [OF ssu_filter_ok wf res(1) dirs(1)]) blast
  obtain l2 where l2: "scandir ssu_filter w (m2 @ join_path q) = Some l2" "distinct l2" "sorted l2"
    "\<And>n. n \<in> set l2 \<longleftrightarrow> fs_get (files w) ((B @ q) @ [n]) \<noteq> None \<and> n \<noteq> ''.git''"
    by (rule scandir_listing [OF ssu_filter_ok wf res(2) dirs(2)]) blast
  have sets: "set l1 = names_in f A q" "set l2 = names_in f B q"
    using l1(4) l2(4) less.prems(2) unfolding names_in_def by auto
  have "lists_ok f A B q l1 l2" unfolding lists_ok_def using l1(2,3) l2(2,3) sets by auto
  note loop = comp_loop_ok [OF less.hyps pre less.prems(3) less.prems(1,2) this]
  have "compared (report emit f A B op m1 m2) w
      (comp_loop df dfo (op @ join_path q) (m1 @ join_path q) (m2 @ join_path q)
        (s1 @ join_path q) (s2 @ join_path q) None None l1 l2 w)
      (loop_reported f Or A B SA SB (set l1) (set l2) q)"
  proof (rule loop)
    fix n assume "n \<in> names_in f A q"
    then have "cmp_fits op m1 m2 s1 s2 (q @ [n])" using names_in_fits(1) [OF w] less.prems(2) by simp
    then show "BUFMAX - length (join_path (q @ [n])) < BUFMAX - length (join_path q)"
      by (auto simp: cmp_fits_def)
  qed
  then show ?case using l1(1) l2(1) sets less.prems(2) loop_reported_all [OF wf, of A B q Or SA SB] less.prems(3)
    by (simp add: comp_dir.simps)
qed

end

section \<open>The whole programs\<close>

lemma skin_of_molt:
  assumes "length b + 6 < BUFMAX"
  shows "skin_of (b @ ''__molt'') = Inr (b @ ''__skin'')"
proof -
  have "strrchr ((b @ ''_'') @ CHR ''_'' # ''molt'') (CHR ''_'') = Some (length (b @ ''_''))"
    by (rule strrchr_append) simp
  then show ?thesis using assms by (simp add: skin_of_def sprintf_buf_def)
qed

definition banner :: "string \<Rightarrow> string \<Rightarrow> string" where
  "banner b1 b2 = ''skin_path : '' @ b1 @ ''__skin'' @ '' | '' @ b2 @ ''__skin'' @ NL @
     ''molt_path : '' @ b1 @ ''__molt'' @ '' | '' @ b2 @ ''__molt'' @ NL @
     '' '' @ b1 @ ''__skin'' @ '' '' @ b2 @ ''__skin'' @ NL"

lemma ssu_body_reaches:
  assumes abs: "hd op = SLASH" "hd (b1 @ ''__molt'') = SLASH" "hd (b2 @ ''__molt'') = SLASH"
    and args: "cmp_args w op (b1 @ ''__molt'') (b2 @ ''__molt'') (b1 @ ''__skin'') (b2 @ ''__skin'') Or A B SA SB"
  shows "ssu_body df dfo prog [op, b1 @ ''__molt'', b2 @ ''__molt''] w =
    comp_dir df dfo op (b1 @ ''__molt'') (b2 @ ''__molt'') (b1 @ ''__skin'') (b2 @ ''__skin'')
      (printf_out (banner b1 b2) w)"
proof -
  define n1 n2 k1 k2 where defs: "n1 = b1 @ ''__molt''" "n2 = b2 @ ''__molt''" "k1 = b1 @ ''__skin''" "k2 = b2 @ ''__skin''"
  have r: "resolve w op = Some Or" "resolve w n1 = Some A" "resolve w n2 = Some B"
    "resolve w k1 = Some SA" "resolve w k2 = Some SB"
    and d: "fs_get (files w) Or = Some Directory" "fs_get (files w) A = Some Directory"
    "fs_get (files w) B = Some Directory" "fs_get (files w) SA = Some Directory" "fs_get (files w) SB = Some Directory"
    using args by (auto simp: cmp_args_def defs)
  have ne: "op \<noteq> []" "n1 \<noteq> []" "n2 \<noteq> []" using r resolve_nonempty by blast+
  have len: "length op < BUFMAX" "length n1 < BUFMAX" "length n2 < BUFMAX" using r resolve_length by blast+
  have sk: "skin_of n1 = Inr k1" "skin_of n2 = Inr k2"
    using len skin_of_molt [of b1] skin_of_molt [of b2] by (auto simp: defs)
  have ban: "printf_out ('' '' @ k1 @ '' '' @ k2 @ NL) (printf_out (''molt_path : '' @ n1 @ '' | '' @ n2 @ NL)
      (printf_out (''skin_path : '' @ k1 @ '' | '' @ k2 @ NL) w)) = printf_out (banner b1 b2) w"
    by (simp add: printf_out_def banner_def defs)
  have st: "stat_buf w op b = Some True" "stat_buf w n1 b = Some True" "stat_buf w n2 b = Some True"
    "stat_buf (printf_out x (printf_out y w)) k1 b = Some True"
    "stat_buf (printf_out x (printf_out y w)) k2 b = Some True" for b x y
    using r d by (simp_all add: stat_buf_def stat_node_def)
  have ab: "abs_path w op = Inr op" "abs_path w n1 = Inr n1" "abs_path w n2 = Inr n2"
    using abs ne len by (simp_all add: abs_path_def sprintf_buf_def defs)
  have ac: "access_ok w op" "access_ok w n1" "access_ok w n2"
    "access_ok (printf_out x (printf_out y w)) k1" "access_ok (printf_out x (printf_out y w)) k2" for x y
    using r by (simp_all add: access_ok_def)
  show ?thesis unfolding defs(1,2) [symmetric] defs(3,4) [symmetric] ban [symmetric]
    by (simp add: ssu_body_def st ab ac sk init_read_def Let_def)
qed

lemma reported_nonempty: "reported f Or A B SA SB r \<Longrightarrow> strict_prefix [] r"
  by (auto simp: reported_def strict_prefix_def)

context pair_printer
begin

lemma ssu_body_compared:
  assumes abs: "hd op = SLASH" "hd (b1 @ ''__molt'') = SLASH" "hd (b2 @ ''__molt'') = SLASH"
    and args: "cmp_args w op (b1 @ ''__molt'') (b2 @ ''__molt'') (b1 @ ''__skin'') (b2 @ ''__skin'') Or A B SA SB"
    and pre: "cmp_pre (files w) op (b1 @ ''__molt'') (b2 @ ''__molt'') (b1 @ ''__skin'') (b2 @ ''__skin'') Or A B SA SB"
  shows "compared (report emit (files w) A B op (b1 @ ''__molt'') (b2 @ ''__molt'')) (printf_out (banner b1 b2) w)
    (ssu_body df dfo prog [op, b1 @ ''__molt'', b2 @ ''__molt''] w) {r. reported (files w) Or A B SA SB r}"
proof -
  let ?v = "printf_out (banner b1 b2) w"
  have "cmp_args ?v op (b1 @ ''__molt'') (b2 @ ''__molt'') (b1 @ ''__skin'') (b2 @ ''__skin'') Or A B SA SB"
    using args cmp_args_cong [of ?v w] by simp
  moreover have "common_dir (files w) A B []" using args by (simp add: common_dir_def visible_def cmp_args_def)
  moreover have "{r. reported (files w) Or A B SA SB r \<and> strict_prefix [] r} = {r. reported (files w) Or A B SA SB r}"
    using reported_nonempty by blast
  ultimately show ?thesis
    using comp_dir_ok [OF pre, of ?v "[]"] by (simp add: ssu_body_reaches [OF abs args])
qed

end

definition ssu_reports :: "(string list \<Rightarrow> string) \<Rightarrow> world \<Rightarrow> string list list \<Rightarrow> string \<Rightarrow> stop \<Rightarrow> bool" where
  "ssu_reports ren w rs head st \<longleftrightarrow> (\<exists>w'. st = Exit 0 w' \<and> files w' = files w \<and> cwd w' = cwd w \<and>
     errs w' = errs w \<and> outs w' = outs w @ head @ concat (map ren rs))"

text \<open>C7: on an original tree, two molts and their skins, both programs exit with 0, change no file and report the same pairs in the same lexicographic order: the files present in both molts whose skins carry different digests, and the files present in one molt only, provided the other molt lists a later name in the same directory.\<close>
theorem ssu_diff_correct:
  assumes abs: "hd op = SLASH" "hd (b1 @ ''__molt'') = SLASH" "hd (b2 @ ''__molt'') = SLASH"
    and args: "cmp_args w op (b1 @ ''__molt'') (b2 @ ''__molt'') (b1 @ ''__skin'') (b2 @ ''__skin'') Or A B SA SB"
    and pre: "cmp_pre (files w) op (b1 @ ''__molt'') (b2 @ ''__molt'') (b1 @ ''__skin'') (b2 @ ''__skin'') Or A B SA SB"
  shows "\<exists>rs. sorted_wrt (<) rs \<and> set rs = {r. reported (files w) Or A B SA SB r} \<and>
    ssu_reports (report (emit1 po) (files w) A B op (b1 @ ''__molt'') (b2 @ ''__molt'')) w rs (banner b1 b2)
      (ssu_diff_main po prog [op, b1 @ ''__molt'', b2 @ ''__molt''] w) \<and>
    ssu_reports (report emit2 (files w) A B op (b1 @ ''__molt'') (b2 @ ''__molt'')) w rs (banner b1 b2)
      (ssu_diff2_main prog [op, b1 @ ''__molt'', b2 @ ''__molt''] w)"
proof -
  obtain rs where 1: "sorted_wrt (<) rs" "set rs = {r. reported (files w) Or A B SA SB r}"
    "ssu_reports (report (emit1 po) (files w) A B op (b1 @ ''__molt'') (b2 @ ''__molt'')) w rs (banner b1 b2)
      (ssu_diff_main po prog [op, b1 @ ''__molt'', b2 @ ''__molt''] w)"
    using printer1.ssu_body_compared [OF abs args pre, of po prog]
    unfolding compared_def ssu_reports_def ssu_diff_main_def by (auto simp: printf_out_def)
  obtain ss where 2: "sorted_wrt (<) ss" "set ss = {r. reported (files w) Or A B SA SB r}"
    "ssu_reports (report emit2 (files w) A B op (b1 @ ''__molt'') (b2 @ ''__molt'')) w ss (banner b1 b2)
      (ssu_diff2_main prog [op, b1 @ ''__molt'', b2 @ ''__molt''] w)"
    using printer2.ssu_body_compared [OF abs args pre, of prog]
    unfolding compared_def ssu_reports_def ssu_diff2_main_def by (auto simp: printf_out_def)
  have "ss = rs" using 1(1,2) 2(1,2) by (metis strict_sorted_equal)
  with 1 2 show ?thesis by blast
qed

section \<open>The programs only read\<close>

definition untouched :: "world \<Rightarrow> world \<Rightarrow> bool" where
  "untouched w w' \<longleftrightarrow> files w' = files w \<and> cwd w' = cwd w"

definition read_only :: "world \<Rightarrow> run \<Rightarrow> bool" where
  "read_only w r \<longleftrightarrow> (case r of Inr w' \<Rightarrow> untouched w w' | Inl (Exit n w') \<Rightarrow> untouched w w' | Inl (Undef u) \<Rightarrow> True)"

lemma read_only_simps [simp]: "read_only w (Inr w') = untouched w w'" "read_only w (Inl (Exit n w')) = untouched w w'"
  "read_only w (Inl (Undef u))" "untouched w w" "untouched w (printf_out s v) = untouched w v"
  "untouched w (printf_err s v) = untouched w v"
  by (simp_all add: read_only_def untouched_def)

lemma read_only_bind:
  "read_only w x \<Longrightarrow> (\<And>w'. untouched w w' \<Longrightarrow> read_only w' (k w')) \<Longrightarrow> read_only w (run_bind x k)"
proof (cases x)
  case (Inr w')
  assume "read_only w x" "\<And>w'. untouched w w' \<Longrightarrow> read_only w' (k w')"
  with Inr have "untouched w w'" "read_only w' (k w')" by auto
  then show ?thesis using Inr by (auto simp: read_only_def untouched_def split: sum.splits stop.splits)
qed simp

lemma read_only_value:
  assumes "(\<exists>u. x = Inl (Undef u)) \<or> (\<exists>v. x = Inr v)" "\<And>v. x = Inr v \<Longrightarrow> read_only w (k v)"
  shows "read_only w (run_bind x k)"
  using assms by auto

lemma read_only_if: "(c \<Longrightarrow> read_only w a) \<Longrightarrow> (\<not> c \<Longrightarrow> read_only w b) \<Longrightarrow> read_only w (if c then a else b)"
  by simp

lemma read_only_via: "read_only v r \<Longrightarrow> untouched w v \<Longrightarrow> read_only w r"
  by (auto simp: read_only_def untouched_def split: sum.splits stop.splits)

lemma values_stop:
  "(\<exists>u. sprintf_buf n s = Inl (Undef u)) \<or> (\<exists>v. sprintf_buf n s = Inr v)"
  "(\<exists>u. init_read b = Inl (Undef u)) \<or> (\<exists>v. init_read b = Inr v)"
  "(\<exists>u. abs_path w p = Inl (Undef u)) \<or> (\<exists>v. abs_path w p = Inr v)"
  "(\<exists>u. skin_of p = Inl (Undef u)) \<or> (\<exists>v. skin_of p = Inr v)"
  by (auto simp: sprintf_buf_def init_read_def abs_path_def skin_of_def split: option.splits)

lemma strcmp_buf_stop: "(\<exists>u. strcmp_buf a b = Inl (Undef u)) \<or> (\<exists>v. strcmp_buf a b = Inr v)"
  by (induction a b rule: strcmp_buf.induct) auto

lemma skin_differs_stop: "(\<exists>u. skin_differs w a b = Inl (Undef u)) \<or> (\<exists>v. skin_differs w a b = Inr v)"
  using strcmp_buf_stop unfolding skin_differs_def Let_def by (metis run_bind_Inl run_bind_Inr)

lemma diff_dir_read_only: "read_only w (diff_dir dfo p1 p2 flag w)"
  by (simp add: diff_dir_silent)

context pair_printer
begin

lemma dfo_read_only: "read_only w (dfo p1 p2 w)"
proof (cases "length (diff_cmd p1 p2) < BUFMAX")
  case True
  then show ?thesis using dfo_ok [OF True, of w] by (auto simp: untouched_def)
next
  case False
  then show ?thesis using dfo_overflow [OF False, of w] by simp
qed

lemma df_read_only: "read_only w (df m1 m2 s1 s2 w)"
  unfolding df_eq by (rule read_only_value [OF skin_differs_stop]) (simp add: dfo_read_only)

lemma comp_loop_read_only:
  assumes sub: "\<And>o' m1' m2' s1' s2' w'. length m1 < length m1' \<Longrightarrow> length m1' < BUFMAX \<Longrightarrow>
      read_only w' (comp_dir df dfo o' m1' m2' s1' s2' w')"
  shows "read_only w (comp_loop df dfo op m1 m2 s1 s2 st1 st2 l1 l2 w)"
proof (induction "length l1 + length l2" arbitrary: l1 l2 w st1 st2 rule: less_induct)
  case less
  have buf: "sprintf_buf BUFMAX (p @ SLASH # n) = Inr v \<Longrightarrow> length p < length v \<and> length v < BUFMAX" for p n v
    by (auto simp: sprintf_buf_def split: if_splits)
  show ?case
  proof (cases "l1 = [] \<or> l2 = []")
    case True
    then show ?thesis by (cases l1) auto
  next
    case False
    then obtain n1 k1 n2 k2 where l: "l1 = n1 # k1" "l2 = n2 # k2" by (auto simp: neq_Nil_conv)
    have IH: "length j1 + length j2 < length l1 + length l2 \<Longrightarrow>
        read_only w' (comp_loop df dfo op m1 m2 s1 s2 st1' st2' j1 j2 w')" for j1 j2 w' st1' st2'
      using less.hyps by blast
    show ?thesis unfolding l comp_loop.simps Let_def
      by (intro read_only_value [OF values_stop(1)] read_only_value [OF values_stop(2)] read_only_if read_only_bind
          dfo_read_only df_read_only diff_dir_read_only IH sub; (simp add: l | drule buf)+)
  qed
qed

lemma comp_dir_read_only: "read_only w (comp_dir df dfo op m1 m2 s1 s2 w)"
proof (induction "BUFMAX - length m1" arbitrary: op m1 m2 s1 s2 w rule: less_induct)
  case less
  then have "read_only w (comp_loop df dfo op m1 m2 s1 s2 st1 st2 l1 l2 w)" for st1 st2 l1 l2
    by (intro comp_loop_read_only) simp
  then show ?case by (simp add: comp_dir.simps split: option.splits)
qed

lemma ssu_body_read_only: "read_only w (ssu_body df dfo prog args w)"
  unfolding ssu_body_def Let_def
  by (intro read_only_if read_only_value [OF values_stop(2)] read_only_value [OF values_stop(3)]
        read_only_value [OF values_stop(4)])
     (auto intro: read_only_via [OF comp_dir_read_only])

end


text \<open>C19: \<open>diff_dir\<close> compares nothing: the precedence of \<open><\<close> over \<open>=\<close> in its guard leaves the loop count at 0, so it prints nothing to standard output and starts no \<open>diff\<close>, whatever the directories hold.\<close>
theorem diff_dir_compares_nothing:
  "case diff_dir dfo path1 path2 flag w of
     Inr w' \<Rightarrow> outs w' = outs w \<and> cmds w' = cmds w \<and> files w' = files w
   | Inl st \<Rightarrow> st = Undef Buffer_Overflow"
  by (simp add: diff_dir_silent printf_err_def)

section \<open>Witnesses\<close>

text \<open>C20: when the second molt is empty, nothing at all is reported, whatever the first molt holds: entries left over in one listing when the other is exhausted are dropped, against the table in the comment at the head of the file.\<close>
theorem ssu_tail_unreported:
  assumes abs: "hd op = SLASH" "hd (b1 @ ''__molt'') = SLASH" "hd (b2 @ ''__molt'') = SLASH"
    and args: "cmp_args w op (b1 @ ''__molt'') (b2 @ ''__molt'') (b1 @ ''__skin'') (b2 @ ''__skin'') Or A B SA SB"
    and pre: "cmp_pre (files w) op (b1 @ ''__molt'') (b2 @ ''__molt'') (b1 @ ''__skin'') (b2 @ ''__skin'') Or A B SA SB"
    and empty: "\<forall>n. fs_get (files w) (B @ [n]) = None"
  shows "\<exists>w'. ssu_diff2_main prog [op, b1 @ ''__molt'', b2 @ ''__molt''] w = Exit 0 w' \<and>
    outs w' = outs w @ banner b1 b2"
proof -
  have wf: "fs_wf (files w)" using args by (simp add: cmp_args_def)
  have "\<not> reported (files w) Or A B SA SB r" for r
  proof
    assume "reported (files w) Or A B SA SB r"
    then obtain q n where q: "common_dir (files w) A B q"
      and at: "reported_at (files w) Or A B SA SB (names_in (files w) A q) (names_in (files w) B q) q n"
      unfolding reported_def by blast
    have "q = []"
    proof (rule ccontr)
      assume "q \<noteq> []"
      then obtain m t where "q = m # t" by (cases q) auto
      then have "fs_get (files w) ((B @ [m]) @ t) \<noteq> None" using q by (simp add: common_dir_def)
      then show False using fstore.none_below_None [OF wf, of "B @ [m]" t] empty by simp
    qed
    then have "names_in (files w) B q = {}" using empty by (simp add: names_in_def)
    then show False using at reported_at_empty by metis
  qed
  then show ?thesis using printer2.ssu_body_compared [OF abs args pre, of prog]
    by (auto simp: compared_def ssu_diff2_main_def printf_out_def)
qed

definition ssu_files :: fs where
  "ssu_files =
    [([''o''], Directory), ([''o'', ''f''], Reg ''x''),
     ([''a__molt''], Directory), ([''a__molt'', ''f''], Reg ''y''),
     ([''b__molt''], Directory), ([''b__molt'', ''f''], Reg ''z''),
     ([''a__skin''], Directory), ([''a__skin'', ''f''], Reg (skin_rec (replicate 32 (CHR ''1'')) ''/a/f'')),
     ([''b__skin''], Directory), ([''b__skin'', ''f''], Reg (skin_rec (replicate 32 (CHR ''2'')) ''/b/f''))]"

definition ssu_files_tail :: fs where
  "ssu_files_tail = filter (\<lambda>(k, n). k \<noteq> [''b__molt'', ''f'']) ssu_files"

lemma cmp_pre_check:
  assumes "A \<noteq> []" "B \<noteq> []"
    and "\<forall>k \<in> set (map fst f). \<forall>D \<in> {A, B}. prefix D k \<longrightarrow> (let r = drop (length D) k in
       cmp_fits op m1 m2 s1 s2 r \<and> fs_get f (Or @ r) \<noteq> None \<and>
        (is_reg (fs_get f (A @ r)) \<and> is_reg (fs_get f (B @ r)) \<longrightarrow>
          (\<exists>h1 h2. fs_get f (SA @ r) = Some (Reg h1) \<and> wf_skin h1 \<and>
                    fs_get f (SB @ r) = Some (Reg h2) \<and> wf_skin h2)))"
  shows "cmp_pre f op m1 m2 s1 s2 Or A B SA SB"
  unfolding cmp_pre_def
proof (intro allI impI)
  fix r assume "visible r \<and> (fs_get f (A @ r) \<noteq> None \<or> fs_get f (B @ r) \<noteq> None)"
  then obtain D where D: "D \<in> {A, B}" "fs_get f (D @ r) \<noteq> None" by blast
  let ?Q = "\<lambda>r. cmp_fits op m1 m2 s1 s2 r \<and> fs_get f (Or @ r) \<noteq> None \<and>
        (is_reg (fs_get f (A @ r)) \<and> is_reg (fs_get f (B @ r)) \<longrightarrow>
          (\<exists>h1 h2. fs_get f (SA @ r) = Some (Reg h1) \<and> wf_skin h1 \<and>
                    fs_get f (SB @ r) = Some (Reg h2) \<and> wf_skin h2))"
  have "D \<noteq> []" using D(1) assms(1,2) by blast
  moreover have "\<forall>k \<in> set (map fst f). prefix D k \<longrightarrow> ?Q (drop (length D) k)"
    using assms(3) D(1) unfolding Let_def by blast
  ultimately show "?Q r" using D(2) by (rule all_below_check [where Q = ?Q])
qed

lemma ssu_files_args:
  "cmp_args (boot_world ssu_files) ''/o'' (''/a'' @ ''__molt'') (''/b'' @ ''__molt'') (''/a'' @ ''__skin'') (''/b'' @ ''__skin'')
     [''o''] [''a__molt''] [''b__molt''] [''a__skin''] [''b__skin'']"
  "cmp_args (boot_world ssu_files_tail) ''/o'' (''/a'' @ ''__molt'') (''/b'' @ ''__molt'') (''/a'' @ ''__skin'') (''/b'' @ ''__skin'')
     [''o''] [''a__molt''] [''b__molt''] [''a__skin''] [''b__skin'']"
  by (simp_all add: cmp_args_def world_eval ssu_files_def ssu_files_tail_def)

lemma ssu_files_pre:
  "cmp_pre (files (boot_world ssu_files)) ''/o'' (''/a'' @ ''__molt'') (''/b'' @ ''__molt'') (''/a'' @ ''__skin'') (''/b'' @ ''__skin'')
     [''o''] [''a__molt''] [''b__molt''] [''a__skin''] [''b__skin'']"
  "cmp_pre (files (boot_world ssu_files_tail)) ''/o'' (''/a'' @ ''__molt'') (''/b'' @ ''__molt'') (''/a'' @ ''__skin'') (''/b'' @ ''__skin'')
     [''o''] [''a__molt''] [''b__molt''] [''a__skin''] [''b__skin'']"
proof -
  have "wf_skin (skin_rec (replicate 32 (CHR ''1'')) ''/a/f'')" "wf_skin (skin_rec (replicate 32 (CHR ''2'')) ''/b/f'')"
    by (rule wf_skinI; simp add: cstring_def NUL_def)+
  note e = this boot_world_def fs_get_def ssu_files_def ssu_files_tail_def cmp_fits_def diff_cmd_def is_reg_def Let_def
  show "cmp_pre (files (boot_world ssu_files)) ''/o'' (''/a'' @ ''__molt'') (''/b'' @ ''__molt'') (''/a'' @ ''__skin'') (''/b'' @ ''__skin'')
     [''o''] [''a__molt''] [''b__molt''] [''a__skin''] [''b__skin'']"
    by (rule cmp_pre_check) (simp_all add: e)
  show "cmp_pre (files (boot_world ssu_files_tail)) ''/o'' (''/a'' @ ''__molt'') (''/b'' @ ''__molt'') (''/a'' @ ''__skin'') (''/b'' @ ''__skin'')
     [''o''] [''a__molt''] [''b__molt''] [''a__skin''] [''b__skin'']"
    by (rule cmp_pre_check) (simp_all add: e)
qed

theorem ssu_tail_unreported_witness:
  "fs_get ssu_files_tail [''a__molt'', ''f''] = Some (Reg ''y'') \<and> fs_get ssu_files_tail [''o'', ''f''] = Some (Reg ''x'') \<and>
   (\<exists>w'. ssu_diff2_main ''ssu_diff2'' [''/o'', ''/a'' @ ''__molt'', ''/b'' @ ''__molt''] (boot_world ssu_files_tail) = Exit 0 w' \<and>
    outs w' = banner ''/a'' ''/b'')"
  using ssu_tail_unreported [OF _ _ _ ssu_files_args(2) ssu_files_pre(2), of "''ssu_diff2''"]
  by (simp add: boot_world_def SLASH_def fs_get_def ssu_files_tail_def ssu_files_def)

theorem ssu_diff_correct_witness:
  "\<exists>rs. sorted_wrt (<) rs \<and> [''f''] \<in> set rs \<and>
    ssu_reports (report emit2 ssu_files [''a__molt''] [''b__molt''] ''/o'' ''/a__molt'' ''/b__molt'') (boot_world ssu_files) rs (banner ''/a'' ''/b'')
      (ssu_diff2_main ''ssu_diff2'' [''/o'', ''/a__molt'', ''/b__molt''] (boot_world ssu_files))"
proof -
  have "reported_at ssu_files [''o''] [''a__molt''] [''b__molt''] [''a__skin''] [''b__skin'']
      (names_in ssu_files [''a__molt''] []) (names_in ssu_files [''b__molt''] []) [] ''f''"
    by (simp add: reported_at_def names_in_def is_reg_def hash_of_def fs_get_def ssu_files_def skin_hash_def skin_rec_def)
  then have "reported ssu_files [''o''] [''a__molt''] [''b__molt''] [''a__skin''] [''b__skin''] [''f'']"
    unfolding reported_def by (auto simp: common_dir_def visible_def fs_get_def ssu_files_def)
  then show ?thesis
    using ssu_diff_correct [OF _ _ _ ssu_files_args(1) ssu_files_pre(1), of "\<lambda>c f. []" "''ssu_diff2''"]
    by (auto simp: boot_world_def SLASH_def)
qed

end
