(* ===== verification/Prompt.thy ===== *)
theory Prompt
  imports Posix
begin

text \<open>
  \<open>3-3/src/comp_kernel/prompt.c\<close>: the command prompt that starts the tools. The state is the
  unread standard input, the C string held by the global \<open>buf\<close> (the bytes before its first
  NUL, which is all the program ever looks at), what was printed, and the programs started so
  far with their argument vectors. Whether the \<open>n\<close>-th \<open>fork\<close> succeeds is the parameter
  \<open>fk\<close>; the started program runs in its own process and the prompt only waits for it.
\<close>

record prompt_state =
  pin :: string
  pbuf :: string
  pout :: string
  perr :: string
  execs :: "(string \<times> string list) list"

datatype pstop = PExit int prompt_state | PUndef ub

section \<open>Operations\<close>

abbreviation BUFFERSIZE :: nat where
  "BUFFERSIZE \<equiv> 4048"

abbreviation SPACE :: char where
  "SPACE \<equiv> CHR '' ''"

definition inst_list :: "string list" where
  "inst_list = [''skin'', ''molt'', ''ls'', ''vi'']"

definition fgets_line :: "string \<Rightarrow> nat" where
  "fgets_line s = min (BUFFERSIZE - 1) (min (Suc (length (takeWhile (\<lambda>c. [c] \<noteq> NL) s))) (length s))"

definition fgets :: "prompt_state \<Rightarrow> prompt_state" where
  "fgets p = (if pin p = [] then p
     else let k = fgets_line (pin p)
          in p\<lparr>pbuf := takeWhile (\<lambda>c. c \<noteq> NUL) (take k (pin p)), pin := drop k (pin p)\<rparr>)"

fun countArgNum :: "string \<Rightarrow> nat" where
  "countArgNum [] = 0"
| "countArgNum (c # ptr) = (if c = SPACE then Suc (countArgNum ptr) else countArgNum ptr)"

fun inst_checking_from :: "string list \<Rightarrow> string \<Rightarrow> bool" where
  "inst_checking_from [] inst = False"
| "inst_checking_from (i # is) inst = (if strcmp i inst = 0 then True else inst_checking_from is inst)"

definition inst_checking :: "string \<Rightarrow> bool" where
  "inst_checking inst = inst_checking_from inst_list inst"

definition strtok :: "string \<Rightarrow> (string \<times> string) option" where
  "strtok s =
     (let t = dropWhile (\<lambda>c. c = SPACE) s in
      if t = [] then None
      else Some (takeWhile (\<lambda>c. c \<noteq> SPACE) t, tl (dropWhile (\<lambda>c. c \<noteq> SPACE) t)))"

definition strtok_head :: "string \<Rightarrow> string" where
  "strtok_head s = takeWhile (\<lambda>c. c = SPACE) s @ takeWhile (\<lambda>c. c \<noteq> SPACE) (dropWhile (\<lambda>c. c = SPACE) s)"

definition malloc_copy :: "nat \<Rightarrow> string \<Rightarrow> ub + string" where
  "malloc_copy n s = (if length s < n then Inr s else Inl Buffer_Overflow)"

fun read_args :: "nat \<Rightarrow> string \<Rightarrow> ub + string list" where
  "read_args 0 s = Inr []"
| "read_args (Suc i) s =
     (case strtok s of
        None \<Rightarrow> Inl Null_Pointer
      | Some (arg, s') \<Rightarrow>
          run_bind (malloc_copy (length arg + 1) arg) (\<lambda>a.
          run_bind (read_args i s') (\<lambda>as. Inr (a # as))))"

definition prompting :: "(nat \<Rightarrow> bool) \<Rightarrow> prompt_state \<Rightarrow> pstop + bool \<times> prompt_state" where
  "prompting fk p0 =
     (let p1 = fgets (p0\<lparr>pout := pout p0 @ ''> ''\<rparr>) in
      if pbuf p1 = [] then Inl (PUndef Out_Of_Bounds)
      else
      let line = butlast (pbuf p1); p = p1\<lparr>pbuf := line\<rparr> in
      if strcmp line ''exit'' = 0 then Inr (False, p)
      else if line = [] then Inr (True, p)
      else
      let argCnt = countArgNum line in
      case strtok line of
        None \<Rightarrow> Inl (PUndef Null_Pointer)
      | Some (inst, rest) \<Rightarrow>
      let p = p\<lparr>pbuf := strtok_head line\<rparr> in
      if \<not> inst_checking inst
      then Inr (True, p\<lparr>pout := pout p @ ''unknown instruction for '' @ inst @ NL\<rparr>)
      else
      case malloc_copy ((length inst - 1) * 8) inst of
        Inl u \<Rightarrow> Inl (PUndef u)
      | Inr args0 \<Rightarrow>
      case read_args argCnt rest of
        Inl u \<Rightarrow> Inl (PUndef u)
      | Inr args \<Rightarrow>
      if \<not> fk (length (execs p)) then Inl (PExit 1 (p\<lparr>perr := perr p @ ''fork error'' @ NL\<rparr>))
      else Inr (True, p\<lparr>execs := execs p @ [(inst, args0 # args)]\<rparr>))"

lemma prompting_progress:
  assumes "prompting fk p = Inr (b, p')"
  shows "length (pin p') < length (pin p) \<or>
    (length (pin p') = length (pin p) \<and> length (pbuf p') < length (pbuf p))"
proof (cases "pin p = []")
  case True
  have "length (strtok_head s) \<le> length s" for s
  proof -
    have "length (takeWhile (\<lambda>c. c = SPACE) s) + length (dropWhile (\<lambda>c. c = SPACE) s) = length s"
      by (simp only: takeWhile_dropWhile_id flip: length_append)
    then show ?thesis using length_takeWhile_le [of "\<lambda>c. c \<noteq> SPACE" "dropWhile (\<lambda>c. c = SPACE) s"]
      unfolding strtok_head_def length_append by linarith
  qed
  then have "length (strtok_head (butlast s)) < length s" if "s \<noteq> []" for s
    using that by (metis diff_less length_butlast length_greater_0_conv less_numeral_extra(1) order_le_less_trans)
  then show ?thesis using assms True
    by (auto simp: prompting_def fgets_def Let_def split: if_splits option.splits sum.splits)
next
  case False
  then have "0 < fgets_line (pin p)" by (simp add: fgets_line_def)
  then have "length (pin (fgets (p\<lparr>pout := s\<rparr>))) < length (pin p)" for s
    using False by (simp add: fgets_def Let_def)
  then show ?thesis using assms
    by (auto simp: prompting_def Let_def split: if_splits option.splits sum.splits)
qed

function prompt_main :: "(nat \<Rightarrow> bool) \<Rightarrow> prompt_state \<Rightarrow> pstop" where
  "prompt_main fk p =
     (case prompting fk p of
        Inl st \<Rightarrow> st
      | Inr (again, p') \<Rightarrow> if again then prompt_main fk p' else PExit 0 p')"
  by pat_completeness auto
termination
  by (relation "measures [\<lambda>(fk, p). length (pin p), \<lambda>(fk, p). length (pbuf p)]")
    (auto dest: prompting_progress)

declare prompt_main.simps [simp del]

section \<open>Reading a command line\<close>

definition word :: "string \<Rightarrow> bool" where
  "word t \<longleftrightarrow> t \<noteq> [] \<and> SPACE \<notin> set t \<and> CHR 0x0A \<notin> set t \<and> cstring t"

fun unwords :: "string list \<Rightarrow> string" where
  "unwords [] = []"
| "unwords [t] = t"
| "unwords (t # u # ts) = t @ SPACE # unwords (u # ts)"

lemma inst_checking_iff: "cstring t \<Longrightarrow> inst_checking t \<longleftrightarrow> t \<in> set inst_list"
proof -
  have "inst_checking_from is t \<longleftrightarrow> t \<in> set is" if "cstring t" "\<forall>i \<in> set is. cstring i" for "is"
    using that by (induction "is") auto
  moreover have "\<forall>i \<in> set inst_list. cstring i" by (simp add: inst_list_def cstring_def NUL_def)
  ultimately show "cstring t \<Longrightarrow> inst_checking t \<longleftrightarrow> t \<in> set inst_list" by (simp add: inst_checking_def)
qed

lemma unwords_chars: "\<forall>t \<in> set ts. word t \<Longrightarrow> cstring (unwords ts) \<and> CHR 0x0A \<notin> set (unwords ts)"
  by (induction ts rule: unwords.induct) (auto simp: word_def NUL_def)

lemma fgets_reads:
  assumes "pin p = line @ NL @ rest" "cstring line" "CHR 0x0A \<notin> set line" "length line + 1 < BUFFERSIZE"
  shows "fgets p = p\<lparr>pbuf := line @ NL, pin := rest\<rparr>"
proof -
  have line: "[c] \<noteq> NL" if "c \<in> set line" for c using assms(3) that by (auto simp: NL_def)
  have "takeWhile (\<lambda>c. [c] \<noteq> NL) (line @ NL @ rest) = line"
    using line by (simp add: takeWhile_append2) (simp add: NL_def)
  then have k: "fgets_line (pin p) = Suc (length line)" using assms(1,4) by (simp add: fgets_line_def NL_def)
  have nz: "c \<noteq> NUL" if "c \<in> set (line @ NL)" for c
    using assms(2) that by (auto simp: cstring_def NL_def NUL_def)
  have "takeWhile (\<lambda>c. c \<noteq> NUL) (line @ NL) = line @ NL" using nz by (simp only: takeWhile_eq_all_conv) blast
  then show ?thesis using assms(1) k by (simp add: fgets_def Let_def NL_def)
qed

lemma prompting_exit:
  assumes "pin p = ''exit'' @ NL @ rest"
  shows "prompting fk p = Inr (False, p\<lparr>pin := rest, pbuf := ''exit'', pout := pout p @ ''> ''\<rparr>)"
proof -
  let ?q = "p\<lparr>pout := pout p @ ''> ''\<rparr>"
  have "fgets ?q = ?q\<lparr>pbuf := ''exit'' @ NL, pin := rest\<rparr>"
    by (rule fgets_reads) (simp_all add: assms cstring_def NUL_def)
  then show ?thesis unfolding prompting_def Let_def by (simp add: NL_def)
qed

section \<open>Lines that are not single-spaced\<close>

text \<open>
  \<open>prompting\<close> asks \<open>strtok\<close> for as many arguments as the line has spaces, so an empty field
  (a leading, trailing or doubled space) makes it copy from a null pointer.
\<close>

definition words :: "string \<Rightarrow> string list" where
  "words s = filter (\<lambda>t. t \<noteq> []) (split_on SPACE s)"

lemma words_space: "words (SPACE # s) = words s"
  by (simp add: words_def)

lemma words_token: "SPACE \<notin> set t \<Longrightarrow> t \<noteq> [] \<Longrightarrow> words (t @ SPACE # s) = t # words s \<and> words t = [t]"
  by (simp add: words_def split_on_append split_on_notin)

lemma strtok_words: "case strtok s of None \<Rightarrow> words s = [] | Some (t, r) \<Rightarrow> words s = t # words r"
proof (induction s)
  case Nil
  then show ?case by (simp add: strtok_def words_def)
next
  case (Cons c s)
  show ?case
  proof (cases "c = SPACE")
    case True
    have "strtok (SPACE # s) = strtok s" by (simp add: strtok_def)
    then show ?thesis unfolding True using Cons by (simp only: words_space)
  next
    case False
    show ?thesis
    proof (cases "SPACE \<in> set s")
      case True
      then obtain u v where s: "s = u @ SPACE # v" "SPACE \<notin> set u" by (meson split_list_first)
      have all: "x \<noteq> SPACE" if "x \<in> set u" for x using s(2) that by blast
      have "strtok (c # s) = Some (c # u, v)" using False all by (simp add: strtok_def Let_def s(1) takeWhile_append2 dropWhile_append2)
      then show ?thesis using words_token [of "c # u" v] s False by simp
    next
      case no: False
      have "takeWhile (\<lambda>c. c \<noteq> SPACE) s = s" "dropWhile (\<lambda>c. c \<noteq> SPACE) s = []"
        using no by (simp_all only: takeWhile_eq_all_conv dropWhile_eq_Nil_conv) blast+
      moreover have "strtok (c # s) = Some (c # takeWhile (\<lambda>c. c \<noteq> SPACE) s, tl (dropWhile (\<lambda>c. c \<noteq> SPACE) s))"
        using False by (simp add: strtok_def Let_def)
      ultimately have "strtok (c # s) = Some (c # s, [])" by (simp only: list.sel)
      then show ?thesis using words_token [of "c # s"] no False by (simp add: words_def)
    qed
  qed
qed

lemma read_args_words:
  "read_args i s = (if i \<le> length (words s) then Inr (take i (words s)) else Inl Null_Pointer)"
proof (induction i arbitrary: s)
  case (Suc i)
  show ?case
  proof (cases "strtok s")
    case None
    then show ?thesis using strtok_words [of s] by simp
  next
    case (Some x)
    obtain t r where x: "x = (t, r)" by (cases x)
    then have "words s = t # words r" using strtok_words [of s] Some by simp
    then show ?thesis using Some x Suc by (simp add: malloc_copy_def)
  qed
qed simp

lemma countArgNum_split: "Suc (countArgNum s) = length (split_on SPACE s)"
  by (induction s) (auto split: list.splits)

lemma words_full: "length (words s) = length (split_on SPACE s) \<longleftrightarrow> [] \<notin> set (split_on SPACE s)"
proof
  assume len: "length (words s) = length (split_on SPACE s)"
  show "[] \<notin> set (split_on SPACE s)"
  proof
    assume "[] \<in> set (split_on SPACE s)"
    then show False using length_filter_less [of "[]" "split_on SPACE s" "\<lambda>t. t \<noteq> []"] len by (simp add: words_def)
  qed
next
  assume "[] \<notin> set (split_on SPACE s)"
  then have "words s = split_on SPACE s" unfolding words_def by (simp only: filter_id_conv) blast
  then show "length (words s) = length (split_on SPACE s)" by simp
qed

lemma prompting_fields:
  assumes p: "pin p = line @ NL @ rest" "cstring line" "CHR 0x0A \<notin> set line" "length line + 1 < BUFFERSIZE"
    and w: "words line = t # ts" "t \<in> set inst_list" and fk: "fk (length (execs p))"
  shows "prompting fk p =
    (if [] \<in> set (split_on SPACE line) then Inl (PUndef Null_Pointer)
     else Inr (True, p\<lparr>pin := rest, pbuf := strtok_head line, pout := pout p @ ''> '',
       execs := execs p @ [(t, t # ts)]\<rparr>))"
proof -
  have t: "1 < length t" "cstring t" using w(2) by (auto simp: inst_list_def cstring_def NUL_def)
  let ?q = "p\<lparr>pout := pout p @ ''> ''\<rparr>"
  have fg: "fgets ?q = ?q\<lparr>pbuf := line @ NL, pin := rest\<rparr>"
    using fgets_reads [of ?q, OF _ p(2-4)] p(1) by simp
  obtain r where r: "strtok line = Some (t, r)" "words r = ts"
    using strtok_words [of line] w(1) by (auto split: option.splits)
  have "words ''exit'' = [''exit'']" by (simp add: words_def)
  then have ne: "line \<noteq> []" "line \<noteq> ''exit''" using w by (auto simp: words_def inst_list_def)
  have ex: "cstring ''exit''" by (simp add: cstring_def NUL_def)
  have chk: "inst_checking t" using inst_checking_iff [OF t(2)] w(2) by simp
  have m0: "malloc_copy ((length t - 1) * 8) t = Inr t" using t(1) by (simp add: malloc_copy_def)
  have bl: "butlast (line @ NL) = line" by (simp add: NL_def butlast_append)
  have le: "length (words line) \<le> length (split_on SPACE line)" by (simp add: words_def)
  have "Suc (countArgNum line) \<le> length (words line) \<longleftrightarrow> [] \<notin> set (split_on SPACE line)"
    using words_full [of line] le unfolding countArgNum_split by linarith
  then have ra: "read_args (countArgNum line) r =
      (if [] \<in> set (split_on SPACE line) then Inl Null_Pointer else Inr ts)"
    using le w(1) r(2) countArgNum_split [of line] by (auto simp: read_args_words)
  show ?thesis unfolding prompting_def fg Let_def
    using ne strcmp_eq [OF p(2) ex] r(1) chk m0 ra fk by (simp add: bl)
qed

lemma split_unwords: "ts \<noteq> [] \<Longrightarrow> \<forall>t \<in> set ts. word t \<Longrightarrow> split_on SPACE (unwords ts) = ts"
  by (induction ts rule: unwords.induct) (auto simp: word_def split_on_append split_on_notin)

lemma strtok_head_word:
  assumes "word t"
  shows "strtok_head (unwords (t # ts)) = t"
proof -
  obtain c t' where t: "t = c # t'" "c \<noteq> SPACE" using assms by (cases t) (auto simp: word_def)
  have all: "x \<noteq> SPACE" if "x \<in> set t'" for x using assms t(1) that by (auto simp: word_def)
  then have "takeWhile (\<lambda>c. c \<noteq> SPACE) t' = t'" by (simp only: takeWhile_eq_all_conv) blast
  then show ?thesis using t all by (cases ts) (simp_all add: strtok_head_def takeWhile_append2)
qed

section \<open>Whole sessions\<close>

definition command :: "string list \<Rightarrow> bool" where
  "command ts \<longleftrightarrow> ts \<noteq> [] \<and> hd ts \<in> set inst_list \<and> (\<forall>t \<in> set ts. word t)
     \<and> length (unwords ts) + 1 < BUFFERSIZE"

text \<open>C12: a session of well-formed command lines followed by \<open>exit\<close> starts exactly those programs in that order, each with the whole split line as its argument vector, and then the prompt ends with status 0.\<close>
theorem prompt_session:
  assumes "\<forall>ts \<in> set cs. command ts" "\<forall>n. fk n"
    and "pin p = concat (map (\<lambda>ts. unwords ts @ NL) cs) @ ''exit'' @ NL @ rest"
  shows "\<exists>p'. prompt_main fk p = PExit 0 p' \<and> execs p' = execs p @ map (\<lambda>ts. (hd ts, ts)) cs \<and>
    pin p' = rest \<and> perr p' = perr p"
  using assms(1,3)
proof (induction cs arbitrary: p)
  case Nil
  then show ?case using prompting_exit [of p rest fk] by (simp add: prompt_main.simps [of fk p])
next
  case (Cons ts cs)
  obtain t us where ts: "ts = t # us" using Cons.prems(1) by (cases ts) (auto simp: command_def)
  let ?rest = "concat (map (\<lambda>ts. unwords ts @ NL) cs) @ ''exit'' @ NL @ rest"
  let ?p = "p\<lparr>pin := ?rest, pbuf := t, pout := pout p @ ''> '', execs := execs p @ [(t, t # us)]\<rparr>"
  have c: "\<forall>u \<in> set (t # us). word u" "t \<in> set inst_list" "length (unwords (t # us)) + 1 < BUFFERSIZE"
    using Cons.prems(1) ts by (auto simp: command_def)
  have split: "split_on SPACE (unwords (t # us)) = t # us" using split_unwords [OF _ c(1)] by simp
  moreover have ne: "[] \<notin> set (t # us)" using c(1) by (auto simp: word_def)
  ultimately have words: "words (unwords (t # us)) = t # us" unfolding words_def by (simp only: filter_id_conv) blast
  have "strtok_head (unwords (t # us)) = t" using strtok_head_word [of t us] c(1) by auto
  then have "prompting fk p = Inr (True, ?p)"
    using prompting_fields [OF _ _ _ c(3) words c(2), of p ?rest fk] unwords_chars [OF c(1)] Cons.prems(2)
      split ne assms(2) ts by simp
  moreover have "\<exists>p'. prompt_main fk ?p = PExit 0 p' \<and>
      execs p' = execs ?p @ map (\<lambda>ts. (hd ts, ts)) cs \<and> pin p' = rest \<and> perr p' = perr ?p"
    using Cons.prems(1) by (intro Cons.IH) simp_all
  ultimately show ?case using ts by (auto simp: prompt_main.simps [of fk p])
qed

theorem prompt_session_witness:
  "\<exists>p'. prompt_main (\<lambda>n. True) \<lparr>pin = ''skin a b'' @ NL @ ''ls'' @ NL @ ''exit'' @ NL, pbuf = [], pout = [], perr = [], execs = []\<rparr> = PExit 0 p' \<and>
     execs p' = [(''skin'', [''skin'', ''a'', ''b'']), (''ls'', [''ls''])]"
proof -
  have "\<forall>ts \<in> set [[''skin'', ''a'', ''b''], [''ls'']]. command ts"
    by (simp add: command_def word_def inst_list_def cstring_def NUL_def)
  from prompt_session [OF this, of "\<lambda>n. True"
      "\<lparr>pin = ''skin a b'' @ NL @ ''ls'' @ NL @ ''exit'' @ NL, pbuf = [], pout = [], perr = [], execs = []\<rparr>" "[]"]
  show ?thesis by auto
qed

text \<open>C18: a line whose first word is a known instruction makes the prompt read through a null pointer exactly when it has an empty field, that is a leading, trailing or doubled space.\<close>
theorem prompting_empty_field:
  assumes "pin p = line @ NL @ rest" "cstring line" "CHR 0x0A \<notin> set line" "length line + 1 < BUFFERSIZE"
    and "words line = t # ts" "t \<in> set inst_list" "fk (length (execs p))"
  shows "prompting fk p = Inl (PUndef Null_Pointer) \<longleftrightarrow> [] \<in> set (split_on SPACE line)"
  using prompting_fields [of p line rest t ts fk] assms by simp

theorem prompting_empty_field_witness:
  "prompting (\<lambda>n. True) \<lparr>pin = ''ls '' @ NL, pbuf = [], pout = [], perr = [], execs = []\<rparr> = Inl (PUndef Null_Pointer)"
proof -
  have "prompting (\<lambda>n. True) \<lparr>pin = ''ls '' @ NL, pbuf = [], pout = [], perr = [], execs = []\<rparr> = Inl (PUndef Null_Pointer) \<longleftrightarrow>
      [] \<in> set (split_on SPACE ''ls '')"
    by (rule prompting_empty_field [where rest = "[]" and t = "''ls''" and ts = "[]"])
      (simp_all add: cstring_def NUL_def words_def inst_list_def)
  then show ?thesis by simp
qed

end
