(* ===== verification/KBase.thy ===== *)
theory KBase
  imports Prelude "HOL-Library.Monad_Syntax" "HOL-Library.Word"
begin

text \<open>
  What the models of the kernel sources share.  An object in memory is the list of its cells; a
  pointer into it is an index, and reading or writing outside the object is the value \<^const>\<open>None\<close>.
  A byte buffer handed to a string function is the list of the bytes from the pointer to the end
  of the object.  Kernel functions that return a negative error number return a value of
  \<open>errno\<close>.  The character classes are the table of \<^verbatim>\<open>lib/ctype.c\<close>; the macros that consult it
  (\<open>isspace\<close>, \<open>isxdigit\<close>, \<open>tolower\<close>, ...) are arguments of the functions that use them.
\<close>

type_synonym cbuf = "char list"

datatype errno = E2BIG | EINVAL | ENOENT | ENOMEM | ENOSPC | EPERM | EROFS | ERANGE | EFAULT

section \<open>Cells of an object\<close>

definition rd :: "'a list \<Rightarrow> nat \<Rightarrow> 'a option" where
  "rd xs i = (if i < length xs then Some (xs ! i) else None)"

definition wr :: "'a list \<Rightarrow> nat \<Rightarrow> 'a \<Rightarrow> 'a list option" where
  "wr xs i v = (if i < length xs then Some (xs[i := v]) else None)"

definition uc :: "char \<Rightarrow> int" where
  "uc c = int (of_char c)"

lemma rd_append [simp]: "rd (xs @ y # ys) (length xs) = Some y"
  by (simp add: rd_def)

lemma rd_left: "i < length xs \<Longrightarrow> rd (xs @ ys) i = Some (xs ! i)"
  by (simp add: rd_def nth_append)

lemma rd_0_Cons [simp]: "rd (x # xs) 0 = Some x"
  by (simp add: rd_def)

lemma rd_Suc_Cons [simp]: "rd (x # xs) (Suc i) = rd xs i"
  by (simp add: rd_def)

lemma rd_Nil [simp]: "rd [] i = None"
  by (simp add: rd_def)

lemma wr_append [simp]: "wr (xs @ y # ys) (length xs) v = Some (xs @ v # ys)"
  by (simp add: wr_def)

lemma wr_length: "wr xs i v = Some ys \<Longrightarrow> length ys = length xs"
  by (auto simp: wr_def split: if_splits)

lemma uc_eq [simp]: "uc a = uc b \<longleftrightarrow> a = b"
  by (simp add: uc_def)

lemma uc_less [simp]: "uc a < uc b \<longleftrightarrow> a < b"
  by (simp add: uc_def less_char_def)

lemma uc_bounds: "0 \<le> uc c" "uc c < 256"
  by (simp_all add: uc_def nat_of_char_less_256)

lemma NUL_less: "c \<noteq> NUL \<Longrightarrow> NUL < c"
  using of_char_pos [of c] by (simp add: less_char_def NUL_def)

lemma not_less_NUL [simp]: "\<not> c < NUL"
  by (simp add: less_char_def NUL_def)

lemma cstring_split:
  assumes "NUL \<in> set b"
  obtains s r where "b = s @ NUL # r" "cstring s"
  using assms split_list_first [of NUL b] by (auto simp: cstring_def)

lemma cstring_unique:
  "cstring s \<Longrightarrow> cstring t \<Longrightarrow> s @ NUL # r = t @ NUL # q \<longleftrightarrow> s = t \<and> r = q"
proof (induction s arbitrary: t)
  case Nil
  then show ?case by (cases t) auto
next
  case (Cons a s)
  then show ?case by (cases t) auto
qed

definition cstr :: "cbuf \<Rightarrow> string" where
  "cstr b = takeWhile (\<lambda>c. c \<noteq> NUL) b"

lemma cstr_append [simp]: "cstring s \<Longrightarrow> cstr (s @ NUL # r) = s"
  by (induction s) (auto simp: cstr_def)

lemma cstring_cstr [simp]: "cstring (cstr b)"
  by (auto simp: cstr_def cstring_def dest: set_takeWhileD)

section \<open>Character classes\<close>

datatype cclass = CU | CL | CD | CC | CP | CS | CX | CSP

definition ctype_tab :: "cclass list list" where
  "ctype_tab =
   [[CC], [CC], [CC], [CC], [CC], [CC], [CC], [CC]] @
   [[CC], [CC, CS], [CC, CS], [CC, CS], [CC, CS], [CC, CS], [CC], [CC]] @
   [[CC], [CC], [CC], [CC], [CC], [CC], [CC], [CC]] @
   [[CC], [CC], [CC], [CC], [CC], [CC], [CC], [CC]] @
   [[CS, CSP], [CP], [CP], [CP], [CP], [CP], [CP], [CP]] @
   [[CP], [CP], [CP], [CP], [CP], [CP], [CP], [CP]] @
   [[CD], [CD], [CD], [CD], [CD], [CD], [CD], [CD]] @
   [[CD], [CD], [CP], [CP], [CP], [CP], [CP], [CP]] @
   [[CP], [CU, CX], [CU, CX], [CU, CX], [CU, CX], [CU, CX], [CU, CX], [CU]] @
   [[CU], [CU], [CU], [CU], [CU], [CU], [CU], [CU]] @
   [[CU], [CU], [CU], [CU], [CU], [CU], [CU], [CU]] @
   [[CU], [CU], [CU], [CP], [CP], [CP], [CP], [CP]] @
   [[CP], [CL, CX], [CL, CX], [CL, CX], [CL, CX], [CL, CX], [CL, CX], [CL]] @
   [[CL], [CL], [CL], [CL], [CL], [CL], [CL], [CL]] @
   [[CL], [CL], [CL], [CL], [CL], [CL], [CL], [CL]] @
   [[CL], [CL], [CL], [CP], [CP], [CP], [CP], [CC]] @
   [[], [], [], [], [], [], [], [], [], [], [], [], [], [], [], []] @
   [[], [], [], [], [], [], [], [], [], [], [], [], [], [], [], []] @
   [[CS, CSP], [CP], [CP], [CP], [CP], [CP], [CP], [CP], [CP], [CP], [CP], [CP], [CP], [CP], [CP], [CP]] @
   [[CP], [CP], [CP], [CP], [CP], [CP], [CP], [CP], [CP], [CP], [CP], [CP], [CP], [CP], [CP], [CP]] @
   [[CU], [CU], [CU], [CU], [CU], [CU], [CU], [CU], [CU], [CU], [CU], [CU], [CU], [CU], [CU], [CU]] @
   [[CU], [CU], [CU], [CU], [CU], [CU], [CU], [CP], [CU], [CU], [CU], [CU], [CU], [CU], [CU], [CL]] @
   [[CL], [CL], [CL], [CL], [CL], [CL], [CL], [CL], [CL], [CL], [CL], [CL], [CL], [CL], [CL], [CL]] @
   [[CL], [CL], [CL], [CL], [CL], [CL], [CL], [CP], [CL], [CL], [CL], [CL], [CL], [CL], [CL], [CL]]"

definition ctest :: "cclass \<Rightarrow> char \<Rightarrow> bool" where
  "ctest k c \<longleftrightarrow> k \<in> set (ctype_tab ! of_char c)"

text \<open>
  The macros of \<^verbatim>\<open>ctype.h\<close>, as the callers rely on them: each class test reads one flag of
  the table, and \<open>tolower\<close> moves the letters the table marks as upper case down by the distance
  between the two cases.
\<close>
locale ctype_macros =
  fixes isspace isxdigit isdigit isupper :: "char \<Rightarrow> bool" and tolower :: "char \<Rightarrow> char"
  assumes isspace: "isspace c \<longleftrightarrow> ctest CS c"
    and isdigit: "isdigit c \<longleftrightarrow> ctest CD c"
    and isxdigit: "isxdigit c \<longleftrightarrow> ctest CD c \<or> ctest CX c"
    and isupper: "isupper c \<longleftrightarrow> ctest CU c"
    and tolower: "tolower c = (if isupper c then char_of (of_char c + 32 :: nat) else c)"
begin

lemma isspace_NUL [simp]: "\<not> isspace NUL"
  by (simp add: isspace ctest_def NUL_def ctype_tab_def)

lemma tolower_NUL [simp]: "tolower NUL = NUL"
  by (simp add: tolower isupper ctest_def NUL_def ctype_tab_def)

end

definition ctolower :: "char \<Rightarrow> char" where
  "ctolower c = (if ctest CU c then char_of (of_char c + 32 :: nat) else c)"

interpretation ctab: ctype_macros "ctest CS" "\<lambda>c. ctest CD c \<or> ctest CX c" "ctest CD"
  "ctest CU" ctolower
  by unfold_locales (auto simp: ctolower_def)

end
