(* ===== verification/KString.thy ===== *)
theory KString
  imports KBase
begin

text \<open>
  The string routines of \<^verbatim>\<open>lib/string.c\<close>.  A buffer argument is the list of the bytes from the
  pointer to the end of the object it points into, so a loop that runs past the object is the
  value \<^const>\<open>None\<close> (for the functions that return a pointer or NULL the inner option is the
  pointer, as an offset).  Buffers that are written are returned changed.  The lemmas give the
  result of each routine on a terminated string, in terms of the string alone; the routines with
  a word-at-a-time fast path are in \<open>KWords\<close>.
\<close>

section \<open>Lengths and searches\<close>

fun strlen :: "cbuf \<Rightarrow> nat option" where
  "strlen [] = None"
| "strlen (c # s) = (if c \<noteq> NUL then map_option Suc (strlen s) else Some 0)"

fun strnlen :: "cbuf \<Rightarrow> nat \<Rightarrow> nat option" where
  "strnlen s 0 = Some 0"
| "strnlen [] (Suc n) = None"
| "strnlen (c # s) (Suc n) = (if c \<noteq> NUL then map_option Suc (strnlen s n) else Some 0)"

fun strchr :: "cbuf \<Rightarrow> char \<Rightarrow> nat option option" where
  "strchr [] c = None"
| "strchr (x # s) c =
     (if x \<noteq> c then (if x = NUL then Some None else map_option (map_option Suc) (strchr s c))
      else Some (Some 0))"

fun strchrnul :: "cbuf \<Rightarrow> char \<Rightarrow> nat option" where
  "strchrnul [] c = None"
| "strchrnul (x # s) c = (if x \<noteq> NUL \<and> x \<noteq> c then map_option Suc (strchrnul s c) else Some 0)"

fun strrchr_from :: "cbuf \<Rightarrow> char \<Rightarrow> nat \<Rightarrow> nat option \<Rightarrow> nat option option" where
  "strrchr_from [] c i lst = None"
| "strrchr_from (x # s) c i lst =
     (let lst' = (if x = c then Some i else lst)
      in if x \<noteq> NUL then strrchr_from s c (Suc i) lst' else Some lst')"

definition kstrrchr :: "cbuf \<Rightarrow> char \<Rightarrow> nat option option" where
  "kstrrchr s c = strrchr_from s c 0 None"

fun strnchr :: "cbuf \<Rightarrow> nat \<Rightarrow> char \<Rightarrow> nat option option" where
  "strnchr s 0 c = Some None"
| "strnchr [] (Suc n) c = None"
| "strnchr (x # s) (Suc n) c =
     (if x = c then Some (Some 0) else if x = NUL then Some None
      else map_option (map_option Suc) (strnchr s n c))"

fun skip_spaces :: "(char \<Rightarrow> bool) \<Rightarrow> cbuf \<Rightarrow> nat option" where
  "skip_spaces isspace [] = None"
| "skip_spaces isspace (c # s) =
     (if isspace c then map_option Suc (skip_spaces isspace s) else Some 0)"

fun strim_end :: "(char \<Rightarrow> bool) \<Rightarrow> cbuf \<Rightarrow> nat \<Rightarrow> nat" where
  "strim_end isspace s 0 = 0"
| "strim_end isspace s (Suc k) = (if isspace (s ! k) then strim_end isspace s k else Suc k)"

definition strim :: "(char \<Rightarrow> bool) \<Rightarrow> cbuf \<Rightarrow> (cbuf \<times> nat) option" where
  "strim isspace s = do {
     size \<leftarrow> strlen s;
     if size = 0 then Some (s, 0)
     else do {
       s' \<leftarrow> wr s (strim_end isspace s size) NUL;
       p \<leftarrow> skip_spaces isspace s';
       Some (s', p)
     }
   }"

section \<open>Comparison\<close>

fun strncasecmp :: "(char \<Rightarrow> char) \<Rightarrow> cbuf \<Rightarrow> cbuf \<Rightarrow> nat \<Rightarrow> int option" where
  "strncasecmp tolower s1 s2 0 = Some 0"
| "strncasecmp tolower (c1 # s1) (c2 # s2) (Suc len) =
     (if c1 = NUL \<or> c2 = NUL then Some (uc c1 - uc c2)
      else if c1 = c2 then (if len = 0 then Some (uc c1 - uc c2) else strncasecmp tolower s1 s2 len)
      else if tolower c1 \<noteq> tolower c2 then Some (uc (tolower c1) - uc (tolower c2))
      else if len = 0 then Some (uc (tolower c1) - uc (tolower c2))
      else strncasecmp tolower s1 s2 len)"
| "strncasecmp tolower s1 s2 (Suc len) = None"

fun strcasecmp :: "(char \<Rightarrow> char) \<Rightarrow> cbuf \<Rightarrow> cbuf \<Rightarrow> int option" where
  "strcasecmp tolower (a # s1) (b # s2) =
     (if tolower a = tolower b \<and> tolower a \<noteq> NUL then strcasecmp tolower s1 s2
      else Some (uc (tolower a) - uc (tolower b)))"
| "strcasecmp tolower s1 s2 = None"

fun kstrcmp :: "cbuf \<Rightarrow> cbuf \<Rightarrow> int option" where
  "kstrcmp (c1 # cs) (c2 # ct) =
     (if c1 \<noteq> c2 then Some (if c1 < c2 then - 1 else 1)
      else if c1 = NUL then Some 0 else kstrcmp cs ct)"
| "kstrcmp cs ct = None"

fun strncmp :: "cbuf \<Rightarrow> cbuf \<Rightarrow> nat \<Rightarrow> int option" where
  "strncmp cs ct 0 = Some 0"
| "strncmp (c1 # cs) (c2 # ct) (Suc n) =
     (if c1 \<noteq> c2 then Some (if c1 < c2 then - 1 else 1)
      else if c1 = NUL then Some 0 else strncmp cs ct n)"
| "strncmp cs ct (Suc n) = None"

fun memcmp :: "cbuf \<Rightarrow> cbuf \<Rightarrow> nat \<Rightarrow> int option" where
  "memcmp cs ct 0 = Some 0"
| "memcmp (a # cs) (b # ct) (Suc n) = (if uc a - uc b \<noteq> 0 then Some (uc a - uc b) else memcmp cs ct n)"
| "memcmp cs ct (Suc n) = None"

definition bcmp :: "cbuf \<Rightarrow> cbuf \<Rightarrow> nat \<Rightarrow> int option" where
  "bcmp a b len = memcmp a b len"

fun sysfs_streq :: "cbuf \<Rightarrow> cbuf \<Rightarrow> bool option" where
  "sysfs_streq (a # s1) (b # s2) =
     (if a \<noteq> NUL \<and> a = b then sysfs_streq s1 s2
      else if a = b then Some True
      else do {
        t1 \<leftarrow> (if a = NUL \<and> b = CHR 0x0A then map_option (\<lambda>c. c = NUL) (rd s2 0) else Some False);
        if t1 then Some True
        else if a = CHR 0x0A then map_option (\<lambda>c. c = NUL \<and> b = NUL) (rd s1 0)
        else Some False
      })"
| "sysfs_streq s1 s2 = None"

fun match_from :: "(cbuf \<Rightarrow> cbuf \<Rightarrow> bool option) \<Rightarrow> nat \<Rightarrow> cbuf option list \<Rightarrow> nat \<Rightarrow> cbuf
    \<Rightarrow> (errno + nat) option" where
  "match_from eq i array 0 str = Some (Inl EINVAL)"
| "match_from eq i [] (Suc n) str = None"
| "match_from eq i (item # array) (Suc n) str =
     (case item of None \<Rightarrow> Some (Inl EINVAL)
      | Some s \<Rightarrow> do {
          e \<leftarrow> eq s str;
          if e then Some (Inr i) else match_from eq (Suc i) array n str
        })"

definition match_string :: "cbuf option list \<Rightarrow> nat \<Rightarrow> cbuf \<Rightarrow> (errno + nat) option" where
  "match_string = match_from (\<lambda>a b. map_option (\<lambda>r. r = 0) (kstrcmp a b)) 0"

definition sysfs_match_string :: "cbuf option list \<Rightarrow> nat \<Rightarrow> cbuf \<Rightarrow> (errno + nat) option" where
  "sysfs_match_string = match_from sysfs_streq 0"

section \<open>Copying\<close>

fun strcpy :: "cbuf \<Rightarrow> cbuf \<Rightarrow> cbuf option" where
  "strcpy (d # dest) (c # src) =
     (if c \<noteq> NUL then map_option (Cons c) (strcpy dest src) else Some (c # dest))"
| "strcpy dest src = None"

fun strncpy :: "cbuf \<Rightarrow> cbuf \<Rightarrow> nat \<Rightarrow> cbuf option" where
  "strncpy dest src 0 = Some dest"
| "strncpy (d # dest) (c # src) (Suc count) =
     map_option (Cons c) (strncpy dest (if c \<noteq> NUL then src else c # src) count)"
| "strncpy dest src (Suc count) = None"

fun memset :: "'a list \<Rightarrow> 'a \<Rightarrow> nat \<Rightarrow> 'a list option" where
  "memset xs c 0 = Some xs"
| "memset [] c (Suc count) = None"
| "memset (x # xs) c (Suc count) = map_option (Cons c) (memset xs c count)"

definition memset16 :: "16 word list \<Rightarrow> 16 word \<Rightarrow> nat \<Rightarrow> 16 word list option" where
  "memset16 s v count = memset s v count"

definition memset32 :: "32 word list \<Rightarrow> 32 word \<Rightarrow> nat \<Rightarrow> 32 word list option" where
  "memset32 s v count = memset s v count"

definition memset64 :: "64 word list \<Rightarrow> 64 word \<Rightarrow> nat \<Rightarrow> 64 word list option" where
  "memset64 s v count = memset s v count"

fun memcpy :: "cbuf \<Rightarrow> cbuf \<Rightarrow> nat \<Rightarrow> cbuf option" where
  "memcpy dest src 0 = Some dest"
| "memcpy (d # dest) (c # src) (Suc count) = map_option (Cons c) (memcpy dest src count)"
| "memcpy dest src (Suc count) = None"

definition strlcpy :: "cbuf \<Rightarrow> cbuf \<Rightarrow> nat \<Rightarrow> (cbuf \<times> nat) option" where
  "strlcpy dest src sz = do {
     ret \<leftarrow> strlen src;
     if sz \<noteq> 0 then do {
       let len = (if ret \<ge> sz then sz - 1 else ret);
       dest \<leftarrow> memcpy dest src len;
       dest \<leftarrow> wr dest len NUL;
       Some (dest, ret)
     } else Some (dest, ret)
   }"

fun strcat :: "cbuf \<Rightarrow> cbuf \<Rightarrow> cbuf option" where
  "strcat [] src = None"
| "strcat (d # dest) src =
     (if d \<noteq> NUL then map_option (Cons d) (strcat dest src) else strcpy (d # dest) src)"

fun strncat_copy :: "cbuf \<Rightarrow> cbuf \<Rightarrow> nat \<Rightarrow> cbuf option" where
  "strncat_copy (d # dest) (c # src) count =
     (if c \<noteq> NUL then
        (if count - 1 = 0 then map_option (Cons c) (wr dest 0 NUL)
         else map_option (Cons c) (strncat_copy dest src (count - 1)))
      else Some (c # dest))"
| "strncat_copy dest src count = None"

fun strncat_end :: "cbuf \<Rightarrow> cbuf \<Rightarrow> nat \<Rightarrow> cbuf option" where
  "strncat_end [] src count = None"
| "strncat_end (d # dest) src count =
     (if d \<noteq> NUL then map_option (Cons d) (strncat_end dest src count)
      else strncat_copy (d # dest) src count)"

definition strncat :: "cbuf \<Rightarrow> cbuf \<Rightarrow> nat \<Rightarrow> cbuf option" where
  "strncat dest src count = (if count \<noteq> 0 then strncat_end dest src count else Some dest)"

definition strlcat :: "cbuf \<Rightarrow> cbuf \<Rightarrow> nat \<Rightarrow> (cbuf \<times> nat) option" where
  "strlcat dest src count = do {
     dsize \<leftarrow> strlen dest;
     len \<leftarrow> strlen src;
     if dsize \<ge> count then None
     else do {
       let len' = (if len \<ge> count - dsize then count - dsize - 1 else len);
       tail \<leftarrow> memcpy (drop dsize dest) src len';
       tail \<leftarrow> wr tail len' NUL;
       Some (take dsize dest @ tail, dsize + len)
     }
   }"

section \<open>Spans and tokens\<close>

fun in_set :: "cbuf \<Rightarrow> char \<Rightarrow> bool option" where
  "in_set [] c = None"
| "in_set (a # s) c = (if a \<noteq> NUL then (if c = a then Some True else in_set s c) else Some False)"

fun strspn :: "cbuf \<Rightarrow> cbuf \<Rightarrow> nat option" where
  "strspn [] accept = None"
| "strspn (p # s) accept =
     (if p \<noteq> NUL then do {
        m \<leftarrow> in_set accept p;
        if m then map_option Suc (strspn s accept) else Some 0
      } else Some 0)"

fun strcspn :: "cbuf \<Rightarrow> cbuf \<Rightarrow> nat option" where
  "strcspn [] reject = None"
| "strcspn (p # s) reject =
     (if p \<noteq> NUL then do {
        m \<leftarrow> in_set reject p;
        if m then Some 0 else map_option Suc (strcspn s reject)
      } else Some 0)"

fun strpbrk :: "cbuf \<Rightarrow> cbuf \<Rightarrow> nat option option" where
  "strpbrk [] ct = None"
| "strpbrk (c # cs) ct =
     (if c \<noteq> NUL then do {
        m \<leftarrow> in_set ct c;
        if m then Some (Some 0) else map_option (map_option Suc) (strpbrk cs ct)
      } else Some None)"

definition strsep :: "cbuf \<Rightarrow> nat option \<Rightarrow> cbuf \<Rightarrow> (cbuf \<times> nat option \<times> nat option) option" where
  "strsep buf s ct =
     (case s of None \<Rightarrow> Some (buf, None, None)
      | Some sbegin \<Rightarrow> do {
          e \<leftarrow> strpbrk (drop sbegin buf) ct;
          (case e of None \<Rightarrow> Some (buf, Some sbegin, None)
           | Some k \<Rightarrow> do {
               buf' \<leftarrow> wr buf (sbegin + k) NUL;
               Some (buf', Some sbegin, Some (sbegin + k + 1))
             })
        })"

fun strreplace :: "cbuf \<Rightarrow> char \<Rightarrow> char \<Rightarrow> (cbuf \<times> nat) option" where
  "strreplace [] old new = None"
| "strreplace (c # s) old new =
     (if c \<noteq> NUL then
        map_option (\<lambda>(b, e). ((if c = old then new else c) # b, Suc e)) (strreplace s old new)
      else Some (c # s, 0))"

section \<open>Memory areas\<close>

fun move_up :: "cbuf \<Rightarrow> nat \<Rightarrow> nat \<Rightarrow> nat \<Rightarrow> cbuf option" where
  "move_up mem tmp s 0 = Some mem"
| "move_up mem tmp s (Suc count) = do {
     c \<leftarrow> rd mem s;
     mem' \<leftarrow> wr mem tmp c;
     move_up mem' (Suc tmp) (Suc s) count
   }"

fun move_down :: "cbuf \<Rightarrow> nat \<Rightarrow> nat \<Rightarrow> nat \<Rightarrow> cbuf option" where
  "move_down mem tmp s 0 = Some mem"
| "move_down mem tmp s (Suc count) = do {
     c \<leftarrow> rd mem (s - 1);
     mem' \<leftarrow> wr mem (tmp - 1) c;
     move_down mem' (tmp - 1) (s - 1) count
   }"

definition memmove :: "cbuf \<Rightarrow> nat \<Rightarrow> nat \<Rightarrow> nat \<Rightarrow> cbuf option" where
  "memmove mem dest src count =
     (if dest \<le> src then move_up mem dest src count
      else move_down mem (dest + count) (src + count) count)"

fun memscan :: "cbuf \<Rightarrow> char \<Rightarrow> nat \<Rightarrow> nat option" where
  "memscan addr c 0 = Some 0"
| "memscan [] c (Suc n) = None"
| "memscan (p # addr) c (Suc n) = (if p = c then Some 0 else map_option Suc (memscan addr c n))"

fun memchr :: "cbuf \<Rightarrow> char \<Rightarrow> nat \<Rightarrow> nat option option" where
  "memchr s c 0 = Some None"
| "memchr [] c (Suc n) = None"
| "memchr (p # s) c (Suc n) =
     (if c = p then Some (Some 0) else map_option (map_option Suc) (memchr s c n))"

function search_from :: "cbuf \<Rightarrow> cbuf \<Rightarrow> nat \<Rightarrow> nat \<Rightarrow> nat \<Rightarrow> nat option option" where
  "search_from s1 s2 l2 i l1 =
     (if l1 \<ge> l2 \<and> l2 \<noteq> 0 then do {
        r \<leftarrow> memcmp (drop i s1) s2 l2;
        if r = 0 then Some (Some i) else search_from s1 s2 l2 (Suc i) (l1 - 1)
      } else Some None)"
  by pat_completeness auto
termination by (relation "measure (\<lambda>(s1, s2, l2, i, l1). l1)") auto

declare search_from.simps [simp del]

definition kstrstr :: "cbuf \<Rightarrow> cbuf \<Rightarrow> nat option option" where
  "kstrstr s1 s2 = do {
     l2 \<leftarrow> strlen s2;
     if l2 = 0 then Some (Some 0)
     else do {
       l1 \<leftarrow> strlen s1;
       search_from s1 s2 l2 0 l1
     }
   }"

definition strnstr :: "cbuf \<Rightarrow> cbuf \<Rightarrow> nat \<Rightarrow> nat option option" where
  "strnstr s1 s2 len = do {
     l2 \<leftarrow> strlen s2;
     if l2 = 0 then Some (Some 0) else search_from s1 s2 l2 0 len
   }"

section \<open>What the searches return\<close>

lemma strlen_str [simp]: "cstring s \<Longrightarrow> strlen (s @ NUL # r) = Some (length s)"
  by (induction s) auto

lemma strlen_Some: "strlen b = Some n \<longleftrightarrow> (\<exists>s r. b = s @ NUL # r \<and> cstring s \<and> n = length s)"
proof
  show "\<exists>s r. b = s @ NUL # r \<and> cstring s \<and> n = length s" if "strlen b = Some n"
    using that
  proof (induction b arbitrary: n)
    case (Cons a b)
    show ?case
    proof (cases "a = NUL")
      case True
      then show ?thesis using Cons.prems by (auto intro: exI [of _ "[]"])
    next
      case False
      then obtain m where m: "strlen b = Some m" "n = Suc m" using Cons.prems by auto
      then obtain s r where "b = s @ NUL # r" "cstring s" "m = length s" using Cons.IH by blast
      then show ?thesis using m False by (intro exI [of _ "a # s"] exI [of _ r]) auto
    qed
  qed simp
qed auto

lemma strnlen_str: "cstring s \<Longrightarrow> strnlen (s @ NUL # r) n = Some (min n (length s))"
proof (induction s arbitrary: n)
  case Nil
  then show ?case by (cases n) auto
next
  case (Cons a s)
  then show ?case by (cases n) auto
qed

lemma strchr_str:
  "cstring s \<Longrightarrow> c \<noteq> NUL \<Longrightarrow>
     strchr (s @ NUL # r) c =
       Some (if c \<in> set s then Some (length (takeWhile (\<lambda>x. x \<noteq> c) s)) else None)"
  by (induction s) auto

lemma strchr_NUL: "cstring s \<Longrightarrow> strchr (s @ NUL # r) NUL = Some (Some (length s))"
  by (induction s) auto

lemma strchrnul_str:
  "cstring s \<Longrightarrow> strchrnul (s @ NUL # r) c = Some (length (takeWhile (\<lambda>x. x \<noteq> c) s))"
  by (induction s) auto

lemma strnchr_str:
  "cstring s \<Longrightarrow> c \<noteq> NUL \<Longrightarrow>
     strnchr (s @ NUL # r) n c =
       Some (if c \<in> set (take n s) then Some (length (takeWhile (\<lambda>x. x \<noteq> c) s)) else None)"
proof (induction s arbitrary: n)
  case Nil
  then show ?case by (cases n) auto
next
  case (Cons a s)
  then show ?case by (cases n) auto
qed

lemma strrchr_from_str:
  "cstring s \<Longrightarrow> c \<noteq> NUL \<Longrightarrow>
     strrchr_from (s @ NUL # r) c i lst =
       Some (case strrchr s c of Some k \<Rightarrow> Some (i + k) | None \<Rightarrow> lst)"
  by (induction s arbitrary: i lst) (auto simp: Let_def split: option.splits)

lemma kstrrchr_str: "cstring s \<Longrightarrow> c \<noteq> NUL \<Longrightarrow> kstrrchr (s @ NUL # r) c = Some (strrchr s c)"
  by (auto simp: kstrrchr_def strrchr_from_str split: option.splits)

lemma in_set_str: "cstring a \<Longrightarrow> in_set (a @ NUL # r) c = Some (c \<in> set a)"
  by (induction a) auto

lemma strspn_str:
  "cstring s \<Longrightarrow> cstring a \<Longrightarrow>
     strspn (s @ NUL # r) (a @ NUL # q) = Some (length (takeWhile (\<lambda>x. x \<in> set a) s))"
  by (induction s) (auto simp: in_set_str)

lemma strcspn_str:
  "cstring s \<Longrightarrow> cstring a \<Longrightarrow>
     strcspn (s @ NUL # r) (a @ NUL # q) = Some (length (takeWhile (\<lambda>x. x \<notin> set a) s))"
  by (induction s) (auto simp: in_set_str)

lemma strpbrk_str:
  "cstring s \<Longrightarrow> cstring a \<Longrightarrow>
     strpbrk (s @ NUL # r) (a @ NUL # q) =
       Some (if set s \<inter> set a = {} then None else Some (length (takeWhile (\<lambda>x. x \<notin> set a) s)))"
  by (induction s) (auto simp: in_set_str)

lemma memchr_area:
  "n \<le> length s \<Longrightarrow>
     memchr s c n =
       Some (if c \<in> set (take n s) then Some (length (takeWhile (\<lambda>x. x \<noteq> c) s)) else None)"
  by (induction s c n rule: memchr.induct) auto

lemma memscan_area:
  "n \<le> length s \<Longrightarrow> memscan s c n = Some (min n (length (takeWhile (\<lambda>x. x \<noteq> c) s)))"
  by (induction s c n rule: memscan.induct) auto

section \<open>What the comparisons return\<close>

lemma kstrcmp_str:
  "cstring s \<Longrightarrow> cstring t \<Longrightarrow> kstrcmp (s @ NUL # r) (t @ NUL # q) = Some (sgn (strcmp s t))"
proof (induction s t rule: strcmp.induct)
  case (2 b bs)
  then show ?case using of_char_pos [of b] NUL_less [of b] by auto
next
  case (3 a as)
  then show ?case using of_char_pos [of a] by (auto simp: sgn_if)
next
  case (4 a as b bs)
  then show ?case by (auto simp: less_char_def sgn_if)
qed auto

lemma kstrcmp_zero:
  "cstring s \<Longrightarrow> cstring t \<Longrightarrow> kstrcmp (s @ NUL # r) (t @ NUL # q) = Some 0 \<longleftrightarrow> s = t"
  by (simp add: kstrcmp_str sgn_eq_0_iff)

lemma strncmp_str:
  "cstring s \<Longrightarrow> cstring t \<Longrightarrow>
     strncmp (s @ NUL # r) (t @ NUL # q) n = Some (sgn (strcmp (take n s) (take n t)))"
proof (induction s t arbitrary: n rule: strcmp.induct)
  case (1 n)
  then show ?case by (cases n) auto
next
  case (2 b bs)
  then show ?case using of_char_pos [of b] NUL_less [of b] by (cases n) auto
next
  case (3 a as)
  then show ?case using of_char_pos [of a] by (cases n) (auto simp: sgn_if)
next
  case (4 a as b bs)
  then show ?case by (cases n) (auto simp: less_char_def sgn_if)
qed

lemma memcmp_zero:
  "n \<le> length a \<Longrightarrow> n \<le> length b \<Longrightarrow> memcmp a b n = Some 0 \<longleftrightarrow> take n a = take n b"
  by (induction a b n rule: memcmp.induct) auto

lemma memcmp_returns:
  "n \<le> length a \<Longrightarrow> n \<le> length b \<Longrightarrow> \<exists>r. memcmp a b n = Some r"
  by (induction a b n rule: memcmp.induct) auto

lemma NUL_neq_newline [simp]: "NUL \<noteq> CHR 0x0A" "CHR 0x0A \<noteq> NUL"
  by (simp_all add: NUL_def)

lemma sysfs_streq_str:
  "cstring s \<Longrightarrow> cstring t \<Longrightarrow>
     sysfs_streq (s @ NUL # r) (t @ NUL # q) =
       Some (s = t \<or> s @ NL = t \<or> s = t @ NL)"
proof (induction s t rule: strcmp.induct)
  case (2 b bs)
  then show ?case by (cases bs) (auto simp: NL_def)
next
  case (3 a as)
  then show ?case by (cases as) (auto simp: NL_def)
next
  case (4 a as b bs)
  show ?case
  proof (cases "a = b")
    case True
    then show ?thesis using 4 by simp
  next
    case False
    then show ?thesis using 4 by (cases as) (auto simp: NL_def)
  qed
qed (auto simp: NL_def)

lemma match_from_found:
  assumes "\<And>s. s \<in> set items \<Longrightarrow> \<exists>b. eq s str = Some b"
    and "n \<le> length items"
  shows "match_from eq i (map Some items) n str =
    Some (case find (\<lambda>k. eq (items ! k) str = Some True) [0..<n] of
            None \<Rightarrow> Inl EINVAL | Some k \<Rightarrow> Inr (i + k))"
  using assms
proof (induction items arbitrary: i n)
  case Nil
  then show ?case by simp
next
  case (Cons x items)
  show ?case
  proof (cases n)
    case (Suc m)
    have u: "[0..<n] = 0 # map Suc [0..<m]" by (simp add: Suc map_Suc_upt upt_conv_Cons del: upt_Suc)
    have f: "find P (map Suc xs) = map_option Suc (find (P \<circ> Suc) xs)" for P xs
      by (induction xs) auto
    obtain b where b: "eq x str = Some b" using Cons.prems(1) by auto
    have g: "find (\<lambda>k. eq ((x # items) ! k) str = Some True) [0..<n] =
      (if b then Some 0 else map_option Suc (find (\<lambda>k. eq (items ! k) str = Some True) [0..<m]))"
      unfolding u by (simp add: f comp_def b)
    show ?thesis using Cons.IH [of m "Suc i"] Cons.prems
      unfolding g by (auto simp: Suc b split: option.splits)
  qed simp
qed

lemma wr_drop:
  "length xs = k \<Longrightarrow> k < length ys \<Longrightarrow> wr (xs @ drop k ys) k v = Some (xs @ v # drop (Suc k) ys)"
  by (auto simp: wr_def list_update_append simp flip: Cons_nth_drop_Suc)

section \<open>What the copies leave\<close>

lemma strcpy_str:
  "cstring s \<Longrightarrow> length s < length dest \<Longrightarrow>
     strcpy dest (s @ NUL # r) = Some (s @ NUL # drop (Suc (length s)) dest)"
proof (induction s arbitrary: dest)
  case Nil
  then show ?case by (cases dest) auto
next
  case (Cons a s)
  then show ?case by (cases dest) auto
qed

lemma strcpy_overflow: "cstring s \<Longrightarrow> length dest \<le> length s \<Longrightarrow> strcpy dest (s @ NUL # r) = None"
proof (induction s arbitrary: dest)
  case (Cons a s)
  then show ?case by (cases dest) auto
qed simp

lemma memset_area: "n \<le> length xs \<Longrightarrow> memset xs c n = Some (replicate n c @ drop n xs)"
  by (induction xs c n rule: memset.induct) auto

lemma memset_fault: "length xs < n \<Longrightarrow> memset xs c n = None"
  by (induction xs c n rule: memset.induct) auto

lemma memcpy_area:
  "n \<le> length dest \<Longrightarrow> n \<le> length src \<Longrightarrow> memcpy dest src n = Some (take n src @ drop n dest)"
  by (induction dest src n rule: memcpy.induct) auto

lemma strncpy_NUL: "n \<le> length dest \<Longrightarrow> strncpy dest (NUL # r) n = Some (replicate n NUL @ drop n dest)"
proof (induction n arbitrary: dest)
  case (Suc n)
  then show ?case by (cases dest) auto
qed simp

lemma strncpy_str:
  "cstring s \<Longrightarrow> n \<le> length dest \<Longrightarrow>
     strncpy dest (s @ NUL # r) n =
       Some (take n s @ replicate (n - length s) NUL @ drop n dest)"
proof (induction s arbitrary: dest n)
  case Nil
  then show ?case by (simp add: strncpy_NUL)
next
  case (Cons a s)
  then show ?case by (cases n; cases dest) auto
qed

lemma strlcpy_str:
  assumes "cstring s" "0 < n" "n \<le> length dest"
  shows "strlcpy dest (s @ NUL # r) n =
    Some (take (n - 1) s @ NUL # drop (Suc (min (n - 1) (length s))) dest, length s)"
proof -
  let ?len = "min (n - 1) (length s)"
  have l: "(if n \<le> length s then n - 1 else length s) = ?len" by (simp add: min_def) linarith
  have "memcpy dest (s @ NUL # r) ?len = Some (take ?len s @ drop ?len dest)"
    using assms by (subst memcpy_area) (auto simp: min_def)
  moreover have "wr (take ?len s @ drop ?len dest) ?len NUL =
      Some (take ?len s @ NUL # drop (Suc ?len) dest)"
    using assms by (intro wr_drop) auto
  ultimately show ?thesis using assms unfolding strlcpy_def
    by (simp add: l Let_def) (simp add: min_def take_all_iff Let_def)
qed

lemma strlcpy_zero: "cstring s \<Longrightarrow> strlcpy dest (s @ NUL # r) 0 = Some (dest, length s)"
  by (simp add: strlcpy_def)

lemma strcat_str:
  "cstring d \<Longrightarrow> cstring s \<Longrightarrow> length s \<le> length q \<Longrightarrow>
     strcat (d @ NUL # q) (s @ NUL # r) = Some (d @ s @ NUL # drop (length s) q)"
  by (induction d) (auto simp: strcpy_str)

lemma strncat_copy_str:
  "cstring s \<Longrightarrow> 0 < n \<Longrightarrow> min n (length s) < length dest \<Longrightarrow>
     strncat_copy dest (s @ NUL # r) n =
       Some (take n s @ NUL # drop (Suc (min n (length s))) dest)"
proof (induction s arbitrary: n dest)
  case Nil
  then show ?case by (cases dest) auto
next
  case (Cons a s)
  obtain d ds where dest: "dest = d # ds" using Cons.prems by (cases dest) auto
  show ?case
  proof (cases "n = 1")
    case True
    then show ?thesis using Cons.prems dest by (cases ds) (auto simp: wr_def)
  next
    case False
    then obtain m where "n = Suc m" "0 < m" using Cons.prems by (cases n) auto
    then show ?thesis using Cons.prems Cons.IH [of m ds] dest by simp
  qed
qed

lemma strncat_str:
  assumes "cstring d" "cstring s" "min n (length s) \<le> length q"
  shows "strncat (d @ NUL # q) (s @ NUL # r) n =
    Some (if n = 0 then d @ NUL # q
          else d @ take n s @ NUL # drop (min n (length s)) q)"
proof -
  have "strncat_end (d @ NUL # q) (s @ NUL # r) n =
      map_option (\<lambda>x. d @ x) (strncat_copy (NUL # q) (s @ NUL # r) n)"
    using assms(1) by (induction d; cases "strncat_copy (NUL # q) (s @ NUL # r) n") auto
  then show ?thesis using assms by (simp add: strncat_def strncat_copy_str)
qed

lemma strlcat_str:
  assumes "cstring d" "cstring s" "length d < n" "n \<le> length d + Suc (length q)"
  shows "strlcat (d @ NUL # q) (s @ NUL # r) n =
    Some (d @ take (n - length d - 1) s @ NUL # drop (min (n - length d - 1) (length s)) q,
      length d + length s)"
proof -
  let ?len = "min (n - length d - 1) (length s)"
  have l: "(if n - length d \<le> length s then n - length d - 1 else length s) = ?len"
    by (simp add: min_def) linarith
  have "memcpy (NUL # q) (s @ NUL # r) ?len = Some (take ?len s @ drop ?len (NUL # q))"
    using assms by (subst memcpy_area) (auto simp: min_def)
  moreover have "wr (take ?len s @ drop ?len (NUL # q)) ?len NUL =
      Some (take ?len s @ NUL # drop (Suc ?len) (NUL # q))"
    using assms by (intro wr_drop) auto
  moreover have "take ?len s = take (n - length d - 1) s" by (simp add: min_def)
  ultimately show ?thesis using assms unfolding strlcat_def by (simp add: l)
qed

lemma strlcat_bug: "cstring d \<Longrightarrow> n \<le> length d \<Longrightarrow> strlcat (d @ NUL # q) src n = None"
  by (cases "strlen src") (simp_all add: strlcat_def)

lemma strreplace_str:
  "cstring s \<Longrightarrow>
     strreplace (s @ NUL # r) old new = Some (map (\<lambda>c. if c = old then new else c) s @ NUL # r, length s)"
  by (induction s) auto

lemma skip_spaces_str:
  "\<not> isspace NUL \<Longrightarrow>
     skip_spaces isspace (s @ NUL # r) = Some (length (takeWhile isspace s))"
  by (induction s) auto

section \<open>Overlapping moves\<close>

lemma move_up_area:
  "d \<le> s \<Longrightarrow> s + n \<le> length mem \<Longrightarrow>
     move_up mem d s n = Some (take d mem @ take n (drop s mem) @ drop (d + n) mem)"
proof (induction n arbitrary: mem d s)
  case (Suc n)
  let ?m = "mem[d := mem ! s]"
  have "move_up mem d s (Suc n) = move_up ?m (Suc d) (Suc s) n"
    using Suc.prems by (simp add: rd_def wr_def)
  also have "\<dots> = Some (take (Suc d) ?m @ take n (drop (Suc s) ?m) @ drop (Suc d + n) ?m)"
    using Suc.prems by (intro Suc.IH) auto
  also have "take (Suc d) ?m = take d mem @ [mem ! s]"
    using Suc.prems by (simp add: take_Suc_conv_app_nth)
  also have "drop (Suc s) ?m = drop (Suc s) mem" using Suc.prems by simp
  also have "drop (Suc d + n) ?m = drop (Suc d + n) mem" by simp
  finally show ?case using Suc.prems
    by (simp add: Cons_nth_drop_Suc [symmetric, of s mem])
qed simp

lemma move_down_area:
  "s \<le> d \<Longrightarrow> d + n \<le> length mem \<Longrightarrow>
     move_down mem (d + n) (s + n) n = Some (take d mem @ take n (drop s mem) @ drop (d + n) mem)"
proof (induction n arbitrary: mem)
  case (Suc n)
  let ?m = "mem[d + n := mem ! (s + n)]"
  have "move_down mem (d + Suc n) (s + Suc n) (Suc n) = move_down ?m (d + n) (s + n) n"
    using Suc.prems by (simp add: rd_def wr_def)
  also have "\<dots> = Some (take d ?m @ take n (drop s ?m) @ drop (d + n) ?m)"
    using Suc.prems by (intro Suc.IH) auto
  also have "take d ?m = take d mem" by simp
  also have "take n (drop s ?m) = take n (drop s mem)"
    using Suc.prems by (simp add: take_drop)
  also have "drop (d + n) ?m = mem ! (s + n) # drop (d + Suc n) mem"
    using Suc.prems by (simp add: drop_update_swap flip: Cons_nth_drop_Suc)
  also have "take n (drop s mem) @ mem ! (s + n) # drop (d + Suc n) mem =
      take (Suc n) (drop s mem) @ drop (d + Suc n) mem"
    using Suc.prems by (simp add: take_Suc_conv_app_nth)
  finally show ?case by simp
qed simp

section \<open>Substring search\<close>

lemma prefix_take_drop: "prefix t (drop i s) \<longleftrightarrow> take (length t) (drop i s) = t"
  by (metis append_eq_conv_conj append_take_drop_id prefix_def)

lemma search_from_str:
  "cstring t \<Longrightarrow> t \<noteq> [] \<Longrightarrow> i + l1 = length s \<Longrightarrow>
     search_from (s @ NUL # r) (t @ NUL # q) (length t) i l1 =
       Some (map_option (\<lambda>k. i + k) (strstr (drop i s) t))"
proof (induction l1 arbitrary: i)
  case 0
  then show ?case by (subst search_from.simps) auto
next
  case (Suc l1)
  have d: "drop i s = s ! i # drop (Suc i) s" using Suc.prems by (simp add: Cons_nth_drop_Suc)
  have IH: "search_from (s @ NUL # r) (t @ NUL # q) (length t) (Suc i) l1 =
      Some (map_option (\<lambda>k. Suc (i + k)) (strstr (drop (Suc i) s) t))"
    using Suc.IH [of "Suc i"] Suc.prems by simp
  show ?case
  proof (cases "length t \<le> Suc l1")
    case True
    have le: "length t \<le> length (drop i (s @ NUL # r))" using True Suc.prems by simp
    have z: "memcmp (drop i (s @ NUL # r)) (t @ NUL # q) (length t) = Some 0 \<longleftrightarrow> prefix t (drop i s)"
      using True Suc.prems
      by (subst memcmp_zero) (auto simp: prefix_take_drop)
    obtain x where x: "memcmp (drop i (s @ NUL # r)) (t @ NUL # q) (length t) = Some x"
      using memcmp_returns [OF le, of "t @ NUL # q"] by auto
    have "search_from (s @ NUL # r) (t @ NUL # q) (length t) i (Suc l1) =
        (if x = 0 then Some (Some i)
         else search_from (s @ NUL # r) (t @ NUL # q) (length t) (Suc i) l1)"
      using True Suc.prems by (subst search_from.simps) (simp add: x del: drop_append)
    then show ?thesis using z unfolding x IH by (auto simp: d option.map_comp comp_def)
  next
    case False
    have "strstr u t = None" if "length u < length t" for u
      using that strstr_iff [of u t] sublist_length_le [of t u] by auto
    then show ?thesis using False Suc.prems by (subst search_from.simps) auto
  qed
qed

lemma kstrstr_str:
  "cstring s \<Longrightarrow> cstring t \<Longrightarrow> kstrstr (s @ NUL # r) (t @ NUL # q) = Some (strstr s t)"
  using search_from_str [of t 0 "length s" s r q]
  by (cases "t = []"; cases s) (auto simp: kstrstr_def option.map_ident)

section \<open>Tokens\<close>

text \<open>
  The loop \<open>do { p = strsep(&s, ct); } while (p)\<close> that the callers run, and the strings the
  pointers it returns point to.
\<close>
fun strsep_loop :: "nat \<Rightarrow> cbuf \<Rightarrow> nat option \<Rightarrow> cbuf \<Rightarrow> (cbuf \<times> nat list) option" where
  "strsep_loop 0 buf s ct = None"
| "strsep_loop (Suc fuel) buf s ct = do {
     (buf', tok, s') \<leftarrow> strsep buf s ct;
     (case tok of None \<Rightarrow> Some (buf', [])
      | Some p \<Rightarrow> map_option (\<lambda>(b, ps). (b, p # ps)) (strsep_loop fuel buf' s' ct))
   }"

lemma strsep_last:
  "cstring s \<Longrightarrow> c \<notin> set s \<Longrightarrow> c \<noteq> NUL \<Longrightarrow>
     strsep (u @ s @ NUL # r) (Some (length u)) [c, NUL] = Some (u @ s @ NUL # r, Some (length u), None)"
  using strpbrk_str [of s "[c]" r "[]"] by (simp add: strsep_def)

lemma strsep_cut:
  assumes "cstring s" "c \<notin> set s" "c \<noteq> NUL" "cstring t"
  shows "strsep (u @ s @ c # t @ NUL # r) (Some (length u)) [c, NUL] =
    Some (u @ s @ NUL # t @ NUL # r, Some (length u), Some (length u + length s + 1))"
proof -
  have "takeWhile (\<lambda>x. x \<noteq> c) (s @ c # t) = s" using assms(2) by (induction s) auto
  then have "strpbrk (s @ c # t @ NUL # r) [c, NUL] = Some (Some (length s))"
    using strpbrk_str [of "s @ c # t" "[c]" r "[]"] assms by simp
  moreover have "wr (u @ s @ c # t @ NUL # r) (length u + length s) NUL =
      Some (u @ s @ NUL # t @ NUL # r)"
    using wr_append [of "u @ s" c "t @ NUL # r" NUL] by simp
  ultimately show ?thesis by (simp add: strsep_def)
qed

fun offsets :: "nat \<Rightarrow> string list \<Rightarrow> nat list" where
  "offsets i [] = []"
| "offsets i (t # ts) = i # offsets (i + length t + 1) ts"

fun joined :: "char \<Rightarrow> string list \<Rightarrow> string" where
  "joined c [] = []"
| "joined c [t] = t"
| "joined c (t # u # ts) = t @ c # joined c (u # ts)"

lemma joined_Cons: "ts \<noteq> [] \<Longrightarrow> joined c (t # ts) = t @ c # joined c ts"
  by (cases ts) auto

lemma joined_split_on: "joined c (split_on c s) = s"
proof (induction s)
  case (Cons x s)
  show ?case
  proof (cases "split_on c s")
    case (Cons y ys)
    then show ?thesis using Cons.IH by (cases ys) (auto simp: joined_Cons)
  qed simp
qed simp

lemma cstring_joined: "\<forall>t\<in>set ts. cstring t \<Longrightarrow> c \<noteq> NUL \<Longrightarrow> cstring (joined c ts)"
  by (induction c ts rule: joined.induct) auto

lemma strsep_loop_joined:
  assumes "\<forall>t\<in>set ts. cstring t \<and> c \<notin> set t" "c \<noteq> NUL" "ts \<noteq> []" "length ts < fuel"
  shows "strsep_loop fuel (u @ joined c ts @ NUL # r) (Some (length u)) [c, NUL] =
    Some (u @ joined NUL ts @ NUL # r, offsets (length u) ts)"
  using assms
proof (induction ts arbitrary: u fuel)
  case (Cons t ts)
  obtain f where f: "fuel = Suc f" "length ts < f" using Cons.prems by (cases fuel) auto
  show ?case
  proof (cases "ts = []")
    case True
    then obtain g where "f = Suc g" using f by (cases f) auto
    then show ?thesis using Cons.prems f True by (simp add: strsep_last) (simp add: strsep_def)
  next
    case False
    have "cstring (joined c ts)" using Cons.prems by (simp add: cstring_joined)
    then show ?thesis using Cons.prems f False Cons.IH [of f "u @ t @ [NUL]"]
      by (simp add: joined_Cons strsep_cut)
  qed
qed simp

lemma split_on_tokens: "\<forall>t\<in>set (split_on c s). c \<notin> set t \<and> set t \<subseteq> set s"
  by (induction s) (auto split: list.splits)

lemma split_on_length: "length (split_on c s) \<le> Suc (length s)"
  by (induction s) (auto split: list.splits)

lemma offsets_tokens:
  "\<forall>t\<in>set ts. cstring t \<Longrightarrow>
     map (\<lambda>p. cstr (drop p (u @ joined NUL ts @ NUL # r))) (offsets (length u) ts) = ts"
proof (induction ts arbitrary: u)
  case (Cons t ts)
  show ?case
  proof (cases "ts = []")
    case False
    have "map (\<lambda>p. cstr (drop p ((u @ t @ [NUL]) @ joined NUL ts @ NUL # r)))
        (offsets (length (u @ t @ [NUL])) ts) = ts"
      by (rule Cons.IH) (use Cons.prems in auto)
    then show ?thesis using Cons.prems False by (simp add: joined_Cons)
  qed (use Cons.prems in simp)
qed simp

lemma strsep_loop_split:
  assumes "cstring s" "c \<noteq> NUL"
  shows "\<exists>b ps. strsep_loop (length s + 2) (s @ NUL # r) (Some 0) [c, NUL] = Some (b, ps) \<and>
    map (\<lambda>p. cstr (drop p b)) ps = split_on c s"
proof -
  have t: "\<forall>t\<in>set (split_on c s). cstring t \<and> c \<notin> set t"
    using split_on_tokens [of c s] assms(1) by (auto simp: cstring_def)
  have "strsep_loop (length s + 2) (joined c (split_on c s) @ NUL # r) (Some 0) [c, NUL] =
      Some (joined NUL (split_on c s) @ NUL # r, offsets 0 (split_on c s))"
    using strsep_loop_joined [OF t assms(2), of "length s + 2" "[]" r] split_on_length [of c s] by simp
  moreover have "map (\<lambda>p. cstr (drop p (joined NUL (split_on c s) @ NUL # r)))
      (offsets 0 (split_on c s)) = split_on c s"
    using offsets_tokens [of "split_on c s" "[]" r] t by simp
  ultimately show ?thesis by (simp add: joined_split_on)
qed

definition rstrip :: "(char \<Rightarrow> bool) \<Rightarrow> string \<Rightarrow> string" where
  "rstrip P s = rev (dropWhile P (rev s))"

lemma rstrip_snoc [simp]: "rstrip P (s @ [c]) = (if P c then rstrip P s else s @ [c])"
  by (simp add: rstrip_def)

lemma rstrip_prefix: "prefix (rstrip P s) s"
  by (metis rstrip_def rev_rev_ident suffix_dropWhile suffix_to_prefix)

lemma strim_end_rstrip:
  "k \<le> length s \<Longrightarrow> strim_end P (s @ x) k = length (rstrip P (take k s))"
proof (induction k)
  case 0
  then show ?case by (simp add: rstrip_def)
next
  case (Suc k)
  then show ?case by (simp add: take_Suc_conv_app_nth nth_append)
qed

context ctype_macros
begin

lemma strim_str:
  assumes "cstring s"
  shows "\<exists>b p. strim isspace (s @ NUL # r) = Some (b, p) \<and>
    cstr (drop p b) = dropWhile isspace (rstrip isspace s)"
proof (cases "s = []")
  case True
  then show ?thesis using strlen_str [OF assms, of r] by (auto simp: strim_def rstrip_def cstr_def)
next
  case False
  obtain q where q: "s = rstrip isspace s @ q" using rstrip_prefix [of isspace s] by (blast elim: prefixE)
  define t where "t = rstrip isspace s"
  have t: "cstring t" using assms unfolding t_def by (subst (asm) q) simp
  obtain z where z: "s @ NUL # r = t @ z" "z \<noteq> []" using q by (metis append_assoc list.distinct(1) append_is_Nil_conv t_def)
  have "strim_end isspace (s @ NUL # r) (length s) = length t"
    using strim_end_rstrip [of "length s" s isspace "NUL # r"] by (simp add: t_def)
  moreover have "wr (s @ NUL # r) (length t) NUL = Some (t @ NUL # tl z)"
    using z wr_append [of t "hd z" "tl z" NUL] by simp
  moreover have "skip_spaces isspace (t @ NUL # tl z) = Some (length (takeWhile isspace t))"
    by (rule skip_spaces_str) simp
  moreover have "drop (length (takeWhile isspace t)) (t @ NUL # tl z) = dropWhile isspace t @ NUL # tl z"
    by (simp add: dropWhile_eq_drop length_takeWhile_le)
  moreover have "cstring (dropWhile isspace t)"
    using t by (auto simp: cstring_def dest: set_dropWhileD)
  ultimately show ?thesis using strlen_str [OF assms, of r] False
    by (simp add: strim_def t_def [symmetric])
qed

lemma tolower_eq_NUL [simp]: "tolower c = NUL \<longleftrightarrow> c = NUL"
proof
  assume n: "tolower c = NUL"
  show "c = NUL"
  proof (cases "isupper c")
    case True
    then have "of_char (char_of (of_char c + 32 :: nat)) = (of_char NUL :: nat)"
      using n by (simp add: tolower)
    then have m: "(of_char c + 32) mod 256 = (0 :: nat)" by (simp add: NUL_def)
    have k: "k = 224" if "(k + 32) mod 256 = 0" "k < 256" for k :: nat
    proof -
      have "256 dvd k + 32" using that(1) by (rule mod_0_imp_dvd)
      then obtain m where "k + 32 = 256 * m" by (rule dvdE)
      moreover from this have "\<not> 2 \<le> m" "m \<noteq> 0" using that(2) by auto
      ultimately show ?thesis by (auto simp: not_le less_2_cases_iff)
    qed
    have "of_char c = (224 :: nat)" by (rule k [OF m nat_of_char_less_256])
    then have False using True by (simp add: isupper ctest_def ctype_tab_def)
    then show ?thesis ..
  qed (use n in \<open>simp add: tolower\<close>)
qed simp

lemma strcasecmp_zero:
  "cstring s \<Longrightarrow> cstring t \<Longrightarrow>
     strcasecmp tolower (s @ NUL # r) (t @ NUL # q) = Some 0 \<longleftrightarrow> map tolower s = map tolower t"
proof (induction s arbitrary: t)
  case Nil
  then show ?case by (cases t) (auto dest: sym)
next
  case (Cons a s)
  then show ?case by (cases t) auto
qed

lemma strncasecmp_zero:
  "cstring s \<Longrightarrow> cstring t \<Longrightarrow>
     strncasecmp tolower (s @ NUL # r) (t @ NUL # q) n = Some 0 \<longleftrightarrow>
       map tolower (take n s) = map tolower (take n t)"
proof (induction s arbitrary: t n)
  case Nil
  then show ?case by (cases n; cases t) auto
next
  case (Cons a s)
  show ?case
  proof (cases n)
    case (Suc m)
    then show ?thesis using Cons by (cases t; cases m) auto
  qed simp
qed

end

lemma cstring_take: "cstring s \<Longrightarrow> cstring (take n s)"
  by (auto simp: cstring_def dest: in_set_takeD)

lemma strlcpy_bounded:
  assumes "cstring s" "0 < n" "n \<le> length dest"
  shows "\<exists>b. strlcpy dest (s @ NUL # r) n = Some (b, length s) \<and> cstr b = take (n - 1) s \<and>
    length b = length dest \<and> drop n b = drop n dest"
  using assms cstring_take [OF assms(1), of "n - 1"]
  by (auto simp: strlcpy_str min_def drop_Cons' split: nat_diff_split)

lemma strlcat_bounded:
  assumes "cstring d" "cstring s" "length d < n" "n \<le> length (d @ NUL # q)"
  shows "\<exists>b. strlcat (d @ NUL # q) (s @ NUL # r) n = Some (b, length d + length s) \<and>
    cstr b = take (n - 1) (d @ s) \<and> length b = length (d @ NUL # q) \<and>
    drop n b = drop n (d @ NUL # q)"
proof -
  let ?m = "n - length d - 1"
  have m: "n - 1 = length d + ?m" using assms(3) by simp
  have "cstr ((d @ take ?m s) @ NUL # drop (min ?m (length s)) q) = d @ take ?m s"
    using assms(1) cstring_take [OF assms(2)] by (intro cstr_append) simp
  moreover have "take (n - 1) (d @ s) = d @ take ?m s" unfolding m by simp
  moreover obtain k where "n = Suc (length d + k)" using assms(3) less_iff_Suc_add by auto
  ultimately show ?thesis using assms
    by (auto simp: strlcat_str) (auto simp: min_def drop_Cons' split: nat_diff_split)
qed

section \<open>Properties\<close>

text \<open>\<open>memmove\<close> copes with overlapping areas: whatever the two offsets into the object, the
  bytes at the destination become the old bytes of the source, and all other bytes are kept.\<close>
theorem memmove_overlap:
  assumes "src + count \<le> length mem" "dest + count \<le> length mem"
  shows "memmove mem dest src count =
    Some (take dest mem @ take count (drop src mem) @ drop (dest + count) mem)"
  using assms by (simp add: memmove_def move_up_area move_down_area)

theorem memmove_overlap_witness:
  "memmove ''abcdef'' 1 0 4 = Some ''aabcdf'' \<and> memmove ''abcdef'' 0 1 4 = Some ''bcdeef''"
  using memmove_overlap [of 0 4 "''abcdef''" 1] memmove_overlap [of 1 4 "''abcdef''" 0]
  by simp



text \<open>C38: the kernel's \<open>strcmp\<close>, \<open>strrchr\<close> and \<open>strstr\<close>, run on terminated buffers, compute what
  the C library's functions of those names compute on the strings: the sign of the comparison,
  the last occurrence, and the first occurrence of the substring.\<close>
theorem kstring_refines_libc:
  assumes "cstring s" "cstring t" "c \<noteq> NUL"
  shows "kstrcmp (s @ NUL # r) (t @ NUL # q) = Some (sgn (strcmp s t)) \<and>
    kstrrchr (s @ NUL # r) c = Some (strrchr s c) \<and>
    kstrstr (s @ NUL # r) (t @ NUL # q) = Some (strstr s t)"
  using assms by (simp add: kstrcmp_str kstrrchr_str kstrstr_str)

theorem kstring_refines_libc_witness:
  "kstrcmp (''abc'' @ NUL # []) (''bc'' @ NUL # []) = Some (- 1) \<and>
    kstrrchr (''abc'' @ NUL # []) CHR ''b'' = Some (Some 1) \<and>
    kstrstr (''abc'' @ NUL # []) (''bc'' @ NUL # []) = Some (Some 1)"
  using kstring_refines_libc [of "''abc''" "''bc''" "CHR ''b''" "[]" "[]"] by (simp add: NUL_def)

text \<open>\<open>strlcpy\<close> and \<open>strlcat\<close> keep the size they are given: on a buffer of at least \<open>n\<close> bytes
  they leave a terminated string of at most \<open>n - 1\<close> characters, the longest prefix of the full
  result that fits, change no byte past the \<open>n\<close>th, and return the length the full result has.\<close>
theorem strl_bounded:
  assumes "cstring s" "cstring d" "length d < n" "n \<le> length (d @ NUL # q)"
  shows "(\<exists>b. strlcpy (d @ NUL # q) (s @ NUL # r) n = Some (b, length s) \<and>
      cstr b = take (n - 1) s \<and> length b = length (d @ NUL # q) \<and>
      drop n b = drop n (d @ NUL # q)) \<and>
    (\<exists>b. strlcat (d @ NUL # q) (s @ NUL # r) n = Some (b, length d + length s) \<and>
      cstr b = take (n - 1) (d @ s) \<and> length b = length (d @ NUL # q) \<and>
      drop n b = drop n (d @ NUL # q))"
  using strlcpy_bounded [of s n "d @ NUL # q" r] strlcat_bounded [OF assms(2,1,3), of q r] assms by auto

theorem strl_bounded_witness:
  "(\<exists>b. strlcpy (''ab'' @ NUL # ''xyz'') (''cdefg'' @ NUL # []) 5 = Some (b, 5) \<and> cstr b = ''cdef'') \<and>
    (\<exists>b. strlcat (''ab'' @ NUL # ''xyz'') (''cdefg'' @ NUL # []) 5 = Some (b, 7) \<and> cstr b = ''abcd'')"
  using strl_bounded [of "''cdefg''" "''ab''" 5 "''xyz''" "[]"] by (auto simp: NUL_def)

text \<open>\<open>strim\<close> returns the string without its leading and trailing white space, for any
  \<open>isspace\<close> that reads the white-space flag of the character table.\<close>
theorem strim_trims:
  assumes "ctype_macros isspace isxdigit isdigit isupper tolower" "cstring s"
  shows "\<exists>b p. strim isspace (s @ NUL # r) = Some (b, p) \<and>
    cstr (drop p b) = dropWhile isspace (rstrip isspace s)"
  by (rule ctype_macros.strim_str [OF assms])

theorem strim_trims_witness:
  "\<exists>b p. strim (ctest CS) ('' a b  '' @ NUL # []) = Some (b, p) \<and> cstr (drop p b) = ''a b''"
  using strim_trims [OF ctab.ctype_macros_axioms, of "'' a b  ''" "[]"]
  by (simp add: NUL_def rstrip_def ctest_def ctype_tab_def)

end
