(* ===== verification/KWords.thy ===== *)
theory KWords
  imports KString
begin

unbundle bit_operations_syntax

text \<open>
  The routines of \<^verbatim>\<open>lib/string.c\<close> that work on eight bytes at a time: \<open>memchr_inv\<close>, which
  compares words with a spread byte, and \<open>strscpy\<close>, which copies words while the source page
  allows it.  The lemmas reduce both to their byte-wise meaning.
\<close>

section \<open>The search for a different byte\<close>

fun check_bytes8 :: "cbuf \<Rightarrow> nat \<Rightarrow> char \<Rightarrow> nat \<Rightarrow> nat option option" where
  "check_bytes8 mem start value 0 = Some None"
| "check_bytes8 mem start value (Suc bytes) = do {
     c \<leftarrow> rd mem start;
     if c \<noteq> value then Some (Some start) else check_bytes8 mem (Suc start) value bytes
   }"

text \<open>
  The three ways \<open>memchr_inv\<close> builds a word of eight equal bytes, chosen by the configuration.
\<close>
datatype multiplier = Mul64 | Mul32 | No_Mul

definition spread_byte :: "multiplier \<Rightarrow> char \<Rightarrow> 64 word" where
  "spread_byte cfg value =
     (let v = of_nat (of_char value) :: 64 word
      in case cfg of
           Mul64 \<Rightarrow> v * 0x0101010101010101
         | Mul32 \<Rightarrow> (let v = v * 0x01010101 in v OR push_bit 32 v)
         | No_Mul \<Rightarrow>
             (let v = v OR push_bit 8 v; v = v OR push_bit 16 v in v OR push_bit 32 v))"

fun word_of_bytes :: "cbuf \<Rightarrow> 64 word" where
  "word_of_bytes [] = 0"
| "word_of_bytes (c # cs) = of_nat (of_char c) + 256 * word_of_bytes cs"

definition load64 :: "bool \<Rightarrow> cbuf \<Rightarrow> nat \<Rightarrow> 64 word option" where
  "load64 big mem p =
     (if p + 8 \<le> length mem
      then Some (word_of_bytes ((if big then rev else id) (take 8 (drop p mem)))) else None)"

fun check_words :: "bool \<Rightarrow> cbuf \<Rightarrow> nat \<Rightarrow> char \<Rightarrow> 64 word \<Rightarrow> nat \<Rightarrow> nat
    \<Rightarrow> nat option option" where
  "check_words big mem start value value64 0 tail_bytes = check_bytes8 mem start value tail_bytes"
| "check_words big mem start value value64 (Suc words) tail_bytes = do {
     w \<leftarrow> load64 big mem start;
     if w \<noteq> value64 then check_bytes8 mem start value 8
     else check_words big mem (start + 8) value value64 words tail_bytes
   }"

definition memchr_inv :: "multiplier \<Rightarrow> bool \<Rightarrow> nat \<Rightarrow> cbuf \<Rightarrow> nat \<Rightarrow> char \<Rightarrow> nat
    \<Rightarrow> nat option option" where
  "memchr_inv cfg big base mem start value bytes =
     (if bytes \<le> 16 then check_bytes8 mem start value bytes
      else do {
        let value64 = spread_byte cfg value;
        let prefix = (base + start) mod 8;
        let prefix' = (if prefix \<noteq> 0 then 8 - prefix else 0);
        r \<leftarrow> check_bytes8 mem start value prefix';
        (case r of Some p \<Rightarrow> Some (Some p)
         | None \<Rightarrow>
             (let start' = start + prefix'; bytes' = bytes - prefix';
                  words = (bytes' div 8) mod 2 ^ 32
              in check_words big mem start' value value64 words (bytes' mod 8)))
      })"

section \<open>The sized copy\<close>

text \<open>
  \<open>strscpy\<close> copies a word at a time while it can.  The architecture supplies the search for a
  zero byte in a word (\<open>has_zero\<close> to \<open>find_zero\<close> of \<^verbatim>\<open>word-at-a-time.h\<close>) as \<open>find0\<close>, and the
  clearing of the bytes from the zero on (\<open>zero_bytemask\<close>) as \<open>clear0\<close>; \<open>unaligned_ok\<close> is
  \<^verbatim>\<open>CONFIG_HAVE_EFFICIENT_UNALIGNED_ACCESS\<close>.
\<close>
record word_arch =
  find0 :: "cbuf \<Rightarrow> nat option"
  clear0 :: "nat \<Rightarrow> cbuf \<Rightarrow> cbuf"
  unaligned_ok :: bool
  page_size :: nat

definition load8 :: "cbuf \<Rightarrow> nat \<Rightarrow> cbuf option" where
  "load8 src i = (if i + 8 \<le> length src then Some (take 8 (drop i src)) else None)"

definition store8 :: "cbuf \<Rightarrow> nat \<Rightarrow> cbuf \<Rightarrow> cbuf option" where
  "store8 dest i w =
     (if i + 8 \<le> length dest then Some (take i dest @ w @ drop (i + 8) dest) else None)"

definition INT_MAX :: nat where
  "INT_MAX = 2 ^ 31 - 1"

definition strscpy_max :: "word_arch \<Rightarrow> nat \<Rightarrow> nat \<Rightarrow> nat \<Rightarrow> nat" where
  "strscpy_max A dest_addr src_addr count =
     (if unaligned_ok A then
        (if src_addr mod 8 \<noteq> 0
         then (let limit = page_size A - src_addr mod page_size A in if limit < count then limit else count)
         else count)
      else if dest_addr mod 8 \<noteq> 0 \<or> src_addr mod 8 \<noteq> 0 then 0 else count)"

function strscpy_words :: "word_arch \<Rightarrow> cbuf \<Rightarrow> cbuf \<Rightarrow> nat
    \<Rightarrow> nat \<Rightarrow> nat \<Rightarrow> (cbuf \<times> (nat + nat \<times> nat)) option" where
  "strscpy_words A dest src res count mx =
     (if mx \<ge> 8 then do {
        c \<leftarrow> load8 src res;
        (case find0 A c of
           Some k \<Rightarrow> map_option (\<lambda>d. (d, Inl (res + k))) (store8 dest res (clear0 A k c))
         | None \<Rightarrow> do {
             d \<leftarrow> store8 dest res c;
             strscpy_words A d src (res + 8) (count - 8) (mx - 8)
           })
      } else Some (dest, Inr (res, count)))"
  by pat_completeness auto
termination by (relation "measure (\<lambda>(A, d, s, r, c, m). m)") auto

declare strscpy_words.simps [simp del]

fun strscpy_bytes :: "cbuf \<Rightarrow> cbuf \<Rightarrow> nat \<Rightarrow> nat \<Rightarrow> (cbuf \<times> (errno + nat)) option" where
  "strscpy_bytes dest src res 0 =
     (if res \<noteq> 0 then map_option (\<lambda>d. (d, Inl E2BIG)) (wr dest (res - 1) NUL)
      else Some (dest, Inl E2BIG))"
| "strscpy_bytes dest src res (Suc count) = do {
     c \<leftarrow> rd src res;
     d \<leftarrow> wr dest res c;
     if c = NUL then Some (d, Inr res) else strscpy_bytes d src (Suc res) count
   }"

definition strscpy :: "word_arch \<Rightarrow> nat \<Rightarrow> nat \<Rightarrow> cbuf \<Rightarrow> cbuf \<Rightarrow> nat
    \<Rightarrow> (cbuf \<times> (errno + nat)) option" where
  "strscpy A dest_addr src_addr dest src count =
     (if count = 0 \<or> count > INT_MAX then Some (dest, Inl E2BIG)
      else do {
        (d, r) \<leftarrow> strscpy_words A dest src 0 count (strscpy_max A dest_addr src_addr count);
        (case r of Inl n \<Rightarrow> Some (d, Inr n)
         | Inr (res, left) \<Rightarrow> strscpy_bytes d src res left)
      })"

definition strscpy_pad :: "word_arch \<Rightarrow> nat \<Rightarrow> nat \<Rightarrow> cbuf \<Rightarrow> cbuf
    \<Rightarrow> nat \<Rightarrow> (cbuf \<times> (errno + nat)) option" where
  "strscpy_pad A dest_addr src_addr dest src count = do {
     (d, r) \<leftarrow> strscpy A dest_addr src_addr dest src count;
     (case r of Inl e \<Rightarrow> Some (d, Inl e)
      | Inr written \<Rightarrow>
          if written = count - 1 then Some (d, Inr written)
          else do {
            rest \<leftarrow> memset (drop (written + 1) d) NUL (count - written - 1);
            Some (take (written + 1) d @ rest, Inr written)
          })
   }"

section \<open>The first byte that differs\<close>

fun first_other :: "cbuf \<Rightarrow> nat \<Rightarrow> char \<Rightarrow> nat \<Rightarrow> nat option" where
  "first_other mem p v 0 = None"
| "first_other mem p v (Suc n) = (if mem ! p \<noteq> v then Some p else first_other mem (Suc p) v n)"

lemma first_other_iff:
  "first_other mem p v n = None \<longleftrightarrow> (\<forall>i<n. mem ! (p + i) = v)"
  by (induction n arbitrary: p) (auto simp: less_Suc_eq_0_disj)

lemma first_other_Some:
  "first_other mem p v n = Some k \<Longrightarrow>
     p \<le> k \<and> k < p + n \<and> mem ! k \<noteq> v \<and> (\<forall>i. p \<le> i \<and> i < k \<longrightarrow> mem ! i = v)"
proof (induction n arbitrary: p)
  case (Suc n)
  show ?case
  proof (cases "mem ! p = v")
    case True
    then have "Suc p \<le> k \<and> k < Suc p + n \<and> mem ! k \<noteq> v \<and>
        (\<forall>i. Suc p \<le> i \<and> i < k \<longrightarrow> mem ! i = v)"
      using Suc.IH [of "Suc p"] Suc.prems by simp
    moreover have "mem ! i = v" if "p \<le> i" "i < k" for i
      using True calculation that by (cases "i = p") (simp_all add: Suc_le_eq)
    ultimately show ?thesis by simp
  next
    case False
    then show ?thesis using Suc.prems by auto
  qed
qed simp

lemma first_other_split:
  "first_other mem p v (m + n) =
     (case first_other mem p v m of Some k \<Rightarrow> Some k | None \<Rightarrow> first_other mem (p + m) v n)"
proof (induction m arbitrary: p)
  case (Suc m)
  have "Suc p + m = p + Suc m" by simp
  then show ?case by (simp only: first_other.simps Suc.IH add_Suc split: if_splits) simp
qed simp

lemma check_bytes8_area:
  "p + n \<le> length mem \<Longrightarrow> check_bytes8 mem p v n = Some (first_other mem p v n)"
  by (induction n arbitrary: p) (auto simp: rd_def)

lemma or_shift:
  fixes v :: "64 word"
  assumes "unat v < 2 ^ k"
  shows "v OR push_bit k v = v * (1 + 2 ^ k)"
proof -
  have "take_bit k v = v"
    by (rule word_unat_eq_iff [THEN iffD2]) (simp add: unsigned_take_bit_eq take_bit_nat_eq_self assms)
  then have "bit v n \<Longrightarrow> n < k" for n by (metis bit_take_bit_iff)
  then have "v OR push_bit k v = v + push_bit k v"
    by (intro disjunctive_add [symmetric]) (simp add: bit_simps, meson leD)
  then show ?thesis by (simp add: push_bit_eq_mult algebra_simps)
qed

lemma byte_bound: "255 * m < k \<Longrightarrow> of_char c * m < (k :: nat)"
proof -
  assume k: "255 * m < k"
  have "n \<le> 255" if "n < 256" for n :: nat using that by simp
  then have "of_char c \<le> (255 :: nat)" using nat_of_char_less_256 by blast
  then have "of_char c * m \<le> 255 * m" by (rule mult_le_mono1)
  then show ?thesis using k by (rule le_less_trans)
qed

lemma unat_of_nat64: "k < 2 ^ 64 \<Longrightarrow> unat (of_nat k :: 64 word) = k"
  by (simp add: unsigned_of_nat take_bit_nat_eq_self)

lemma unat_byte_mult:
  assumes "255 * m < 2 ^ 64"
  shows "unat (of_nat (of_char c) * of_nat m :: 64 word) = of_char c * m"
proof -
  have "unat (of_nat (of_char c * m) :: 64 word) = of_char c * m"
    by (rule unat_of_nat64 [OF byte_bound [OF assms]])
  then show ?thesis by simp
qed

lemmas unat_byte = unat_byte_mult [of 1, simplified]

lemma spread_byte_mult: "spread_byte cfg c = of_nat (of_char c) * 0x0101010101010101"
proof (cases cfg)
  case Mul32
  show ?thesis using unat_byte_mult [of "0x01010101" c]
    by (simp add: spread_byte_def Mul32 or_shift byte_bound)
next
  case No_Mul
  let ?v = "of_nat (of_char c) :: 64 word"
  have 1: "?v OR push_bit 8 ?v = ?v * 0x101"
    using byte_bound [of 1 256 c] by (simp add: or_shift unat_byte)
  have 2: "?v * 0x101 OR push_bit 16 (?v * 0x101) = ?v * 0x01010101"
    using unat_byte_mult [of "0x101" c] by (simp add: or_shift byte_bound)
  have 3: "?v * 0x01010101 OR push_bit 32 (?v * 0x01010101) = ?v * 0x0101010101010101"
    using unat_byte_mult [of "0x01010101" c] by (simp add: or_shift byte_bound)
  show ?thesis by (simp only: spread_byte_def No_Mul Let_def multiplier.case 1 2 3)
qed (simp add: spread_byte_def)

fun val256 :: "cbuf \<Rightarrow> nat" where
  "val256 [] = 0"
| "val256 (c # cs) = of_char c + 256 * val256 cs"

lemma val256_less: "val256 cs < 256 ^ length cs"
proof (induction cs)
  case (Cons c cs)
  have "a < 256 \<Longrightarrow> b < k \<Longrightarrow> a + 256 * b < 256 * k" for a b k :: nat by arith
  from this [OF nat_of_char_less_256 Cons.IH] show ?case by simp
qed simp

lemma val256_inj: "length a = length b \<Longrightarrow> val256 a = val256 b \<Longrightarrow> a = b"
proof (induction a b rule: list_induct2)
  case (Cons x xs y ys)
  have "i = j \<and> k = l" if "i < 256" "j < 256" "i + 256 * k = j + 256 * l" for i j k l :: nat
  proof -
    have "k = l" using arg_cong [OF that(3), of "\<lambda>n. n div 256"] that by simp
    then show ?thesis using that(3) by simp
  qed
  from this [OF nat_of_char_less_256 nat_of_char_less_256] show ?case
    using Cons by (simp only: val256.simps of_char_eq_iff) blast
qed simp

lemma word_of_bytes_val: "word_of_bytes cs = of_nat (val256 cs)"
  by (induction cs) simp_all

lemma word_of_bytes_inj:
  assumes "length a = 8" "length b = 8"
  shows "word_of_bytes a = word_of_bytes b \<longleftrightarrow> a = b"
proof
  assume "word_of_bytes a = word_of_bytes b"
  moreover have "unat (word_of_bytes x) = val256 x" if "length x = 8" for x
    using val256_less [of x] that unfolding word_of_bytes_val by (intro unat_of_nat64) simp
  ultimately show "a = b" using assms val256_inj [of a b] by metis
qed simp

lemma word_of_bytes_replicate: "word_of_bytes (replicate 8 c) = of_nat (of_char c) * 0x0101010101010101"
proof -
  have r: "replicate 8 c = [c, c, c, c, c, c, c, c]" by (simp add: eval_nat_numeral)
  have "x + 256 * (x + 256 * (x + 256 * (x + 256 * (x + 256 * (x + 256 * (x + 256 * (x + 256 * 0)))))))
      = x * 0x0101010101010101" for x :: nat by simp
  then have "val256 (replicate 8 c) = of_char c * 0x0101010101010101"
    unfolding r val256.simps by blast
  then show ?thesis unfolding word_of_bytes_val by simp
qed

lemma load64_spread:
  assumes "p + 8 \<le> length mem"
  shows "load64 big mem p = Some (spread_byte cfg v) \<longleftrightarrow> first_other mem p v 8 = None"
proof -
  let ?w = "take 8 (drop p mem)"
  let ?x = "(if big then rev else id) ?w"
  have l: "length ?x = 8" "length (replicate 8 v) = 8" using assms by auto
  have "load64 big mem p = Some (spread_byte cfg v) \<longleftrightarrow>
      word_of_bytes ?x = word_of_bytes (replicate 8 v)"
    using assms unfolding load64_def spread_byte_mult word_of_bytes_replicate by simp
  also have "\<dots> \<longleftrightarrow> ?x = replicate 8 v" by (rule word_of_bytes_inj [OF l])
  also have "\<dots> \<longleftrightarrow> ?w = replicate 8 v" by (auto simp: rev_swap)
  also have "\<dots> \<longleftrightarrow> (\<forall>i<8. mem ! (p + i) = v)"
    using assms by (auto simp: list_eq_iff_nth_eq)
  finally show ?thesis by (simp only: first_other_iff)
qed

lemma check_words_area:
  assumes "p + (8 * n + m) \<le> length mem"
  shows "check_words big mem p v (spread_byte cfg v) n m = Some (first_other mem p v (8 * n + m))"
  using assms
proof (induction n arbitrary: p)
  case 0
  then show ?case by (simp add: check_bytes8_area)
next
  case (Suc n)
  obtain w where w: "load64 big mem p = Some w" using Suc.prems by (auto simp: load64_def)
  have e: "8 * Suc n + m = 8 + (8 * n + m)" by simp
  show ?case
  proof (cases "w = spread_byte cfg v")
    case True
    then have "first_other mem p v 8 = None" using load64_spread [of p mem big cfg v] w Suc.prems by simp
    then show ?thesis using True w Suc.IH [of "p + 8"] Suc.prems unfolding e first_other_split
      by (simp del: first_other.simps)
  next
    case False
    then obtain k where "first_other mem p v 8 = Some k"
      using load64_spread [of p mem big cfg v] w Suc.prems by (cases "first_other mem p v 8") auto
    then show ?thesis using False w Suc.prems unfolding e first_other_split
      by (simp add: check_bytes8_area del: first_other.simps check_bytes8.simps)
  qed
qed

lemma memchr_inv_area:
  assumes "p + n \<le> length mem" "n < 2 ^ 35"
  shows "memchr_inv cfg big base mem p v n = Some (first_other mem p v n)"
proof (cases "n \<le> 16")
  case True
  then show ?thesis using assms by (simp add: memchr_inv_def check_bytes8_area)
next
  case False
  define q where "q = (if (base + p) mod 8 \<noteq> 0 then 8 - (base + p) mod 8 else 0)"
  have q: "q \<le> 8" by (simp add: q_def)
  have w: "((n - q) div 8) mod 2 ^ 32 = (n - q) div 8" using assms(2) by (intro mod_less) simp
  have e: "8 * ((n - q) div 8) + (n - q) mod 8 = n - q" by simp
  have n: "n = q + (n - q)" using q False by simp
  have c: "check_bytes8 mem p v q = Some (first_other mem p v q)"
    using assms(1) q False by (intro check_bytes8_area) simp
  have d: "check_words big mem (p + q) v (spread_byte cfg v) ((n - q) div 8) ((n - q) mod 8) =
      Some (first_other mem (p + q) v (n - q))"
    using check_words_area [of "p + q" "(n - q) div 8" "(n - q) mod 8" mem big v cfg] assms(1) q False
    unfolding e by simp
  have "memchr_inv cfg big base mem p v n =
      Some (case first_other mem p v q of Some k \<Rightarrow> Some k | None \<Rightarrow> first_other mem (p + q) v (n - q))"
    using False unfolding memchr_inv_def q_def [symmetric] Let_def
    by (simp add: c d w [simplified] split: option.splits)
  then show ?thesis by (subst n) (simp only: first_other_split)
qed

section \<open>The sized copy, by words and by bytes\<close>

lemma NUL_in_take: "cstring u \<Longrightarrow> NUL \<in> set (take n (u @ NUL # r)) \<longleftrightarrow> length u < n"
proof (induction u arbitrary: n)
  case Nil
  then show ?case by (cases n) auto
next
  case (Cons a u)
  then show ?case by (cases n) auto
qed

lemma cstr_take: "cstring u \<Longrightarrow> length u < n \<Longrightarrow> takeWhile (\<lambda>c. c \<noteq> NUL) (take n (u @ NUL # r)) = u"
proof (induction u arbitrary: n)
  case Nil
  then show ?case by (cases n) auto
next
  case (Cons a u)
  then show ?case by (cases n) auto
qed

definition copying :: "string \<Rightarrow> nat \<Rightarrow> cbuf \<Rightarrow> cbuf \<Rightarrow> nat \<Rightarrow> bool" where
  "copying s lim dest d res \<longleftrightarrow> length d = length dest \<and> lim \<le> length dest \<and>
     res \<le> lim \<and> res \<le> length s \<and> take res d = take res s \<and> drop lim d = drop lim dest"

definition copied :: "string \<Rightarrow> nat \<Rightarrow> cbuf \<Rightarrow> cbuf \<Rightarrow> bool" where
  "copied s lim dest d \<longleftrightarrow> length d = length dest \<and> length s < lim \<and>
     take (Suc (length s)) d = s @ [NUL] \<and> drop lim d = drop lim dest"

lemma copying_put:
  assumes "copying s lim dest d res" "res + length x \<le> lim"
  shows "length (take res s @ x @ drop (res + length x) d) = length dest"
    "drop lim (take res s @ x @ drop (res + length x) d) = drop lim dest"
  using assms by (auto simp: copying_def)

lemma copying_more:
  assumes "copying s lim dest d res" "res + length x \<le> lim" "prefix x (drop res s)"
  shows "copying s lim dest (take res s @ x @ drop (res + length x) d) (res + length x)"
proof -
  have "take (res + length x) s = take res s @ x"
    using assms(3) by (auto simp: take_add prefix_def)
  moreover have "length x \<le> length s - res" using assms(3) prefix_length_le [of x "drop res s"] by simp
  ultimately show ?thesis using assms copying_put [OF assms(1,2)]
    by (auto simp: copying_def)
qed

lemma copying_end:
  assumes "copying s lim dest d res" "res + length x \<le> lim" "x = drop res s @ NUL # z"
  shows "copied s lim dest (take res s @ x @ drop (res + length x) d)"
  using assms copying_put [OF assms(1,2)] by (auto simp: copied_def copying_def)

lemma bytes_returns:
  assumes "cstring s" "copying s (res + count) dest d res"
  shows "case strscpy_bytes d (s @ NUL # r) res count of
      Some (d', Inr n) \<Rightarrow> n = length s \<and> copied s (res + count) dest d'
    | Some (d', Inl e) \<Rightarrow> e = E2BIG \<and> res + count \<le> length s \<and>
        (0 < res + count \<longrightarrow> copied (take (res + count - 1) s) (res + count) dest d')
    | None \<Rightarrow> False"
  using assms(2)
proof (induction count arbitrary: d res)
  case 0
  show ?case
  proof (cases "res = 0")
    case False
    then obtain k where k: "res = Suc k" by (cases res) auto
    have "take (Suc k) d = take (Suc k) s" "k < length d" "k < length s" "length d = length dest"
      using 0 by (auto simp: copying_def k)
    moreover have "take k d = take k s"
      using arg_cong [OF calculation(1), of "take k"] by simp
    ultimately have "take (Suc k) (d[k := NUL]) = take k s @ [NUL]"
      by (simp add: take_Suc_conv_app_nth)
    then show ?thesis using 0 k by (auto simp: wr_def copied_def copying_def)
  qed (use 0 in \<open>auto simp: copying_def\<close>)
next
  case (Suc count)
  define c where "c = (s @ NUL # r) ! res"
  have le: "res \<le> length s" "res < length d" "length d = length dest" "take res d = take res s"
    using Suc.prems by (auto simp: copying_def)
  have rw: "strscpy_bytes d (s @ NUL # r) res (Suc count) =
      (if c = NUL then Some (d[res := c], Inr res) else strscpy_bytes (d[res := c]) (s @ NUL # r) (Suc res) count)"
    using le by (simp add: rd_def wr_def c_def)
  have up: "d[res := c] = take res s @ [c] @ drop (res + length [c]) d"
    using le by (simp add: upd_conv_take_nth_drop)
  show ?case
  proof (cases "res = length s")
    case True
    have c: "c = NUL" by (simp add: c_def True)
    have "copied s (res + Suc count) dest (d[res := c])"
      unfolding up by (rule copying_end [OF Suc.prems]) (simp_all add: True c)
    then show ?thesis unfolding rw by (simp add: c True)
  next
    case False
    then have lt: "res < length s" using le by simp
    then have "c = s ! res" "s ! res \<in> set s" by (simp_all add: c_def nth_append)
    then have "c \<noteq> NUL" using assms(1) by (auto simp: cstring_def)
    have "copying s (res + Suc count) dest (d[res := c]) (res + length [c])"
      unfolding up using False le \<open>c = s ! res\<close>
      by (intro copying_more [OF Suc.prems]) (auto simp: Cons_nth_drop_Suc [symmetric])
    moreover have e: "res + Suc count = Suc res + count" by simp
    ultimately show ?thesis unfolding rw unfolding e
      using Suc.IH [of "Suc res" "d[res := c]"] \<open>c \<noteq> NUL\<close> by simp
  qed
qed

locale word_at_a_time =
  fixes A :: word_arch
  assumes find0: "length w = 8 \<Longrightarrow>
      find0 A w = (if NUL \<in> set w then Some (length (takeWhile (\<lambda>c. c \<noteq> NUL) w)) else None)"
    and clear0: "length w = 8 \<Longrightarrow> find0 A w = Some k \<Longrightarrow>
      clear0 A k w = take k w @ replicate (8 - k) NUL"
    and page: "0 < page_size A" "8 dvd page_size A"
begin

lemma words_returns:
  assumes "cstring s" "copying s (res + count) dest d res" "mx \<le> count"
    "\<And>k. k \<le> length s \<Longrightarrow> res \<le> k \<Longrightarrow> 8 dvd (k - res) \<Longrightarrow> k + 8 \<le> res + mx \<Longrightarrow>
       k + 8 \<le> length (s @ NUL # r)"
  shows "case strscpy_words A d (s @ NUL # r) res count mx of
      Some (d', Inl n) \<Rightarrow> n = length s \<and> copied s (res + count) dest d'
    | Some (d', Inr (res', count')) \<Rightarrow>
        res' + count' = res + count \<and> copying s (res + count) dest d' res'
    | None \<Rightarrow> False"
  using assms(2-)
proof (induction mx arbitrary: d res count rule: less_induct)
  case (less mx)
  show ?case
  proof (cases "8 \<le> mx")
    case False
    then show ?thesis using less.prems by (subst strscpy_words.simps) simp
  next
    case True
    define u where "u = drop res s"
    define w where "w = take 8 (u @ NUL # r)"
    have u: "cstring u" using assms(1) by (auto simp: u_def cstring_def dest: in_set_dropD)
    have res: "res \<le> length s" "res + 8 \<le> res + count" "take res d = take res s"
      "res + count \<le> length d"
      using less.prems True by (auto simp: copying_def)
    have le: "res + 8 \<le> length (s @ NUL # r)" using less.prems(3) [of res] res True by simp
    have w: "length w = 8" using le res by (simp add: w_def u_def)
    have ld: "load8 (s @ NUL # r) res = Some w" using le res by (simp add: load8_def w_def u_def)
    have st: "store8 d res x = Some (take res s @ x @ drop (res + length x) d)" if "length x = 8" for x
      using that res by (simp add: store8_def)
    show ?thesis
    proof (cases "length u < 8")
      case True
      define z where "z = take (7 - length u) (replicate 8 NUL)"
      have f: "find0 A w = Some (length u)"
        using NUL_in_take [OF u, of 8 r] cstr_take [OF u True, of r] find0 [OF w] True
        unfolding w_def [symmetric] by simp
      have "take (length u) w = u" using True by (simp add: w_def)
      moreover have "replicate (8 - length u) NUL = NUL # z" using True
        by (simp add: z_def Suc_diff_le flip: replicate_Suc)
      ultimately have c: "clear0 A (length u) w = u @ NUL # z" using clear0 [OF w f] by simp
      have l: "length (u @ NUL # z) = 8" using True by (simp add: z_def)
      have "copied s (res + count) dest (take res s @ (u @ NUL # z) @ drop (res + length (u @ NUL # z)) d)"
        using less.prems(1) res l by (intro copying_end) (auto simp: u_def)
      moreover have "res + length u = length s" using res(1) by (simp add: u_def)
      ultimately show ?thesis using \<open>8 \<le> mx\<close> st [OF l]
        by (subst strscpy_words.simps) (simp add: ld f c)
    next
      case False
      have f: "find0 A w = None" 
        using NUL_in_take [OF u, of 8 r] find0 [OF w] False unfolding w_def [symmetric] by simp
      have "prefix w u" using False by (simp add: w_def take_is_prefix)
      have p: "copying s (res + count) dest (take res s @ w @ drop (res + length w) d) (res + length w)"
        using less.prems(1) res w \<open>prefix w u\<close> by (intro copying_more) (auto simp: u_def)
      have e: "strscpy_words A d (s @ NUL # r) res count mx =
          strscpy_words A (take res s @ w @ drop (res + length w) d) (s @ NUL # r) (res + 8) (count - 8) (mx - 8)"
        using \<open>8 \<le> mx\<close> st [OF w] by (subst strscpy_words.simps) (simp add: ld f)
      have c: "res + 8 + (count - 8) = res + count" using less.prems(2) \<open>8 \<le> mx\<close> by simp
      have b: "k + 8 \<le> length (s @ NUL # r)"
        if "k \<le> length s" "res + 8 \<le> k" "8 dvd (k - (res + 8))" "k + 8 \<le> res + 8 + (mx - 8)" for k
      proof -
        have "(k - (res + 8)) + 8 = k - res" using that(2) by simp
        then have "8 dvd (k - res)" using dvd_add [OF that(3) dvd_refl] by (simp only:)
        then show ?thesis using less.prems(3) [of k] that \<open>8 \<le> mx\<close> by simp
      qed
      have lt: "mx - 8 < mx" "mx - 8 \<le> count - 8" using \<open>8 \<le> mx\<close> less.prems(2) by auto
      show ?thesis unfolding e using p unfolding w
        by (intro less.IH [OF lt(1), of "res + 8" "count - 8", unfolded c, OF _ lt(2)] b)
    qed
  qed
qed

lemma max_in_page:
  assumes "(src_addr + length src) mod page_size A = 0" "k < length src" "8 dvd k"
    "k + 8 \<le> strscpy_max A dest_addr src_addr count"
  shows "k + 8 \<le> length src"
proof (cases "src_addr mod 8 = 0")
  case True
  have "8 dvd src_addr + length src" using assms(1) page by (metis dvd_imp_mod_0 dvd_trans mod_0_imp_dvd)
  then have "8 dvd length src" using True by (simp add: dvd_add_right_iff mod_eq_0_iff_dvd)
  then show ?thesis using assms(2,3) by (auto elim!: dvdE)
next
  case False
  let ?p = "page_size A"
  have "k + 8 \<le> ?p - src_addr mod ?p"
    using assms(4) False by (auto simp: strscpy_max_def Let_def split: if_splits)
  moreover have "?p - src_addr mod ?p \<le> length src"
  proof -
    have "(src_addr mod ?p + length src) mod ?p = 0" using assms(1) by (simp add: mod_add_left_eq)
    then have "?p dvd src_addr mod ?p + length src" by (simp add: mod_eq_0_iff_dvd)
    moreover have "0 < src_addr mod ?p + length src" using assms(2) by (cases src) auto
    ultimately have "?p \<le> src_addr mod ?p + length src" by (rule dvd_imp_le)
    then show ?thesis by simp
  qed
  ultimately show ?thesis by simp
qed

lemma strscpy_max_le: "strscpy_max A dest_addr src_addr count \<le> count"
  by (simp add: strscpy_max_def Let_def)

lemma strscpy_copied:
  assumes "cstring s" "0 < count" "count \<le> INT_MAX" "count \<le> length dest"
    "(src_addr + length (s @ NUL # r)) mod page_size A = 0"
  shows "\<exists>d. strscpy A dest_addr src_addr dest (s @ NUL # r) count =
      Some (d, if length s < count then Inr (length s) else Inl E2BIG) \<and>
    copied (take (count - 1) s) count dest d"
proof -
  let ?mx = "strscpy_max A dest_addr src_addr count"
  have c0: "copying s (0 + count) dest dest 0" using assms(4) by (simp add: copying_def)
  have m: "k + 8 \<le> length (s @ NUL # r)" 
    if "k \<le> length s" "0 \<le> k" "8 dvd (k - 0)" "k + 8 \<le> 0 + ?mx" for k
    using that by (intro max_in_page [OF assms(5)]) auto
  note W = words_returns [OF assms(1) c0, of ?mx r, OF strscpy_max_le m]
  obtain d x where dx: "strscpy_words A dest (s @ NUL # r) 0 count ?mx = Some (d, x)"
    using W by (auto split: option.splits)
  have eq: "strscpy A dest_addr src_addr dest (s @ NUL # r) count =
      (case x of Inl n \<Rightarrow> Some (d, Inr n)
       | Inr (res, left) \<Rightarrow> strscpy_bytes d (s @ NUL # r) res left)"
    using assms(2,3) by (simp add: strscpy_def dx)
  show ?thesis
  proof (cases x)
    case (Inl n)
    then have "n = length s \<and> copied s count dest d"
      using W dx by auto
    moreover from this have "length s < count" by (simp add: copied_def)
    ultimately show ?thesis by (simp add: eq Inl)
  next
    case (Inr y)
    obtain res left where y: "y = (res, left)" by (cases y)
    then have p: "res + left = count \<and> copying s (res + left) dest d res"
      using W dx Inr by auto
    note B = bytes_returns [OF assms(1) p [THEN conjunct2], of r]
    obtain d' z where z: "strscpy_bytes d (s @ NUL # r) res left = Some (d', z)"
      using B by (auto split: option.splits)
    show ?thesis
    proof (cases z)
      case (Inl e)
      then show ?thesis using B p assms(2) by (simp add: eq Inr y z)
    next
      case (Inr n)
      then have "n = length s \<and> copied s count dest d'" using B p z by simp
      moreover from this have "length s < count" by (simp add: copied_def)
      ultimately show ?thesis using \<open>x = Inr y\<close> by (simp add: eq y z Inr)
    qed
  qed
qed

end

section \<open>Properties\<close>

definition byte_arch :: "bool \<Rightarrow> word_arch" where
  "byte_arch u = \<lparr>
     find0 = (\<lambda>w. if NUL \<in> set w then Some (length (takeWhile (\<lambda>c. c \<noteq> NUL) w)) else None),
     clear0 = (\<lambda>k w. take k w @ replicate (8 - k) NUL),
     unaligned_ok = u, page_size = 4096\<rparr>"

interpretation bytewise: word_at_a_time "byte_arch u" for u
  by unfold_locales (auto simp: byte_arch_def)

text \<open>C35: \<open>strscpy\<close> copies what fits and always terminates it.  For a source string \<open>s\<close> whose
  memory is mapped up to the end of a page, and a destination of at least \<open>count\<close> bytes, the call
  returns without reading or writing outside either object, whatever the alignment of the two
  pointers and whether or not the word-at-a-time path is taken: the destination then holds the
  first \<open>count - 1\<close> characters of \<open>s\<close> and a NUL, nothing beyond its first \<open>count\<close> bytes has
  changed, and the result is the length of \<open>s\<close>, or \<open>-E2BIG\<close> exactly when \<open>s\<close> was cut.\<close>
theorem strscpy_safe:
  assumes "word_at_a_time A" "cstring s" "0 < count" "count \<le> INT_MAX" "count \<le> length dest"
    "(src_addr + length (s @ NUL # r)) mod page_size A = 0"
  shows "\<exists>d. strscpy A dest_addr src_addr dest (s @ NUL # r) count =
      Some (d, if length s < count then Inr (length s) else Inl E2BIG) \<and>
    cstr d = take (count - 1) s \<and> length d = length dest \<and> drop count d = drop count dest"
proof -
  obtain d where d: "strscpy A dest_addr src_addr dest (s @ NUL # r) count =
      Some (d, if length s < count then Inr (length s) else Inl E2BIG)"
    "copied (take (count - 1) s) count dest d"
    using word_at_a_time.strscpy_copied [OF assms] by blast
  let ?t = "take (count - 1) s"
  have "d = ?t @ NUL # drop (Suc (length ?t)) d"
    using d(2) append_take_drop_id [of "Suc (length ?t)" d] by (simp add: copied_def)
  moreover have "cstring ?t" using assms(2) by (auto simp: cstring_def dest: in_set_takeD)
  ultimately have "cstr d = ?t" using cstr_append [of ?t] by metis
  then show ?thesis using d by (auto simp: copied_def)
qed

theorem strscpy_safe_witness:
  "\<exists>d. strscpy (byte_arch True) 3 4085 (replicate 12 CHR ''x'') (''initcall'' @ NUL # ''ab'') 5 =
      Some (d, Inl E2BIG) \<and> cstr d = ''init'' \<and> length d = 12 \<and>
    drop 5 d = replicate 7 CHR ''x''"
proof -
  have "word_at_a_time (byte_arch True)" by (rule bytewise.word_at_a_time_axioms)
  moreover have "cstring ''initcall''" by (simp add: NUL_def)
  ultimately show ?thesis
    using strscpy_safe [of "byte_arch True" "''initcall''" 5 "replicate 12 CHR ''x''" 4085 "''ab''" 3]
    by (simp add: INT_MAX_def byte_arch_def)
qed

text \<open>C36: \<open>memchr_inv\<close>, which compares eight bytes at a time, finds the first byte different from
  the given one: for every alignment, byte order and way of spreading the byte over a word it
  returns the least such offset, or NULL when there is none.  The number of words is kept in an
  \<open>unsigned int\<close>, so this holds below \<open>2 ^ 35\<close> bytes.\<close>
theorem memchr_inv_first:
  assumes "p + n \<le> length mem" "n < 2 ^ 35"
  shows "\<exists>res. memchr_inv cfg big base mem p v n = Some res \<and>
    (case res of None \<Rightarrow> \<forall>i<n. mem ! (p + i) = v
     | Some k \<Rightarrow> p \<le> k \<and> k < p + n \<and> mem ! k \<noteq> v \<and> (\<forall>i. p \<le> i \<and> i < k \<longrightarrow> mem ! i = v))"
proof (cases "first_other mem p v n")
  case None
  then show ?thesis using first_other_iff [of mem p v n] by (simp add: memchr_inv_area [OF assms])
next
  case (Some k)
  then show ?thesis using first_other_Some [OF Some] by (simp add: memchr_inv_area [OF assms])
qed

theorem memchr_inv_first_witness:
  "\<exists>k. memchr_inv No_Mul False 5 (replicate 18 CHR ''a'' @ ''ba'') 0 CHR ''a'' 20 = Some (Some k) \<and>
    (replicate 18 CHR ''a'' @ ''ba'') ! k \<noteq> CHR ''a''"
proof -
  let ?m = "replicate 18 CHR ''a'' @ ''ba''"
  obtain res where r: "memchr_inv No_Mul False 5 ?m 0 CHR ''a'' 20 = Some res"
    and c: "case res of None \<Rightarrow> \<forall>i<20. ?m ! (0 + i) = CHR ''a''
     | Some k \<Rightarrow> 0 \<le> k \<and> k < 0 + 20 \<and> ?m ! k \<noteq> CHR ''a'' \<and>
         (\<forall>i. 0 \<le> i \<and> i < k \<longrightarrow> ?m ! i = CHR ''a'')"
    using memchr_inv_first [of 0 20 ?m No_Mul False 5 "CHR ''a''"] by auto
  have "?m ! 18 \<noteq> CHR ''a''" by (simp add: nth_append)
  then have "res \<noteq> None" using c by (cases res) (auto dest: spec [of _ 18])
  then show ?thesis using r c by (cases res) auto
qed

end
