(* ===== verification/Binary64.thy ===== *)
theory Binary64
  imports Complex_Main Prelude "HOL-Library.Log_Nat"
begin

text \<open>
  The numbers of the web server and of the boot chart scripts.  A JavaScript Number and a Perl
  floating point value are IEEE 754 binary64: NaN, the infinities, the two zeros and the rationals
  with a 53 bit significand.  An operation computes the exact rational result and rounds it to the
  nearest value, ties to even; overflow gives an infinity and underflow a zero of the right sign.
\<close>

section \<open>Rounding\<close>

datatype number = NaN | Inf bool | Zero bool | Fin rat

definition half_even :: "rat \<Rightarrow> int" where
  "half_even x =
     (let n = \<lfloor>x\<rfloor>; r = x - of_int n in
      if r < 1 / 2 then n else if 1 / 2 < r then n + 1 else if even n then n else n + 1)"

definition ilog2 :: "rat \<Rightarrow> int" where
  "ilog2 x =
     (let (p, q) = quotient_of x; k = bitlen p - bitlen q in
      if 2 powi k \<le> x then k else k - 1)"

definition round64 :: "rat \<Rightarrow> number" where
  "round64 x =
     (if x = 0 then Zero False
      else
        let e = max (ilog2 \<bar>x\<bar> - 52) (- 1074);
            y = of_int (half_even (\<bar>x\<bar> / 2 powi e)) * 2 powi e in
        if y = 0 then Zero (x < 0)
        else if 2 ^ 1024 \<le> y then Inf (x < 0)
        else Fin (if x < 0 then - y else y))"

section \<open>Arithmetic\<close>

fun val :: "number \<Rightarrow> rat" where
  "val (Fin q) = q"
| "val x = 0"

fun negative :: "number \<Rightarrow> bool" where
  "negative NaN = False"
| "negative (Inf s) = s"
| "negative (Zero s) = s"
| "negative (Fin q) = (q < 0)"

fun fneg :: "number \<Rightarrow> number" where
  "fneg NaN = NaN"
| "fneg (Inf s) = Inf (\<not> s)"
| "fneg (Zero s) = Zero (\<not> s)"
| "fneg (Fin q) = Fin (- q)"

fun fadd :: "number \<Rightarrow> number \<Rightarrow> number" where
  "fadd NaN y = NaN"
| "fadd (Inf s) NaN = NaN"
| "fadd (Inf s) (Inf t) = (if s = t then Inf s else NaN)"
| "fadd (Inf s) y = Inf s"
| "fadd (Zero s) NaN = NaN"
| "fadd (Zero s) (Inf t) = Inf t"
| "fadd (Zero s) (Zero t) = Zero (s \<and> t)"
| "fadd (Zero s) (Fin q) = Fin q"
| "fadd (Fin p) NaN = NaN"
| "fadd (Fin p) (Inf t) = Inf t"
| "fadd (Fin p) (Zero t) = Fin p"
| "fadd (Fin p) (Fin q) = round64 (p + q)"

definition fsub :: "number \<Rightarrow> number \<Rightarrow> number" where
  "fsub x y = fadd x (fneg y)"

definition fmul :: "number \<Rightarrow> number \<Rightarrow> number" where
  "fmul x y =
     (let s = (negative x \<noteq> negative y) in
      case (x, y) of
        (NaN, u) \<Rightarrow> NaN
      | (u, NaN) \<Rightarrow> NaN
      | (Inf a, Zero b) \<Rightarrow> NaN
      | (Zero a, Inf b) \<Rightarrow> NaN
      | (Inf a, u) \<Rightarrow> Inf s
      | (u, Inf b) \<Rightarrow> Inf s
      | (Fin p, Fin q) \<Rightarrow> round64 (p * q)
      | (u, v) \<Rightarrow> Zero s)"

definition fdiv :: "number \<Rightarrow> number \<Rightarrow> number" where
  "fdiv x y =
     (let s = (negative x \<noteq> negative y) in
      case (x, y) of
        (NaN, u) \<Rightarrow> NaN
      | (u, NaN) \<Rightarrow> NaN
      | (Inf a, Inf b) \<Rightarrow> NaN
      | (Inf a, u) \<Rightarrow> Inf s
      | (u, Inf b) \<Rightarrow> Zero s
      | (Zero a, Zero b) \<Rightarrow> NaN
      | (Fin p, Zero b) \<Rightarrow> Inf s
      | (Zero a, Fin q) \<Rightarrow> Zero s
      | (Fin p, Fin q) \<Rightarrow> round64 (p / q))"

fun flt :: "number \<Rightarrow> number \<Rightarrow> bool" where
  "flt NaN y = False"
| "flt x NaN = False"
| "flt (Inf s) (Inf t) = (s \<and> \<not> t)"
| "flt (Inf s) y = s"
| "flt x (Inf t) = (\<not> t)"
| "flt x y = (val x < val y)"

fun feq :: "number \<Rightarrow> number \<Rightarrow> bool" where
  "feq NaN y = False"
| "feq x NaN = False"
| "feq (Inf s) (Inf t) = (s = t)"
| "feq (Inf s) y = False"
| "feq x (Inf t) = False"
| "feq x y = (val x = val y)"

definition fle :: "number \<Rightarrow> number \<Rightarrow> bool" where
  "fle x y \<longleftrightarrow> flt x y \<or> feq x y"

section \<open>Facts about rounding\<close>

lemma half_even_of_int [simp]: "half_even (of_int n) = n"
  by (simp add: half_even_def)

lemma half_even_nonneg: "0 \<le> x \<Longrightarrow> 0 \<le> half_even x"
  by (simp add: half_even_def Let_def)

lemma half_even_le: "x \<le> of_int n \<Longrightarrow> half_even x \<le> n"
proof (cases "x = of_int n")
  case False
  assume "x \<le> of_int n"
  with False have "\<lfloor>x\<rfloor> < n" by (simp add: floor_less_iff)
  then show ?thesis by (simp add: half_even_def Let_def)
qed simp

lemma ilog2_bounds:
  assumes "0 < x"
  shows "2 powi ilog2 x \<le> x" "x < 2 powi (ilog2 x + 1)"
proof -
  obtain p q where pq: "quotient_of x = (p, q)" by (cases "quotient_of x") auto
  have q: "0 < q" using quotient_of_denom_pos [OF pq] .
  have x: "x = of_int p / of_int q" using quotient_of_div [OF pq] .
  have p: "0 < p" using assms q x by (simp add: zero_less_divide_iff)
  define a where "a = nat (bitlen p)"
  define b where "b = nat (bitlen q)"
  have ab: "bitlen p = int a" "bitlen q = int b"
    by (simp_all add: a_def b_def bitlen_nonneg)
  have ab0: "0 < a" "0 < b"
    using bitlen_bounds [OF p] bitlen_bounds [OF q] p q by (auto intro!: gr0I simp: ab)
  have n1: "nat (int a - 1) = a - 1" "nat (int b - 1) = b - 1" by simp_all
  have p1: "2 ^ (a - 1) \<le> p" "p < 2 ^ a" and q1: "2 ^ (b - 1) \<le> q" "q < 2 ^ b"
    using bitlen_bounds [OF p] bitlen_bounds [OF q] ab n1 by simp_all
  have P1: "(2::rat) ^ (a - 1) \<le> of_int p" "(of_int p :: rat) < 2 ^ a"
    using p1 by (metis of_int_le_iff of_int_numeral of_int_power, metis of_int_less_iff of_int_numeral of_int_power)
  have Q1: "(2::rat) ^ (b - 1) \<le> of_int q" "(of_int q :: rat) < 2 ^ b"
    using q1 by (metis of_int_le_iff of_int_numeral of_int_power, metis of_int_less_iff of_int_numeral of_int_power)
  have e: "(2::rat) powi (int a - int b) = 2 ^ a / 2 ^ b"
    by (simp add: power_int_diff)
  have e1: "(2::rat) powi (int a - int b + 1) = 2 * 2 ^ a / 2 ^ b"
    by (subst power_int_add) (simp_all add: e)
  have e2: "(2::rat) powi (int a - int b - 1) = 2 ^ a / (2 * 2 ^ b)"
    by (subst power_int_diff) (simp_all add: e)
  have Q0: "(0::rat) < of_int q" using q by simp
  have up: "x < 2 powi (int a - int b + 1)"
  proof -
    have "x * 2 ^ (b - 1) \<le> of_int p"
      using Q1(1) Q0 p unfolding x by (simp add: divide_le_eq mult_left_mono)
    then have "x * 2 ^ (b - 1) < 2 ^ a" using P1(2) by linarith
    moreover have "(2::rat) ^ b = 2 * 2 ^ (b - 1)" using ab0(2) by (metis power_minus_mult mult.commute)
    ultimately show ?thesis
      unfolding e1 by (simp add: less_divide_eq)
  qed
  have lo: "2 powi (int a - int b - 1) \<le> x"
  proof -
    have "of_int p \<le> x * 2 ^ b"
      using Q1(2) Q0 p unfolding x by (simp add: le_divide_eq mult_left_mono)
    then have "2 ^ (a - 1) \<le> x * 2 ^ b" using P1(1) by linarith
    moreover have "(2::rat) ^ a = 2 * 2 ^ (a - 1)" using ab0(1) by (metis power_minus_mult mult.commute)
    ultimately show ?thesis
      unfolding e2 by (simp add: divide_le_eq)
  qed
  show "2 powi ilog2 x \<le> x" "x < 2 powi (ilog2 x + 1)"
    using up lo by (auto simp: ilog2_def pq ab Let_def)
qed

lemma ilog2_less: "0 < x \<Longrightarrow> x \<le> 2 powi k \<Longrightarrow> ilog2 x \<le> k"
proof (rule ccontr)
  assume x: "0 < x" "x \<le> 2 powi k" and "\<not> ilog2 x \<le> k"
  then have "(2 :: rat) powi k < 2 powi ilog2 x" by (intro power_int_strict_increasing) auto
  then show False using ilog2_bounds(1) [of x] x by simp
qed

lemma ilog2_nonneg: "1 \<le> x \<Longrightarrow> 0 \<le> ilog2 x"
proof (rule ccontr)
  assume x: "1 \<le> x" and "\<not> 0 \<le> ilog2 x"
  then have "2 powi (ilog2 x + 1) \<le> (2 :: rat) powi 0" by (intro power_int_increasing) auto
  then show False using ilog2_bounds(2) [of x] x by simp
qed

lemma scaled_int:
  assumes "e \<le> k" shows "(2 :: rat) powi k / 2 powi e = of_int (2 ^ nat (k - e))"
proof -
  have "(2 :: rat) powi k / 2 powi e = 2 powi (k - e)" by (simp add: power_int_diff)
  then show ?thesis using assms by (simp add: power_int_def)
qed

lemma round64_bound:
  assumes x: "0 < x" "x \<le> 2 powi k" and k: "- 1074 \<le> k" "k < 1024"
  shows "round64 x = Zero False \<or> (\<exists>y. round64 x = Fin y \<and> 0 < y \<and> y \<le> 2 powi k)"
proof -
  define e where "e = max (ilog2 x - 52) (- 1074)"
  define y where "y = of_int (half_even (x / 2 powi e)) * (2 :: rat) powi e"
  have ek: "e \<le> k" using ilog2_less [OF x] k(1) by (simp add: e_def)
  have "x / 2 powi e \<le> of_int (2 ^ nat (k - e))"
    unfolding scaled_int [OF ek, symmetric] using x by (simp add: divide_right_mono)
  then have "half_even (x / 2 powi e) \<le> 2 ^ nat (k - e)" by (rule half_even_le)
  then have "of_int (half_even (x / 2 powi e)) \<le> (2 :: rat) powi k / 2 powi e"
    unfolding scaled_int [OF ek] by (subst of_int_le_iff)
  then have yk: "y \<le> 2 powi k" by (simp add: y_def le_divide_eq)
  have y0: "0 \<le> y" using x half_even_nonneg [of "x / 2 powi e"] by (simp add: y_def)
  have "(2 :: rat) powi k < 2 powi 1024" using k(2) by (intro power_int_strict_increasing) auto
  then have y1: "y < 2 ^ 1024" using yk by (simp add: power_int_def)
  have "round64 x = (if y = 0 then Zero False else if 2 ^ 1024 \<le> y then Inf False else Fin y)"
    using x by (simp add: round64_def e_def y_def Let_def)
  then show ?thesis using y0 y1 yk by auto
qed

lemma round64_minus: "x \<noteq> 0 \<Longrightarrow> round64 (- x) = fneg (round64 x)"
  by (auto simp: round64_def Let_def)

lemma round64_pos_int:
  assumes "0 < n" "n \<le> 2 ^ 53"
  shows "round64 (of_int n) = Fin (of_int n)"
proof -
  define e where "e = max (ilog2 (of_int n) - 52) (- 1074)"
  have n1: "1 \<le> (of_int n :: rat)" using assms by simp
  have nn: "(of_int n :: rat) \<le> 2 powi 53"
    using assms(2) by (metis of_int_le_iff of_int_numeral of_int_power power_int_numeral)
  have l: "0 \<le> ilog2 (of_int n)" "ilog2 (of_int n) \<le> 53"
    using ilog2_nonneg [OF n1] ilog2_less [OF _ nn] assms by simp_all
  have "\<exists>m. (of_int n :: rat) / 2 powi e = of_int m"
  proof (cases "e \<le> 0")
    case True
    then have "(2 :: rat) powi e = inverse (2 ^ nat (- e))"
      by (simp add: power_int_def power_one_over inverse_eq_divide)
    then have "(of_int n :: rat) / 2 powi e = of_int (n * 2 ^ nat (- e))" by (simp add: divide_inverse)
    then show ?thesis by blast
  next
    case False
    then have e: "e = 1" "ilog2 (of_int n) = 53" using l by (auto simp: e_def)
    then have "(2 :: rat) powi 53 \<le> of_int n" using ilog2_bounds(1) [of "of_int n"] n1 by simp
    then have "(of_int n :: rat) = 2 ^ 53" using nn by simp
    then have "(of_int n :: rat) / 2 powi e = of_int (2 ^ 52)" using e by simp
    then show ?thesis by blast
  qed
  then obtain m where m: "(of_int n :: rat) / 2 powi e = of_int m" by blast
  then have y: "of_int m * 2 powi e = (of_int n :: rat)" by (simp add: divide_eq_eq)
  have m0: "m \<noteq> 0" using y assms by auto
  have "n < 2 ^ 1024" using assms(2) by simp
  then have "(of_int n :: rat) < of_int (2 ^ 1024)" by (subst of_int_less_iff)
  then have "(of_int n :: rat) < 2 ^ 1024" by simp
  moreover have "round64 (of_int n) = (if (of_int n :: rat) = 0 then Zero False
      else if 2 ^ 1024 \<le> (of_int n :: rat) then Inf False else Fin (of_int n))"
    using n1 assms m y m0 by (simp add: round64_def Let_def flip: e_def)
  ultimately show ?thesis using assms by simp
qed

end
