(* ===== verification/Kstrtox.thy ===== *)
theory Kstrtox
  imports KString
begin

unbundle bit_operations_syntax

text \<open>
  Integers and their notation: the conversions of \<^verbatim>\<open>lib/kstrtox.c\<close>, the \<open>simple_strto*\<close> family and
  the decimal printer of \<^verbatim>\<open>lib/vsprintf.c\<close>.  Unsigned C integers are natural numbers with the
  reduction modulo their width written out; \<open>unsigned long\<close> and \<open>unsigned long long\<close> are 64 bits
  wide.  The results are \<^const>\<open>None\<close> for a read outside the buffer, and otherwise an error number
  or the value.
\<close>

section \<open>Parsing\<close>

definition KSTRTOX_OVERFLOW :: nat where
  "KSTRTOX_OVERFLOW = 2 ^ 31"

definition ULLONG_MAX :: nat where
  "ULLONG_MAX = 2 ^ 64 - 1"

definition parse_integer_fixup_radix :: "(char \<Rightarrow> char) \<Rightarrow> (char \<Rightarrow> bool) \<Rightarrow> cbuf \<Rightarrow> nat
    \<Rightarrow> (nat \<times> nat) option" where
  "parse_integer_fixup_radix lower isxdigit s base = do {
     base' \<leftarrow> (if base = 0 then do {
         c0 \<leftarrow> rd s 0;
         if c0 = CHR ''0'' then do {
           c1 \<leftarrow> rd s 1;
           if lower c1 = CHR ''x'' then do {
             c2 \<leftarrow> rd s 2;
             Some (if isxdigit c2 then 16 else 8)
           } else Some 8
         } else Some 10
       } else Some base);
     if base' = 16 then do {
       c0 \<leftarrow> rd s 0;
       if c0 = CHR ''0'' then do {
         c1 \<leftarrow> rd s 1;
         Some (if lower c1 = CHR ''x'' then 2 else 0, base')
       } else Some (0, base')
     } else Some (0, base')
   }"

definition digit_val :: "nat \<Rightarrow> char \<Rightarrow> nat option" where
  "digit_val base ch =
     (let c = of_char ch; lc = c OR 0x20;
          v = (if 48 \<le> c \<and> c \<le> 57 then Some (c - 48)
               else if 97 \<le> lc \<and> lc \<le> 102 then Some (lc - 97 + 10) else None)
      in case v of None \<Rightarrow> None | Some val \<Rightarrow> if val \<ge> base then None else Some val)"

fun parse_integer_loop :: "cbuf \<Rightarrow> nat \<Rightarrow> nat \<Rightarrow> nat \<Rightarrow> (nat \<times> nat) option" where
  "parse_integer_loop [] base res rv = None"
| "parse_integer_loop (c # s) base res rv =
     (case digit_val base c of None \<Rightarrow> Some (rv, res)
      | Some val \<Rightarrow>
          let rv' = (if res div 2 ^ 60 \<noteq> 0 \<and> res > (ULLONG_MAX - val) div base
                     then rv OR KSTRTOX_OVERFLOW else rv)
          in parse_integer_loop s base ((res * base + val) mod 2 ^ 64) ((rv' + 1) mod 2 ^ 32))"

definition parse_integer :: "cbuf \<Rightarrow> nat \<Rightarrow> (nat \<times> nat) option" where
  "parse_integer s base = parse_integer_loop s base 0 0"

text \<open>The two header macros these functions use: \<open>_tolower\<close> and \<open>isxdigit\<close>.\<close>
record radix_macros =
  rm_tolower :: "char \<Rightarrow> char"
  rm_isxdigit :: "char \<Rightarrow> bool"

definition kstrtoull0 :: "radix_macros \<Rightarrow> cbuf \<Rightarrow> nat \<Rightarrow> (errno + nat) option" where
  "kstrtoull0 M s base = do {
     (off, base') \<leftarrow> parse_integer_fixup_radix (rm_tolower M) (rm_isxdigit M) s base;
     (rv, res) \<leftarrow> parse_integer (drop off s) base';
     if rv AND KSTRTOX_OVERFLOW \<noteq> 0 then Some (Inl ERANGE)
     else if rv = 0 then Some (Inl EINVAL)
     else do {
       c \<leftarrow> rd s (off + rv);
       c' \<leftarrow> (if c = CHR 0x0A then rd s (off + rv + 1) else Some c);
       Some (if c' \<noteq> NUL then Inl EINVAL else Inr res)
     }
   }"

definition kstrtoull :: "radix_macros \<Rightarrow> cbuf \<Rightarrow> nat \<Rightarrow> (errno + nat) option" where
  "kstrtoull M s base = do {
     c \<leftarrow> rd s 0;
     kstrtoull0 M (if c = CHR ''+'' then drop 1 s else s) base
   }"

definition s_of :: "nat \<Rightarrow> nat \<Rightarrow> int" where
  "s_of bits x = (let y = x mod 2 ^ bits in if y \<ge> 2 ^ (bits - 1) then int y - 2 ^ bits else int y)"

definition neg64 :: "nat \<Rightarrow> nat" where
  "neg64 x = (2 ^ 64 - x) mod 2 ^ 64"

definition kstrtoll :: "radix_macros \<Rightarrow> cbuf \<Rightarrow> nat \<Rightarrow> (errno + int) option" where
  "kstrtoll M s base = do {
     c \<leftarrow> rd s 0;
     if c = CHR ''-'' then do {
       r \<leftarrow> kstrtoull0 M (drop 1 s) base;
       Some (case r of Inl e \<Rightarrow> Inl e
         | Inr tmp \<Rightarrow> if s_of 64 (neg64 tmp) > 0 then Inl ERANGE else Inr (s_of 64 (neg64 tmp)))
     } else do {
       r \<leftarrow> kstrtoull M s base;
       Some (case r of Inl e \<Rightarrow> Inl e
         | Inr tmp \<Rightarrow> if s_of 64 tmp < 0 then Inl ERANGE else Inr (s_of 64 tmp))
     }
   }"

definition narrow_u :: "nat \<Rightarrow> radix_macros \<Rightarrow> cbuf \<Rightarrow> nat \<Rightarrow> (errno + nat) option" where
  "narrow_u bits M s base = do {
     r \<leftarrow> kstrtoull M s base;
     Some (case r of Inl e \<Rightarrow> Inl e
       | Inr tmp \<Rightarrow> if tmp \<noteq> tmp mod 2 ^ bits then Inl ERANGE else Inr tmp)
   }"

definition narrow_s :: "nat \<Rightarrow> radix_macros \<Rightarrow> cbuf \<Rightarrow> nat \<Rightarrow> (errno + int) option" where
  "narrow_s bits M s base = do {
     r \<leftarrow> kstrtoll M s base;
     Some (case r of Inl e \<Rightarrow> Inl e
       | Inr tmp \<Rightarrow> if tmp \<noteq> s_of bits (nat (tmp mod 2 ^ bits)) then Inl ERANGE else Inr tmp)
   }"

definition kstrtoul0 :: "radix_macros \<Rightarrow> cbuf \<Rightarrow> nat \<Rightarrow> (errno + nat) option" where
  "kstrtoul0 = narrow_u 64"

definition kstrtol0 :: "radix_macros \<Rightarrow> cbuf \<Rightarrow> nat \<Rightarrow> (errno + int) option" where
  "kstrtol0 = narrow_s 64"

definition kstrtouint :: "radix_macros \<Rightarrow> cbuf \<Rightarrow> nat \<Rightarrow> (errno + nat) option" where
  "kstrtouint = narrow_u 32"

definition kstrtoint :: "radix_macros \<Rightarrow> cbuf \<Rightarrow> nat \<Rightarrow> (errno + int) option" where
  "kstrtoint = narrow_s 32"

definition kstrtou16 :: "radix_macros \<Rightarrow> cbuf \<Rightarrow> nat \<Rightarrow> (errno + nat) option" where
  "kstrtou16 = narrow_u 16"

definition kstrtos16 :: "radix_macros \<Rightarrow> cbuf \<Rightarrow> nat \<Rightarrow> (errno + int) option" where
  "kstrtos16 = narrow_s 16"

definition kstrtou8 :: "radix_macros \<Rightarrow> cbuf \<Rightarrow> nat \<Rightarrow> (errno + nat) option" where
  "kstrtou8 = narrow_u 8"

definition kstrtos8 :: "radix_macros \<Rightarrow> cbuf \<Rightarrow> nat \<Rightarrow> (errno + int) option" where
  "kstrtos8 = narrow_s 8"

definition kstrtobool :: "cbuf option \<Rightarrow> (errno + bool) option" where
  "kstrtobool s =
     (case s of None \<Rightarrow> Some (Inl EINVAL)
      | Some b \<Rightarrow> do {
          c \<leftarrow> rd b 0;
          if c \<in> {CHR ''y'', CHR ''Y'', CHR ''1''} then Some (Inr True)
          else if c \<in> {CHR ''n'', CHR ''N'', CHR ''0''} then Some (Inr False)
          else if c \<in> {CHR ''o'', CHR ''O''} then do {
            d \<leftarrow> rd b 1;
            Some (if d \<in> {CHR ''n'', CHR ''N''} then Inr True
                  else if d \<in> {CHR ''f'', CHR ''F''} then Inr False else Inl EINVAL)
          } else Some (Inl EINVAL)
        })"

text \<open>
  The variants that take their string from user memory: \<open>user n\<close> is the result of
  \<open>copy_from_user\<close> on \<open>n\<close> bytes, \<^const>\<open>None\<close> when some could not be copied.
\<close>
definition from_user :: "nat \<Rightarrow> (nat \<Rightarrow> cbuf option) \<Rightarrow> nat \<Rightarrow> (cbuf \<Rightarrow> (errno + 'a) option)
    \<Rightarrow> (errno + 'a) option" where
  "from_user bufsize user count g =
     (let count = min count (bufsize - 1)
      in case user count of None \<Rightarrow> Some (Inl EFAULT) | Some b \<Rightarrow> g (b @ [NUL]))"

definition kstrtobool_from_user :: "(nat \<Rightarrow> cbuf option) \<Rightarrow> nat \<Rightarrow> (errno + bool) option" where
  "kstrtobool_from_user user count = from_user 4 user count (\<lambda>b. kstrtobool (Some b))"

definition kstrto_from_user :: "(radix_macros \<Rightarrow> cbuf \<Rightarrow> nat \<Rightarrow> (errno + 'a) option) \<Rightarrow> nat
    \<Rightarrow> radix_macros \<Rightarrow> (nat \<Rightarrow> cbuf option) \<Rightarrow> nat \<Rightarrow> nat \<Rightarrow> (errno + 'a) option" where
  "kstrto_from_user g sizeof M user count base =
     from_user (1 + sizeof * 8 + 1 + 1) user count (\<lambda>b. g M b base)"

definition simple_strtoull :: "radix_macros \<Rightarrow> cbuf \<Rightarrow> nat \<Rightarrow> (nat \<times> nat) option" where
  "simple_strtoull M cp base = do {
     (off, base') \<leftarrow> parse_integer_fixup_radix (rm_tolower M) (rm_isxdigit M) cp base;
     (rv, result) \<leftarrow> parse_integer (drop off cp) base';
     Some (result, off + rv mod KSTRTOX_OVERFLOW)
   }"

definition simple_strtoul :: "radix_macros \<Rightarrow> cbuf \<Rightarrow> nat \<Rightarrow> (nat \<times> nat) option" where
  "simple_strtoul M cp base = simple_strtoull M cp base"

definition simple_strtol :: "radix_macros \<Rightarrow> cbuf \<Rightarrow> nat \<Rightarrow> (int \<times> nat) option" where
  "simple_strtol M cp base = do {
     c \<leftarrow> rd cp 0;
     if c = CHR ''-'' then do {
       (v, e) \<leftarrow> simple_strtoul M (drop 1 cp) base;
       Some (s_of 64 (neg64 v), e + 1)
     } else do {
       (v, e) \<leftarrow> simple_strtoul M cp base;
       Some (s_of 64 v, e)
     }
   }"

definition simple_strtoll :: "radix_macros \<Rightarrow> cbuf \<Rightarrow> nat \<Rightarrow> (int \<times> nat) option" where
  "simple_strtoll M cp base = do {
     c \<leftarrow> rd cp 0;
     if c = CHR ''-'' then do {
       (v, e) \<leftarrow> simple_strtoull M (drop 1 cp) base;
       Some (s_of 64 (neg64 v), e + 1)
     } else do {
       (v, e) \<leftarrow> simple_strtoull M cp base;
       Some (s_of 64 v, e)
     }
   }"

section \<open>Printing decimals\<close>

definition decpair :: "nat \<Rightarrow> string" where
  "decpair x = [char_of (x mod 10 + 0x30), char_of (x div 10 + 0x30)]"

definition div100_a :: "nat \<Rightarrow> nat" where
  "div100_a r = ((r * 0x28f5c29) mod 2 ^ 64) div 2 ^ 32 mod 2 ^ 32"

definition div100_b :: "nat \<Rightarrow> nat" where
  "div100_b r = ((r * 0x147b) mod 2 ^ 32) div 2 ^ 19"

definition out_r :: "nat \<Rightarrow> string" where
  "out_r r = take (if r < 10 then 1 else 2) (decpair r)"

definition put_dec_trunc8 :: "nat \<Rightarrow> string" where
  "put_dec_trunc8 r =
     (if r < 100 then out_r r
      else let q = div100_a r in
        decpair (r - 100 * q) @
        (if q < 100 then out_r q
         else let r = div100_a q in
           decpair (q - 100 * r) @
           (if r < 100 then out_r r
            else let q = div100_b r in decpair (r - 100 * q) @ out_r q)))"

definition put_dec_full8 :: "nat \<Rightarrow> string" where
  "put_dec_full8 r =
     (let q = div100_a r; r' = div100_a q; q' = div100_b r'
      in decpair (r - 100 * q) @ decpair (q - 100 * r') @ decpair (r' - 100 * q') @ decpair q')"

definition put_dec :: "nat \<Rightarrow> string" where
  "put_dec n =
     (let (s1, n) = (if n \<ge> 100 * 1000 * 1000
                     then (put_dec_full8 (n mod 100000000), n div 100000000) else ([], n));
          (s2, n) = (if n \<ge> 100 * 1000 * 1000
                     then (put_dec_full8 (n mod 100000000), n div 100000000) else ([], n))
      in s1 @ s2 @ put_dec_trunc8 (n mod 2 ^ 32))"

definition num_to_str :: "cbuf \<Rightarrow> nat \<Rightarrow> nat \<Rightarrow> nat \<Rightarrow> (cbuf \<times> nat) option" where
  "num_to_str buf sz num width =
     (let tmp = (if num \<le> 9 then [char_of (0x30 + num)] else put_dec num);
          len = length tmp
      in if len > sz \<or> width > sz then Some (buf, 0)
         else do {
           let width' = (if width > len then width - len else 0);
           buf1 \<leftarrow> memset buf CHR '' '' width';
           tail \<leftarrow> memcpy (drop width' buf1) (rev tmp) len;
           Some (take width' buf1 @ tail, len + width')
         })"

section \<open>Decimals\<close>

definition dig :: "nat \<Rightarrow> char" where
  "dig d = char_of (d + 0x30)"

fun rdec :: "nat \<Rightarrow> string" where
  "rdec n = (if n < 10 then [dig n] else dig (n mod 10) # rdec (n div 10))"

declare rdec.simps [simp del]

lemma div100_a_ok: "r < 10 ^ 8 \<Longrightarrow> div100_a r = r div 100"
proof -
  assume r: "r < 10 ^ 8"
  define k where "k = r div 100"
  define j where "j = r mod 100"
  have rj: "r = 100 * k + j" "j < 100" by (simp_all add: k_def j_def)
  have k: "k < 1000000" using r by (simp add: k_def less_mult_imp_div_less)
  have "r * 0x28f5c29 = k * 2 ^ 32 + (4 * k + j * 0x28f5c29)" unfolding rj(1) by simp
  moreover have "4 * k + j * 0x28f5c29 < 2 ^ 32" using rj(2) k by simp
  ultimately have "(r * 0x28f5c29) div 2 ^ 32 = k" by simp
  moreover have "r * 0x28f5c29 < 2 ^ 64" using r by simp
  ultimately show ?thesis using k unfolding div100_a_def by (simp add: k_def)
qed

lemma div100_b_ok: "r < 10 ^ 4 \<Longrightarrow> div100_b r = r div 100"
proof -
  assume r: "r < 10 ^ 4"
  define k where "k = r div 100"
  define j where "j = r mod 100"
  have rj: "r = 100 * k + j" "j < 100" by (simp_all add: k_def j_def)
  have k: "k < 100" using r by (simp add: k_def less_mult_imp_div_less)
  have "r * 0x147b = k * 2 ^ 19 + (12 * k + j * 0x147b)" unfolding rj(1) by simp
  moreover have "12 * k + j * 0x147b < 2 ^ 19" using rj(2) k by simp
  ultimately have "(r * 0x147b) div 2 ^ 19 = k" by simp
  moreover have "r * 0x147b < 2 ^ 32" using r by simp
  ultimately show ?thesis unfolding div100_b_def by (simp add: k_def)
qed

lemma minus_div100: "r - 100 * (r div 100) = r mod (100 :: nat)"
  by (simp add: minus_mult_div_eq_mod)

lemma out_r_rdec: "r < 100 \<Longrightarrow> out_r r = rdec r"
proof (cases "r < 10")
  case True
  then show ?thesis by (subst rdec.simps) (simp add: out_r_def decpair_def dig_def)
next
  case False
  assume "r < 100"
  then have "r div 10 < 10" by (simp add: less_mult_imp_div_less)
  then have "rdec (r div 10) = [dig (r div 10)]" by (subst rdec.simps) simp
  then show ?thesis using False by (subst rdec.simps) (simp add: out_r_def decpair_def dig_def)
qed

lemma rdec_100: "100 \<le> n \<Longrightarrow> rdec n = decpair (n mod 100) @ rdec (n div 100)"
proof -
  assume n: "100 \<le> n"
  have "rdec n = dig (n mod 10) # rdec (n div 10)" using n by (subst rdec.simps) simp
  moreover have "10 \<le> n div 10" using n div_le_mono [OF n, of 10] by simp
  then have "rdec (n div 10) = dig (n div 10 mod 10) # rdec (n div 10 div 10)"
    by (subst rdec.simps) simp
  moreover have "n div 10 div 10 = n div 100" using div_mult2_eq [of n 10 10] by simp
  moreover have "n mod 100 mod 10 = n mod 10" by (simp add: mod_mod_cancel)
  moreover have "n mod 100 div 10 = n div 10 mod 10" using mod_mult2_eq [of n 10 10] by simp
  ultimately show ?thesis by (simp add: decpair_def dig_def)
qed

lemma put_dec_trunc8_rdec: "r < 10 ^ 8 \<Longrightarrow> put_dec_trunc8 r = rdec r"
proof -
  assume r: "r < 10 ^ 8"
  define q where "q = r div 100"
  define p where "p = q div 100"
  have q: "q < 10 ^ 6" using r by (simp add: q_def less_mult_imp_div_less)
  have p: "p < 10 ^ 4" using q by (simp add: p_def less_mult_imp_div_less)
  have s: "p div 100 < 100" using p by (simp add: less_mult_imp_div_less)
  have "rdec p = (if p < 100 then out_r p else decpair (p mod 100) @ out_r (p div 100))"
    using s by (simp add: out_r_rdec rdec_100)
  moreover have "rdec q = (if q < 100 then out_r q else decpair (q mod 100) @ rdec p)"
    by (simp add: out_r_rdec rdec_100 p_def)
  moreover have "rdec r = (if r < 100 then out_r r else decpair (r mod 100) @ rdec q)"
    by (simp add: out_r_rdec rdec_100 q_def)
  moreover have "div100_a r = q" "div100_a q = p" "div100_b p = p div 100"
    using r q p by (simp_all add: div100_a_ok div100_b_ok q_def p_def)
  ultimately show ?thesis
    unfolding put_dec_trunc8_def Let_def
    by (simp add: minus_div100 q_def p_def)
qed

lemma rdec_step: "0 < y \<Longrightarrow> rdec (x + y * 100) = decpair (x mod 100) @ rdec (x div 100 + y)"
proof -
  assume "0 < y"
  then have "100 \<le> x + y * 100" by simp
  moreover have "(x + y * 100) div 100 = x div 100 + y" by simp
  ultimately show ?thesis by (subst rdec_100) (simp_all add: add.commute)
qed

lemma put_dec_full8_rdec:
  assumes "10 ^ 8 \<le> n"
  shows "put_dec_full8 (n mod 10 ^ 8) @ rdec (n div 10 ^ 8) = rdec n"
proof -
  define m where "m = n mod 10 ^ 8"
  define k where "k = n div 10 ^ 8"
  define q where "q = m div 100"
  define p where "p = q div 100"
  have n: "n = m + k * 100000000" by (simp add: m_def k_def)
  have k: "0 < k" using assms by (simp add: k_def div_greater_zero_iff)
  have m: "m < 10 ^ 8" by (simp add: m_def)
  have q: "q < 10 ^ 6" using m by (simp add: q_def less_mult_imp_div_less)
  have p: "p < 10 ^ 4" using q by (simp add: p_def less_mult_imp_div_less)
  have t: "p div 100 < 100" using p by (simp add: less_mult_imp_div_less)
  have "rdec n = decpair (m mod 100) @ rdec (q + k * 1000000)"
    using rdec_step [of "k * 1000000" m] k by (simp add: n q_def mult.commute)
  also have "rdec (q + k * 1000000) = decpair (q mod 100) @ rdec (p + k * 10000)"
    using rdec_step [of "k * 10000" q] k by (simp add: p_def mult.commute)
  also have "rdec (p + k * 10000) = decpair (p mod 100) @ rdec (p div 100 + k * 100)"
    using rdec_step [of "k * 100" p] k by (simp add: mult.commute)
  also have "rdec (p div 100 + k * 100) = decpair (p div 100) @ rdec k"
    using rdec_step [of k "p div 100"] k t by (simp add: mult.commute)
  finally have "rdec n = put_dec_full8 m @ rdec k"
    using m q p by (simp add: put_dec_full8_def Let_def div100_a_ok div100_b_ok minus_div100 q_def p_def)
  then show ?thesis by (simp add: m_def k_def)
qed

lemma put_dec_rdec:
  assumes "n < 2 ^ 64"
  shows "put_dec n = rdec n"
proof -
  have small: "put_dec_trunc8 (k mod 2 ^ 32) = rdec k" if "k < 10 ^ 8" for k
    using that by (simp add: put_dec_trunc8_rdec)
  have full: "put_dec_full8 (k mod 100000000) @ rdec (k div 100000000) = rdec k" if "100000000 \<le> k" for k
    using put_dec_full8_rdec [of k] that by simp
  have d: "n div 100000000 div 100000000 < 10 ^ 8" using assms by (simp add: less_mult_imp_div_less)
  show ?thesis
  proof (cases "n < 10 ^ 8")
    case True
    then show ?thesis using small by (simp add: put_dec_def)
  next
    case False
    define n1 where "n1 = n div 100000000"
    have "rdec n = put_dec_full8 (n mod 100000000) @ rdec n1" using full [of n] False by (simp add: n1_def)
    moreover have "put_dec n = put_dec_full8 (n mod 100000000) @
        (if n1 < 10 ^ 8 then put_dec_trunc8 (n1 mod 2 ^ 32)
         else put_dec_full8 (n1 mod 100000000) @ put_dec_trunc8 ((n1 div 100000000) mod 2 ^ 32))"
      using False by (simp add: put_dec_def n1_def Let_def)
    moreover have "n1 div 100000000 < 10 ^ 8" using d by (simp add: n1_def)
    ultimately show ?thesis using small [of n1] small [of "n1 div 100000000"] full [of n1] by simp
  qed
qed

fun nvalue :: "nat \<Rightarrow> nat list \<Rightarrow> nat \<Rightarrow> nat" where
  "nvalue b [] acc = acc"
| "nvalue b (d # ds) acc = nvalue b ds (acc * b + d)"

lemma nvalue_append: "nvalue b (xs @ ys) acc = nvalue b ys (nvalue b xs acc)"
  by (induction xs arbitrary: acc) simp_all

lemma nvalue_mono: "1 \<le> b \<Longrightarrow> acc \<le> nvalue b ds acc"
proof (induction ds arbitrary: acc)
  case (Cons d ds)
  have "acc \<le> acc * b + d" using Cons.prems by (simp add: trans_le_add1)
  also have "\<dots> \<le> nvalue b ds (acc * b + d)" using Cons by simp
  finally show ?case by simp
qed simp

section \<open>The digit loop\<close>

lemma or_overflow: "n < 2 ^ 31 \<Longrightarrow> n OR KSTRTOX_OVERFLOW = n + 2 ^ 31"
  "n < 2 ^ 31 \<Longrightarrow> (n + 2 ^ 31) OR KSTRTOX_OVERFLOW = n + 2 ^ 31"
proof -
  have o: "m OR 2 ^ 31 = m + (2 :: nat) ^ 31" if "m < 2 ^ 31" for m
  proof -
    have "\<not> bit m 31" using that by (metis bit_take_bit_iff less_irrefl take_bit_nat_eq_self)
    then have "m + 2 ^ 31 = m OR 2 ^ 31" by (intro disjunctive_add) (subst bit_exp_iff, blast)
    then show ?thesis by (rule sym)
  qed
  show "n < 2 ^ 31 \<Longrightarrow> n OR KSTRTOX_OVERFLOW = n + 2 ^ 31" using o by (simp add: KSTRTOX_OVERFLOW_def)
  show "n < 2 ^ 31 \<Longrightarrow> (n + 2 ^ 31) OR KSTRTOX_OVERFLOW = n + 2 ^ 31"
    unfolding KSTRTOX_OVERFLOW_def by (metis o or.right_idem)
qed

lemma and_overflow: "n < 2 ^ 31 \<Longrightarrow> n AND KSTRTOX_OVERFLOW = 0"
  "n < 2 ^ 31 \<Longrightarrow> (n + 2 ^ 31) AND KSTRTOX_OVERFLOW \<noteq> 0"
proof -
  have a: "m AND KSTRTOX_OVERFLOW = 0 \<longleftrightarrow> \<not> bit m 31" for m
    unfolding KSTRTOX_OVERFLOW_def by (rule and_exp_eq_0_iff_not_bit)
  show "n < 2 ^ 31 \<Longrightarrow> n AND KSTRTOX_OVERFLOW = 0" unfolding a by (simp add: bit_iff_odd)
  show "n < 2 ^ 31 \<Longrightarrow> (n + 2 ^ 31) AND KSTRTOX_OVERFLOW \<noteq> 0" unfolding a bit_iff_odd by (subst div_add_self2) simp_all
qed

definition scanned :: "nat \<Rightarrow> nat \<Rightarrow> nat \<Rightarrow> nat \<Rightarrow> bool" where
  "scanned V n rv res \<longleftrightarrow> n < 2 ^ 31 \<and> res < 2 ^ 64 \<and>
     (if V < 2 ^ 64 then rv = n \<and> res = V else rv = n + 2 ^ 31)"

lemma less_diff: "d < k \<Longrightarrow> k - 1 - d < x \<longleftrightarrow> k \<le> x + d" for d k x :: nat
  by linarith

lemma overflow_test:
  assumes "2 \<le> b" "b \<le> 16" "d < b" "V < 2 ^ 64"
  shows "(V div 2 ^ 60 \<noteq> 0 \<and> V > (ULLONG_MAX - d) div b) \<longleftrightarrow> 2 ^ 64 \<le> V * b + d"
proof -
  have "V > (ULLONG_MAX - d) div b \<longleftrightarrow> ULLONG_MAX - d < V * b"
    using assms(1) by (simp add: less_mult_imp_div_less div_less_iff_less_mult)
  also have "\<dots> \<longleftrightarrow> 2 ^ 64 \<le> V * b + d"
    using less_diff [of d "2 ^ 64" "V * b"] assms(2,3) unfolding ULLONG_MAX_def by simp
  finally have e: "V > (ULLONG_MAX - d) div b \<longleftrightarrow> 2 ^ 64 \<le> V * b + d" .
  have "V div 2 ^ 60 \<noteq> 0" if "2 ^ 64 \<le> V * b + d"
  proof
    assume "V div 2 ^ 60 = 0"
    then have "V < 2 ^ 60" by (simp add: div_eq_0_iff)
    then have "V * b \<le> (2 ^ 60 - 1) * 16" using assms(2) by (intro mult_le_mono) simp_all
    then show False using that assms(2,3) by simp
  qed
  then show ?thesis using e by blast
qed

lemma scanned_step:
  assumes "scanned V n rv res" "2 \<le> b" "b \<le> 16" "d < b" "Suc n < 2 ^ 31"
  shows "scanned (V * b + d) (Suc n)
    (((if res div 2 ^ 60 \<noteq> 0 \<and> res > (ULLONG_MAX - d) div b then rv OR KSTRTOX_OVERFLOW else rv) + 1)
       mod 2 ^ 32) ((res * b + d) mod 2 ^ 64)"
proof (cases "V < 2 ^ 64")
  case True
  then have v: "rv = n" "res = V" "n < 2 ^ 31" using assms(1) by (auto simp: scanned_def)
  show ?thesis
    using v assms(5) or_overflow(1) [of n] unfolding v overflow_test [OF assms(2-4) True] scanned_def
    by (cases "2 ^ 64 \<le> V * b + d") (simp_all add: not_le)
next
  case False
  then have v: "rv = n + 2 ^ 31" "n < 2 ^ 31" using assms(1) by (auto simp: scanned_def)
  have "2 ^ 64 \<le> V * b + d" using False assms(2) by (intro trans_le_add1) (auto simp: not_less intro: le_trans)
  then show ?thesis using v assms(5) or_overflow(2) [of n] by (auto simp: scanned_def)
qed

lemma scan_digits:
  assumes "scanned V n rv res" "2 \<le> b" "b \<le> 16" "map (digit_val b) cs = map Some ds"
    "digit_val b x = None" "n + length cs < 2 ^ 31"
  shows "\<exists>rv' res'. parse_integer_loop (cs @ x # s) b res rv = Some (rv', res') \<and>
    scanned (nvalue b ds V) (n + length cs) rv' res'"
  using assms
proof (induction cs arbitrary: V n rv res ds)
  case Nil
  then show ?case by simp
next
  case (Cons c cs)
  obtain d ds' where d: "ds = d # ds'" "digit_val b c = Some d" "map (digit_val b) cs = map Some ds'"
    using Cons.prems(4) by (cases ds) auto
  have "d < b" using d(2) by (auto simp: digit_val_def Let_def split: option.splits if_splits)
  then show ?case
    using Cons.IH [OF scanned_step [OF Cons.prems(1,2,3)] Cons.prems(2,3) d(3) Cons.prems(5)] Cons.prems(6) d
    by (simp add: Let_def)
qed

section \<open>What the conversions accept\<close>

text \<open>
  The notation of a number: its radix, given or recognised by a leading \<open>0\<close> or \<open>0x\<close>, and the
  characters after the prefix.
\<close>
definition notation_of :: "nat \<Rightarrow> string \<Rightarrow> nat \<times> string" where
  "notation_of base s =
     (let x = (case s of c0 # c1 # _ \<Rightarrow> c0 = CHR ''0'' \<and> c1 \<in> {CHR ''x'', CHR ''X''} | _ \<Rightarrow> False);
          h = (case drop 2 s of c2 # _ \<Rightarrow> ctest CD c2 \<or> ctest CX c2 | _ \<Rightarrow> False);
          b = (if base \<noteq> 0 then base
               else if x \<and> h then 16 else if s \<noteq> [] \<and> hd s = CHR ''0'' then 8 else 10)
      in (b, if b = 16 \<and> x then drop 2 s else s))"

definition is_digit :: "nat \<Rightarrow> char \<Rightarrow> bool" where
  "is_digit b c \<longleftrightarrow> digit_val b c \<noteq> None"

definition parsed :: "nat \<Rightarrow> string \<Rightarrow> nat \<times> bool" where
  "parsed base s =
     (let (b, t) = notation_of base s; ds = takeWhile (is_digit b) t; rest = dropWhile (is_digit b) t
      in (nvalue b (map (\<lambda>c. the (digit_val b c)) ds) 0, ds \<noteq> [] \<and> rest \<in> {[], NL}))"

lemma digit_val_NUL [simp]: "digit_val b NUL = None"
  by (simp add: digit_val_def NUL_def Let_def)

lemma digit_val_newline [simp]: "digit_val b (CHR 0x0A) = None"
  by (simp add: digit_val_def Let_def)

lemma ctest_NUL [simp]: "\<not> ctest CD NUL" "\<not> ctest CX NUL"
  by (simp_all add: ctest_def ctype_tab_def NUL_def)

lemma or_32: "n OR 32 = (if bit n 5 then n else n + (32 :: nat))"
proof (cases "bit n 5")
  case True
  have "n OR 2 ^ 5 = n" by (rule bit_eqI) (use True in \<open>simp only: bit_or_iff bit_exp_iff, blast\<close>)
  then show ?thesis using True by simp
next
  case False
  then have "n + 2 ^ 5 = n OR 2 ^ 5" by (intro disjunctive_add) (subst bit_exp_iff, blast)
  then show ?thesis using False by simp
qed

lemma char_of_x: "char_of (120 :: nat) = CHR ''x''"
proof -
  have "of_char (char_of (120 :: nat)) = (of_char CHR ''x'' :: nat)" by simp
  then show ?thesis by (simp only: of_char_eq_iff)
qed

locale radix_ctype =
  fixes M :: radix_macros
  assumes rm_tolower: "rm_tolower M c = char_of (of_char c OR 0x20 :: nat)"
    and rm_isxdigit: "rm_isxdigit M c \<longleftrightarrow> ctest CD c \<or> ctest CX c"
begin

lemma tolower_x: "rm_tolower M c = CHR ''x'' \<longleftrightarrow> c \<in> {CHR ''x'', CHR ''X''}"
proof
  define n where "n = (of_char c :: nat)"
  assume "rm_tolower M c = CHR ''x''"
  then have "(of_char (char_of (n OR 32)) :: nat) = of_char CHR ''x''" by (simp add: rm_tolower n_def)
  then have "(n OR 32) mod 256 = 120" by simp
  moreover have "n < 256" by (simp add: n_def)
  then have "n = 120 \<or> n = 88" if "(n OR 32) mod 256 = 120"
    using that by (cases "n + 32 < 256") (auto simp: or_32 mod_if split: if_splits)
  ultimately have "(of_char c :: nat) = of_char CHR ''x'' \<or> (of_char c :: nat) = of_char CHR ''X''"
    by (simp add: n_def)
  then show "c \<in> {CHR ''x'', CHR ''X''}" by (simp only: of_char_eq_iff insert_iff) blast
qed (auto simp: rm_tolower char_of_x)

lemma fixup_radix:
  assumes "cstring s"
  shows "parse_integer_fixup_radix (rm_tolower M) (rm_isxdigit M) (s @ NUL # r) base =
    Some (length s - length (snd (notation_of base s)), fst (notation_of base s))"
proof (cases s rule: remdups_adj.cases)
  case 1
  then show ?thesis by (simp add: parse_integer_fixup_radix_def notation_of_def NUL_def)
next
  case (2 c0)
  then show ?thesis using assms tolower_x [of NUL]
    by (auto simp: parse_integer_fixup_radix_def notation_of_def NUL_def)
next
  case (3 c0 c1 s')
  then show ?thesis using assms tolower_x [of c1]
    by (cases s') (auto simp: parse_integer_fixup_radix_def notation_of_def rm_isxdigit numeral_2_eq_2)
qed

end

lemma notation_suffix: "\<exists>u. s = u @ snd (notation_of base s)"
  by (auto simp: notation_of_def Let_def intro: exI [of _ "take 2 s"])

lemma notation_base: "base = 0 \<or> 2 \<le> base \<and> base \<le> 16 \<Longrightarrow>
   2 \<le> fst (notation_of base s) \<and> fst (notation_of base s) \<le> 16"
  by (auto simp: notation_of_def Let_def)

lemma parse_integer_str:
  assumes "cstring t" "2 \<le> b" "b \<le> 16" "length t < 2 ^ 31"
  shows "\<exists>rv res. parse_integer (t @ NUL # r) b = Some (rv, res) \<and>
    scanned (nvalue b (map (\<lambda>c. the (digit_val b c)) (takeWhile (is_digit b) t)) 0)
      (length (takeWhile (is_digit b) t)) rv res"
proof -
  let ?cs = "takeWhile (is_digit b) t" and ?rest = "dropWhile (is_digit b) t"
  obtain x s where x: "?rest @ NUL # r = x # s" "digit_val b x = None"
  proof (cases ?rest)
    case (Cons a as)
    then have "\<not> is_digit b a" using hd_dropWhile [of "is_digit b" t] by auto
    then show ?thesis using that Cons by (simp add: is_digit_def)
  next
    case Nil
    show ?thesis by (rule that [of NUL r]) (simp_all only: Nil append_Nil digit_val_NUL)
  qed
  have m: "map (digit_val b) ?cs = map Some (map (\<lambda>c. the (digit_val b c)) ?cs)"
    by (auto simp: is_digit_def dest: set_takeWhileD)
  have l: "0 + length ?cs < 2 ^ 31" using assms(4) length_takeWhile_le [of "is_digit b" t] by linarith
  have z: "scanned 0 0 0 0" by (simp add: scanned_def)
  have e: "t @ NUL # r = ?cs @ x # s" unfolding x(1) [symmetric] by simp
  show ?thesis using scan_digits [OF z assms(2,3) m x(2) l, of s]
    unfolding parse_integer_def e [symmetric] by simp
qed

context radix_ctype
begin

lemma kstrtoull0_str:
  assumes "cstring s" "base = 0 \<or> 2 \<le> base \<and> base \<le> 16" "length s < 2 ^ 31"
  shows "kstrtoull0 M (s @ NUL # r) base =
    Some (case parsed base s of (V, ok) \<Rightarrow>
      if 2 ^ 64 \<le> V then Inl ERANGE else if ok then Inr V else Inl EINVAL)"
proof -
  define b where "b = fst (notation_of base s)"
  define t where "t = snd (notation_of base s)"
  define ds where "ds = takeWhile (is_digit b) t"
  define rest where "rest = dropWhile (is_digit b) t"
  define V where "V = nvalue b (map (\<lambda>c. the (digit_val b c)) ds) 0"
  obtain u where u: "s = u @ t" using notation_suffix [of s base] by (auto simp: t_def)
  have off: "parse_integer_fixup_radix (rm_tolower M) (rm_isxdigit M) (s @ NUL # r) base = Some (length u, b)"
    using fixup_radix [OF assms(1), of r base] arg_cong [OF u, of length] by (simp add: b_def t_def)
  have t: "cstring t" "length t < 2 ^ 31" using assms(1,3) u by auto
  have b: "2 \<le> b" "b \<le> 16" using notation_base [OF assms(2), of s] by (auto simp: b_def)
  obtain rv res where p: "parse_integer (t @ NUL # r) b = Some (rv, res)" "scanned V (length ds) rv res"
    using parse_integer_str [OF t(1) b t(2), of r] by (auto simp: ds_def V_def)
  have dr: "drop (length u) (s @ NUL # r) = t @ NUL # r" by (simp add: u)
  have td: "t = ds @ rest" by (simp add: ds_def rest_def)
  have pr: "parsed base s = (V, ds \<noteq> [] \<and> rest \<in> {[], NL})"
    by (simp add: parsed_def b_def t_def ds_def rest_def V_def split_def Let_def)
  show ?thesis
  proof (cases "2 ^ 64 \<le> V")
    case True
    then have "rv AND KSTRTOX_OVERFLOW \<noteq> 0" using p(2) and_overflow(2) by (simp add: scanned_def)
    then show ?thesis using True by (simp add: kstrtoull0_def off dr p pr del: drop_append)
  next
    case False
    then have v: "rv = length ds" "res = V" "rv AND KSTRTOX_OVERFLOW = 0"
      using p(2) and_overflow(1) by (auto simp: scanned_def)
    have s: "s @ NUL # r = (u @ ds) @ rest @ NUL # r" using u td by simp
    have rdx: "rd (s @ NUL # r) (length u + length ds + k) = rd (rest @ NUL # r) k" for k
      unfolding s by (simp add: rd_def nth_append)
    have e: "kstrtoull0 M (s @ NUL # r) base =
        (if ds = [] then Some (Inl EINVAL)
         else do {
           c \<leftarrow> rd (rest @ NUL # r) 0;
           c' \<leftarrow> (if c = CHR 0x0A then rd (rest @ NUL # r) 1 else Some c);
           Some (if c' \<noteq> NUL then Inl EINVAL else Inr V)
         })"
      using rdx [of 0] rdx [of 1] v(3) unfolding v(1)
      by (simp add: kstrtoull0_def off dr p v(1,2) del: drop_append cong: if_cong)
    have "cstring rest" using t(1) td by simp
    then show ?thesis using False unfolding e pr
      by (cases rest; cases "tl rest") (auto simp: NL_def)
  qed
qed

end

definition strip_plus :: "string \<Rightarrow> string" where
  "strip_plus s = (if s \<noteq> [] \<and> hd s = CHR ''+'' then tl s else s)"

definition sign_of :: "string \<Rightarrow> bool \<times> string" where
  "sign_of s = (if s \<noteq> [] \<and> hd s = CHR ''-'' then (True, tl s) else (False, strip_plus s))"

definition converted :: "nat \<times> bool \<Rightarrow> bool \<Rightarrow> int \<Rightarrow> int \<Rightarrow> errno + int" where
  "converted p neg lo hi = (case p of (V, ok) \<Rightarrow>
     let v = (if neg then - int V else int V) in
     if 2 ^ 64 \<le> V then Inl ERANGE else if \<not> ok then Inl EINVAL
     else if lo \<le> v \<and> v < hi then Inr v else Inl ERANGE)"

lemma s_of_range:
  assumes "0 < bits"
  shows "v = s_of bits (nat (v mod 2 ^ bits)) \<longleftrightarrow> - (2 ^ (bits - 1)) \<le> v \<and> v < 2 ^ (bits - 1)"
proof -
  obtain b where b: "bits = Suc b" using assms by (cases bits) auto
  define y where "y = v mod 2 ^ bits"
  have y: "0 \<le> y" "y < 2 * 2 ^ b" by (simp_all add: y_def b)
  have "nat y mod 2 ^ bits = nat y" using y by (simp add: b nat_less_iff)
  then have s: "s_of bits (nat y) = (if y \<ge> 2 ^ b then y - 2 * 2 ^ b else y)"
    using y by (simp add: s_of_def Let_def b nat_le_eq_zle le_nat_iff)
  have "v = s_of bits (nat y)" if "- (2 ^ b) \<le> v" "v < 2 ^ b"
  proof (cases "0 \<le> v")
    case True
    then have "y = v" using that by (simp add: y_def b)
    then show ?thesis using that unfolding s by simp
  next
    case False
    have "y = (v + 2 * 2 ^ b) mod (2 * 2 ^ b)" by (simp add: y_def b)
    also have "\<dots> = v + 2 * 2 ^ b" using that False by (intro mod_pos_pos_trivial) auto
    finally have "y = v + 2 * 2 ^ b" .
    then show ?thesis using that False unfolding s by simp
  qed
  then show ?thesis unfolding y_def [symmetric] using s y by (auto simp: b split: if_splits)
qed

lemma s_of_64:
  assumes "V < 2 ^ 64"
  shows "s_of 64 V < 0 \<longleftrightarrow> 2 ^ 63 \<le> V" "V < 2 ^ 63 \<Longrightarrow> s_of 64 V = int V"
    "s_of 64 (neg64 V) > 0 \<longleftrightarrow> 2 ^ 63 < V" "V \<le> 2 ^ 63 \<Longrightarrow> s_of 64 (neg64 V) = - int V"
proof -
  show "s_of 64 V < 0 \<longleftrightarrow> 2 ^ 63 \<le> V" "V < 2 ^ 63 \<Longrightarrow> s_of 64 V = int V"
    using assms by (auto simp: s_of_def Let_def)
  have n: "neg64 V = (if V = 0 then 0 else 2 ^ 64 - V)" using assms by (auto simp: neg64_def)
  show "s_of 64 (neg64 V) > 0 \<longleftrightarrow> 2 ^ 63 < V" "V \<le> 2 ^ 63 \<Longrightarrow> s_of 64 (neg64 V) = - int V"
    using assms unfolding n by (auto simp: s_of_def Let_def)
qed

context radix_ctype
begin

lemma kstrtoull_str:
  assumes "cstring s" "base = 0 \<or> 2 \<le> base \<and> base \<le> 16" "length s < 2 ^ 31"
  shows "kstrtoull M (s @ NUL # r) base =
    Some (case parsed base (strip_plus s) of (V, ok) \<Rightarrow>
      if 2 ^ 64 \<le> V then Inl ERANGE else if ok then Inr V else Inl EINVAL)"
proof (cases s)
  case Nil
  then show ?thesis using kstrtoull0_str [OF assms, of r]
    by (simp add: kstrtoull_def strip_plus_def NUL_def)
next
  case (Cons c t)
  have "cstring t" "length t < 2 ^ 31" using assms Cons by auto
  then show ?thesis using kstrtoull0_str [OF assms, of r] kstrtoull0_str [OF _ assms(2), of t r] Cons
    by (simp add: kstrtoull_def strip_plus_def)
qed

lemma kstrtoll_str:
  assumes "cstring s" "base = 0 \<or> 2 \<le> base \<and> base \<le> 16" "length s < 2 ^ 31"
  shows "kstrtoll M (s @ NUL # r) base =
    Some (case sign_of s of (neg, t) \<Rightarrow> converted (parsed base t) neg (- (2 ^ 63)) (2 ^ 63))"
proof (cases "s \<noteq> [] \<and> hd s = CHR ''-''")
  case True
  then obtain t where t: "s = CHR ''-'' # t" by (cases s) auto
  then have c: "cstring t" "length t < 2 ^ 31" using assms by auto
  obtain V ok where p: "parsed base t = (V, ok)" by (cases "parsed base t")
  show ?thesis
    using kstrtoull0_str [OF c(1) assms(2) c(2), of r] s_of_64(3,4) [of V]
    by (auto simp: kstrtoll_def t sign_of_def converted_def p Let_def)
next
  case False
  obtain V ok where p: "parsed base (strip_plus s) = (V, ok)" by (cases "parsed base (strip_plus s)")
  have "\<exists>c. rd (s @ NUL # r) 0 = Some c \<and> c \<noteq> CHR ''-''"
    using False by (cases s) (auto simp: NUL_def)
  then show ?thesis
    using kstrtoull_str [OF assms, of r] s_of_64(1,2) [of V] False
    by (auto simp: kstrtoll_def sign_of_def converted_def p Let_def)
qed

lemma narrow_s_str:
  assumes "cstring s" "base = 0 \<or> 2 \<le> base \<and> base \<le> 16" "length s < 2 ^ 31" "0 < bits" "bits \<le> 64"
  shows "narrow_s bits M (s @ NUL # r) base =
    Some (case sign_of s of (neg, t) \<Rightarrow>
      converted (parsed base t) neg (- (2 ^ (bits - 1))) (2 ^ (bits - 1)))"
proof -
  obtain neg t where n: "sign_of s = (neg, t)" by (cases "sign_of s")
  obtain V ok where p: "parsed base t = (V, ok)" by (cases "parsed base t")
  define P :: int where "P = 2 ^ (bits - 1)"
  have "P \<le> 2 ^ 63" unfolding P_def using assms(4,5) by (intro power_increasing) auto
  moreover have k: "kstrtoll M (s @ NUL # r) base = Some (converted (V, ok) neg (- (2 ^ 63)) (2 ^ 63))"
    using kstrtoll_str [OF assms(1,2,3), of r] by (simp add: n p)
  ultimately show ?thesis
    using s_of_range [OF assms(4)] unfolding narrow_s_def k P_def [symmetric]
    by (auto simp: n p converted_def Let_def)
qed

lemma narrow_u_str:
  assumes "cstring s" "base = 0 \<or> 2 \<le> base \<and> base \<le> 16" "length s < 2 ^ 31" "bits \<le> 64"
  shows "narrow_u bits M (s @ NUL # r) base =
    Some (map_sum id nat (converted (parsed base (strip_plus s)) False 0 (2 ^ bits)))"
proof -
  obtain V ok where p: "parsed base (strip_plus s) = (V, ok)" by (cases "parsed base (strip_plus s)")
  have "V \<noteq> V mod 2 ^ bits \<longleftrightarrow> \<not> int V < 2 ^ bits"
    by (metis mod_less mod_less_divisor of_nat_less_iff of_nat_numeral of_nat_power zero_less_numeral zero_less_power)
  then show ?thesis
    using kstrtoull_str [OF assms(1,2,3), of r] unfolding narrow_u_def
    by (simp add: p converted_def Let_def)
qed

end

section \<open>Printing and parsing back\<close>

lemma digit_val_dig: "d < 10 \<Longrightarrow> digit_val 10 (dig d) = Some d"
  by (simp add: digit_val_def dig_def Let_def)

lemma rdec_digits: "\<forall>c\<in>set (rdec n). \<exists>d<10. c = dig d"
proof (induction n rule: rdec.induct)
  case (1 n)
  then show ?case by (subst rdec.simps) (auto intro: exI [of _ "n mod 10"])
qed

lemma nvalue_rdec: "nvalue 10 (map (\<lambda>c. the (digit_val 10 c)) (rev (rdec n))) 0 = n"
proof (induction n rule: rdec.induct)
  case (1 n)
  show ?case
  proof (cases "n < 10")
    case True
    then show ?thesis by (subst rdec.simps) (simp add: digit_val_dig)
  next
    case False
    then show ?thesis using 1 by (subst rdec.simps) (simp add: nvalue_append digit_val_dig)
  qed
qed

lemma rdec_length: "0 < k \<Longrightarrow> n < 10 ^ k \<Longrightarrow> length (rdec n) \<le> k"
proof (induction k arbitrary: n)
  case (Suc k)
  show ?case
  proof (cases "n < 10")
    case True
    then show ?thesis by (subst rdec.simps) simp
  next
    case False
    then have "0 < k" using Suc.prems by (cases k) auto
    moreover have "n div 10 < 10 ^ k" using Suc.prems by (simp add: less_mult_imp_div_less)
    ultimately show ?thesis using Suc.IH [of "n div 10"] False by (subst rdec.simps) simp
  qed
qed simp

lemma rdec_nonempty: "rdec n \<noteq> []"
  by (subst rdec.simps) simp

lemma dig_not: "d < 10 \<Longrightarrow> dig d \<noteq> NUL \<and> dig d \<noteq> CHR ''+'' \<and> dig d \<noteq> CHR ''-''"
proof -
  assume "d < 10"
  then have "(of_char (dig d) :: nat) = d + 48" by (simp add: dig_def)
  then show ?thesis by (auto simp: NUL_def)
qed

lemma rdec_parsed: "parsed 10 (rev (rdec n)) = (n, True)" "strip_plus (rev (rdec n)) = rev (rdec n)"
  "cstring (rev (rdec n))"
proof -
  have d: "is_digit 10 c \<and> c \<noteq> NUL \<and> c \<noteq> CHR ''+''" if "c \<in> set (rdec n)" for c
    using rdec_digits [of n] that dig_not digit_val_dig by (fastforce simp: is_digit_def)
  have tw: "takeWhile (is_digit 10) (rev (rdec n)) = rev (rdec n)"
    "dropWhile (is_digit 10) (rev (rdec n)) = []"
    using d by (simp_all add: takeWhile_eq_all_conv dropWhile_eq_Nil_conv)
  show "parsed 10 (rev (rdec n)) = (n, True)" using d
    by (simp add: parsed_def notation_of_def tw nvalue_rdec rdec_nonempty)
  show "cstring (rev (rdec n))" using d by (auto simp: cstring_def)
  show "strip_plus (rev (rdec n)) = rev (rdec n)"
    using d rdec_nonempty [of n] by (auto simp: strip_plus_def hd_rev)
qed

lemma num_to_str_rdec:
  assumes "n < 2 ^ 64" "length (rdec n) \<le> sz" "width \<le> sz" "sz \<le> length buf"
  shows "num_to_str buf sz n width =
    Some (replicate (width - length (rdec n)) CHR '' '' @ rev (rdec n) @
        drop (max width (length (rdec n))) buf, max width (length (rdec n)))"
proof -
  let ?w = "width - length (rdec n)"
  have t: "(if n \<le> 9 then [char_of (0x30 + n)] else put_dec n) = rdec n"
  proof (cases "n \<le> 9")
    case True
    then show ?thesis by (subst rdec.simps) (simp add: dig_def add.commute)
  qed (simp add: put_dec_rdec [OF assms(1)])
  have m: "memset buf CHR '' '' ?w = Some (replicate ?w CHR '' '' @ drop ?w buf)"
    using assms by (intro memset_area) simp
  have c: "memcpy (drop ?w (replicate ?w CHR '' '' @ drop ?w buf)) (rev (rdec n)) (length (rdec n)) =
      Some (rev (rdec n) @ drop (length (rdec n)) (drop ?w buf))"
    using assms by (subst memcpy_area) auto
  have w: "(if width > length (rdec n) then width - length (rdec n) else 0) = ?w" by simp
  show ?thesis unfolding num_to_str_def Let_def t w using assms m c
    by (simp add: max_def)
qed

section \<open>Properties\<close>

definition ascii_macros :: radix_macros where
  "ascii_macros = \<lparr> rm_tolower = (\<lambda>c. char_of (of_char c OR 0x20 :: nat)),
     rm_isxdigit = (\<lambda>c. ctest CD c \<or> ctest CX c) \<rparr>"

interpretation ascii: radix_ctype ascii_macros
  by unfold_locales (auto simp: ascii_macros_def)

text \<open>C31: \<open>kstrtoull\<close> decides every string: with the radix given or recognised from the \<open>0x\<close> or
  \<open>0\<close> prefix after an optional plus sign, it returns \<open>-ERANGE\<close> exactly when the digits denote a
  number of \<open>2 ^ 64\<close> or more, and otherwise the number when there is at least one digit and
  nothing but a newline after the digits, and \<open>-EINVAL\<close> if not; the accumulation, which wraps,
  never returns a wrong number, and nothing outside the string is read.\<close>
theorem kstrtoull_decides:
  assumes "radix_ctype M" "cstring s" "base = 0 \<or> 2 \<le> base \<and> base \<le> 16" "length s < 2 ^ 31"
  shows "kstrtoull M (s @ NUL # r) base =
    Some (case parsed base (strip_plus s) of (V, ok) \<Rightarrow>
      if 2 ^ 64 \<le> V then Inl ERANGE else if ok then Inr V else Inl EINVAL)"
  by (rule radix_ctype.kstrtoull_str [OF assms])

theorem kstrtoull_decides_witness:
  "kstrtoull ascii_macros (''0x1f'' @ CHR 0x0A # NUL # []) 0 = Some (Inr 31) \<and>
   kstrtoull ascii_macros (''18446744073709551616'' @ NUL # []) 10 = Some (Inl ERANGE)"
proof -
  have n: "cstring (''0x1f'' @ [CHR 0x0A])" "cstring ''18446744073709551616''"
    by (simp_all add: NUL_def)
  show ?thesis
    using kstrtoull_decides [OF ascii.radix_ctype_axioms n(1), of 0 "[]"]
      kstrtoull_decides [OF ascii.radix_ctype_axioms n(2), of 10 "[]"]
    by (simp add: parsed_def strip_plus_def notation_of_def is_digit_def digit_val_def ctest_def
        ctype_tab_def NL_def Let_def)
qed

text \<open>The conversions to a narrower type accept exactly the numbers of that type: \<open>kstrtos8\<close>,
  \<open>kstrtos16\<close>, \<open>kstrtoint\<close> and \<open>kstrtol\<close> return the signed number when it lies in the range of
  their result, \<open>kstrtou8\<close>, \<open>kstrtou16\<close>, \<open>kstrtouint\<close> and \<open>kstrtoul\<close> the unsigned one, and \<open>-ERANGE\<close>
  for a well-formed number outside it; the smallest negative number is accepted.\<close>
theorem kstrto_ranges:
  assumes "radix_ctype M" "cstring s" "base = 0 \<or> 2 \<le> base \<and> base \<le> 16" "length s < 2 ^ 31"
    "(f, fu, bits) \<in> {(kstrtos8, kstrtou8, 8), (kstrtos16, kstrtou16, 16), (kstrtoint, kstrtouint, 32),
        (kstrtol0, kstrtoul0, 64)}"
  shows "f M (s @ NUL # r) base =
      Some (case sign_of s of (neg, t) \<Rightarrow>
        converted (parsed base t) neg (- (2 ^ (bits - 1))) (2 ^ (bits - 1))) \<and>
    fu M (s @ NUL # r) base =
      Some (map_sum id nat (converted (parsed base (strip_plus s)) False 0 (2 ^ bits)))"
proof -
  have "f = narrow_s bits" "fu = narrow_u bits" "0 < bits" "bits \<le> 64"
    using assms(5) by (auto simp: kstrtos8_def kstrtou8_def kstrtos16_def kstrtou16_def kstrtoint_def
        kstrtouint_def kstrtol0_def kstrtoul0_def)
  then show ?thesis
    using radix_ctype.narrow_s_str [OF assms(1-4)] radix_ctype.narrow_u_str [OF assms(1-4)] by blast
qed

theorem kstrto_ranges_witness:
  "kstrtos8 ascii_macros (''-128'' @ NUL # []) 10 = Some (Inr (- 128)) \<and>
   kstrtou8 ascii_macros (''256'' @ NUL # []) 10 = Some (Inl ERANGE)"
proof -
  have n: "cstring ''-128''" "cstring ''256''" by (simp_all add: NUL_def)
  show ?thesis
    using kstrto_ranges [OF ascii.radix_ctype_axioms n(1), of 10 kstrtos8 kstrtou8 8 "[]"]
      kstrto_ranges [OF ascii.radix_ctype_axioms n(2), of 10 kstrtos8 kstrtou8 8 "[]"]
    by (simp add: parsed_def strip_plus_def sign_of_def converted_def notation_of_def is_digit_def
        digit_val_def Let_def)
qed

text \<open>C32: a number printed by \<open>num_to_str\<close>, which divides by multiplying with fixed-point
  reciprocals and emits two digits at a time, reads back as itself: for every 64-bit number and a
  buffer of 20 bytes or more, the characters written are the decimal digits, at most 20 of them,
  and \<open>kstrtoull\<close> in base 10 returns the number.\<close>
theorem num_to_str_roundtrip:
  assumes "radix_ctype M" "n < 2 ^ 64" "20 \<le> sz" "sz \<le> length buf"
  shows "\<exists>b len. num_to_str buf sz n 0 = Some (b, len) \<and> 0 < len \<and> len \<le> 20 \<and>
    length b = length buf \<and> drop len b = drop len buf \<and>
    kstrtoull M (take len b @ NUL # r) 10 = Some (Inr n)"
proof -
  have l: "length (rdec n) \<le> 20" by (rule rdec_length) (use assms(2) in simp_all)
  then have m: "num_to_str buf sz n 0 =
      Some (rev (rdec n) @ drop (length (rdec n)) buf, length (rdec n))"
    using num_to_str_rdec [OF assms(2), of sz 0 buf] assms(3,4) by simp
  moreover have "kstrtoull M (rev (rdec n) @ NUL # r) 10 = Some (Inr n)"
    using radix_ctype.kstrtoull_str [OF assms(1) rdec_parsed(3) [of n], of 10 r] assms(2) l
    by (simp add: rdec_parsed)
  ultimately show ?thesis using l rdec_nonempty [of n] assms(3,4) by auto
qed

theorem num_to_str_roundtrip_witness:
  "\<exists>b len. num_to_str (replicate 24 CHR ''.'') 24 18446744073709551615 0 = Some (b, len) \<and> len \<le> 20 \<and>
    kstrtoull ascii_macros (take len b @ NUL # []) 10 = Some (Inr 18446744073709551615)"
  using num_to_str_roundtrip [OF ascii.radix_ctype_axioms, of 18446744073709551615 24
      "replicate 24 CHR ''.''" "[]"]
  by auto

end
