(* ===== verification/Cmdline.thy ===== *)
theory Cmdline
  imports Kstrtox
begin

text \<open>
  Parsing of option strings and of the kernel command line, \<^verbatim>\<open>lib/cmdline.c\<close>.  A buffer is modified
  in place and pointers into it are offsets; a C \<open>int\<close> is an integer reduced to 32 bits by \<open>i32\<close>.
  Objects are shorter than \<open>2 ^ 32\<close> bytes, so an \<open>unsigned int\<close> index does not wrap by being
  incremented; its decrement \<open>i - 1\<close> is written out with the wrap.
\<close>

section \<open>Numbers and ranges\<close>

definition i32 :: "int \<Rightarrow> int" where
  "i32 x = s_of 32 (nat (x mod 2 ^ 32))"

definition rdi :: "'a list \<Rightarrow> int \<Rightarrow> 'a option" where
  "rdi xs i = (if 0 \<le> i then rd xs (nat i) else None)"

definition wri :: "'a list \<Rightarrow> int \<Rightarrow> 'a \<Rightarrow> 'a list option" where
  "wri xs i v = (if 0 \<le> i then wr xs (nat i) v else None)"

fun fill_range :: "int list \<Rightarrow> int \<Rightarrow> int \<Rightarrow> int \<Rightarrow> nat \<Rightarrow> int list option" where
  "fill_range ints i x upper 0 = Some ints"
| "fill_range ints i x upper (Suc n) =
     (if x < upper then do {
        ints' \<leftarrow> wri ints i x;
        fill_range ints' (i + 1) (x + 1) upper n
      } else Some ints)"

definition get_range :: "radix_macros \<Rightarrow> cbuf \<Rightarrow> nat \<Rightarrow> int list \<Rightarrow> int \<Rightarrow> nat
    \<Rightarrow> (int \<times> nat \<times> int list) option" where
  "get_range M buf p ints i n = do {
     (u, e) \<leftarrow> simple_strtol M (drop (p + 1) buf) 0;
     let upper = i32 u;
     x \<leftarrow> rdi ints i;
     ints' \<leftarrow> fill_range ints i x upper n;
     Some (i32 (upper - x), p + 1, ints')
   }"

definition get_option :: "radix_macros \<Rightarrow> cbuf \<Rightarrow> nat option \<Rightarrow> (nat \<times> nat option \<times> int option) option" where
  "get_option M buf cur =
     (case cur of None \<Rightarrow> Some (0, None, None)
      | Some p \<Rightarrow> do {
          c \<leftarrow> rd buf p;
          if c = NUL then Some (0, Some p, None)
          else do {
            (v, e) \<leftarrow> simple_strtol M (drop p buf) 0;
            let x = i32 v;
            if e = 0 then Some (0, Some p, Some x)
            else do {
              d \<leftarrow> rd buf (p + e);
              if d = CHR '','' then Some (2, Some (p + e + 1), Some x)
              else if d = CHR ''-'' then Some (3, Some (p + e), Some x)
              else Some (1, Some (p + e), Some x)
            }
          }
        })"

lemma get_option_advances:
  "get_option M buf (Some p) = Some (res, q, x) \<Longrightarrow> res \<noteq> 0 \<Longrightarrow>
     \<exists>q'. q = Some q' \<and> p < q' \<and> q' \<le> length buf"
  by (auto simp: get_option_def rd_def Let_def split: if_splits bind_splits)

definition put_int :: "int list \<Rightarrow> int \<Rightarrow> int option \<Rightarrow> int list option" where
  "put_int ints i x = (case x of None \<Rightarrow> Some ints | Some v \<Rightarrow> wri ints i v)"

function get_options_loop :: "radix_macros \<Rightarrow> cbuf \<Rightarrow> int \<Rightarrow> nat \<Rightarrow> int \<Rightarrow> int list
    \<Rightarrow> (nat \<times> int \<times> int list) option" where
  "get_options_loop M buf nints p i ints =
     (if i < nints then
        (case get_option M buf (Some p) of None \<Rightarrow> None
         | Some (res, q, x) \<Rightarrow>
             (case put_int ints i x of None \<Rightarrow> None
              | Some ints1 \<Rightarrow>
                  if res = 0 then Some (p, i, ints1)
                  else let p1 = the q in
                    if res = 3 then
                      (case get_range M buf p1 ints1 i (nat (nints - i)) of None \<Rightarrow> None
                       | Some (range_nums, p2, ints2) \<Rightarrow>
                           if range_nums < 0 then Some (p2, i, ints2)
                           else get_options_loop M buf nints p2 (i32 (i32 (i + range_nums - 1) + 1)) ints2)
                    else if res = 1 then Some (p1, i + 1, ints1)
                    else get_options_loop M buf nints p1 (i + 1) ints1))
      else Some (p, i, ints))"
  by pat_completeness auto
termination
proof (relation "measure (\<lambda>(M, buf, nints, p, i, ints). Suc (length buf) - p)", goal_cases)
  case 1
  then show ?case by simp
next
  case (2 M buf nints p i ints a res b q x ints1 p1 c rn d p2 ints2)
  then show ?case
    using get_option_advances [of M buf p res q x]
    by (auto simp: get_range_def Let_def split: bind_splits)
next
  case (3 M buf nints p i ints a res b q x ints1 p1)
  then show ?case using get_option_advances [of M buf p res q x] by auto
qed

declare get_options_loop.simps [simp del]

definition get_options :: "radix_macros \<Rightarrow> cbuf \<Rightarrow> int \<Rightarrow> int list \<Rightarrow> (nat \<times> int list) option" where
  "get_options M str nints ints = do {
     (p, i, ints') \<leftarrow> get_options_loop M str nints 0 1 ints;
     ints'' \<leftarrow> wri ints' 0 (i - 1);
     Some (p, ints'')
   }"

section \<open>Sizes\<close>

definition shl10 :: "nat \<Rightarrow> nat" where
  "shl10 x = (x * 2 ^ 10) mod 2 ^ 64"

definition memparse :: "radix_macros \<Rightarrow> cbuf \<Rightarrow> (nat \<times> nat) option" where
  "memparse M ptr = do {
     (ret, e) \<leftarrow> simple_strtoull M ptr 0;
     c \<leftarrow> rd ptr e;
     Some (if c \<in> {CHR ''E'', CHR ''e''} then (shl10 (shl10 (shl10 (shl10 (shl10 (shl10 ret))))), e + 1)
           else if c \<in> {CHR ''P'', CHR ''p''} then (shl10 (shl10 (shl10 (shl10 (shl10 ret)))), e + 1)
           else if c \<in> {CHR ''T'', CHR ''t''} then (shl10 (shl10 (shl10 (shl10 ret))), e + 1)
           else if c \<in> {CHR ''G'', CHR ''g''} then (shl10 (shl10 (shl10 ret)), e + 1)
           else if c \<in> {CHR ''M'', CHR ''m''} then (shl10 (shl10 ret), e + 1)
           else if c \<in> {CHR ''K'', CHR ''k''} then (shl10 ret, e + 1)
           else (ret, e))
   }"

section \<open>Options in a list\<close>

fun skip_option :: "cbuf \<Rightarrow> cbuf option" where
  "skip_option [] = None"
| "skip_option (c # str) = (if c \<noteq> NUL \<and> c \<noteq> CHR '','' then skip_option str else Some (c # str))"

lemma skip_option_length: "skip_option str = Some t \<Longrightarrow> length t \<le> length str"
proof (induction str arbitrary: t)
  case (Cons c str)
  then show ?case by (fastforce split: if_splits)
qed simp

definition after_comma :: "cbuf \<Rightarrow> cbuf" where
  "after_comma str = (if str \<noteq> [] \<and> hd str = CHR '','' then tl str else str)"

lemma after_comma_less:
  "skip_option s = Some t \<Longrightarrow> rd s 0 = Some c \<Longrightarrow> c \<noteq> NUL \<Longrightarrow> length (after_comma t) < length s"
proof (cases s)
  case (Cons a u)
  assume h: "skip_option s = Some t" "rd s 0 = Some c" "c \<noteq> NUL"
  show ?thesis
  proof (cases "a = CHR '',''")
    case True
    then show ?thesis using h Cons by (auto simp: after_comma_def)
  next
    case False
    then have "length t \<le> length u" using h Cons skip_option_length by auto
    then show ?thesis using Cons by (auto simp: after_comma_def)
  qed
qed simp

function parse_option_str :: "cbuf \<Rightarrow> cbuf \<Rightarrow> bool option" where
  "parse_option_str str opt =
     (case rd str 0 of None \<Rightarrow> None
      | Some c \<Rightarrow>
          if c = NUL then Some False
          else (case strlen opt of None \<Rightarrow> None
            | Some n \<Rightarrow>
                (case strncmp str opt n of None \<Rightarrow> None
                 | Some r \<Rightarrow>
                     let str1 = (if r = 0 then drop n str else str) in
                     (case rd str1 0 of None \<Rightarrow> None
                      | Some d \<Rightarrow>
                          if r = 0 \<and> (d = NUL \<or> d = CHR '','') then Some True
                          else (case skip_option str1 of None \<Rightarrow> None
                            | Some str2 \<Rightarrow> parse_option_str (after_comma str2) opt)))))"
  by pat_completeness auto
termination
proof (relation "measure (\<lambda>(s, opt). length s)", goal_cases)
  case 1
  then show ?case by simp
next
  case (2 str opt c n r str1 d str2)
  then have "length (after_comma str2) < length str1"
    using after_comma_less [of str1 str2 d] by (cases "r = 0") auto
  then show ?case using 2 by (auto split: if_splits)
qed

declare parse_option_str.simps [simp del]

section \<open>One argument of the command line\<close>

fun scan_arg :: "(char \<Rightarrow> bool) \<Rightarrow> cbuf \<Rightarrow> nat \<Rightarrow> bool \<Rightarrow> nat \<Rightarrow> (nat \<times> nat) option" where
  "scan_arg isspace [] i in_quote equals = None"
| "scan_arg isspace (c # s) i in_quote equals =
     (if c = NUL then Some (i, equals)
      else if isspace c \<and> \<not> in_quote then Some (i, equals)
      else scan_arg isspace s (Suc i) (if c = CHR 0x22 then \<not> in_quote else in_quote)
             (if equals = 0 \<and> c = CHR ''='' then i else equals))"

definition uint_pred :: "nat \<Rightarrow> nat" where
  "uint_pred i = (i + 2 ^ 32 - 1) mod 2 ^ 32"

definition unquote_end :: "cbuf \<Rightarrow> nat \<Rightarrow> nat \<Rightarrow> cbuf option" where
  "unquote_end buf args i = do {
     c \<leftarrow> rd buf (args + uint_pred i);
     if c = CHR 0x22 then wr buf (args + uint_pred i) NUL else Some buf
   }"

definition arg_tail :: "(char \<Rightarrow> bool) \<Rightarrow> nat \<Rightarrow> nat option \<Rightarrow> nat \<Rightarrow> cbuf
    \<Rightarrow> (cbuf \<times> nat \<times> nat option \<times> nat) option" where
  "arg_tail isspace args val p buf = do {
     c \<leftarrow> rd buf p;
     (buf, nxt) \<leftarrow> (if c \<noteq> NUL then do {
         buf \<leftarrow> wr buf p NUL;
         Some (buf, p + 1)
       } else Some (buf, p));
     k \<leftarrow> skip_spaces isspace (drop nxt buf);
     Some (buf, args, val, nxt + k)
   }"

definition next_arg :: "(char \<Rightarrow> bool) \<Rightarrow> cbuf \<Rightarrow> nat \<Rightarrow> (cbuf \<times> nat \<times> nat option \<times> nat) option" where
  "next_arg isspace buf args = do {
     c \<leftarrow> rd buf args;
     let quoted = (c = CHR 0x22);
     let args = (if quoted then args + 1 else args);
     (i, equals) \<leftarrow> scan_arg isspace (drop args buf) 0 quoted 0;
     (buf, val) \<leftarrow> (if equals = 0 then Some (buf, None)
       else do {
         buf \<leftarrow> wr buf (args + equals) NUL;
         v \<leftarrow> rd buf (args + equals + 1);
         if v = CHR 0x22 then do {
           buf \<leftarrow> unquote_end buf args i;
           Some (buf, Some (args + equals + 2))
         } else Some (buf, Some (args + equals + 1))
       });
     buf \<leftarrow> (if quoted then unquote_end buf args i else Some buf);
     arg_tail isspace args val (args + i) buf
   }"

section \<open>Numbers at the front of a string\<close>

definition decs :: "nat \<Rightarrow> string" where
  "decs n = rev (rdec n)"

definition stops :: "string \<Rightarrow> bool" where
  "stops w \<longleftrightarrow> w = [] \<or> digit_val 10 (hd w) = None \<and> hd w \<notin> {CHR ''x'', CHR ''X''}"

lemma digit_val_mono: "digit_val 10 c = None \<Longrightarrow> digit_val 8 c = None"
  by (auto simp: digit_val_def Let_def split: if_splits option.splits)

lemma last_rdec: "0 < n \<Longrightarrow> last (rdec n) \<noteq> CHR ''0''"
proof (induction n rule: rdec.induct)
  case (1 n)
  show ?case
  proof (cases "n < 10")
    case True
    then have "(of_char (dig n) :: nat) = n + 48" by (simp add: dig_def)
    then have "dig n \<noteq> CHR ''0''" using 1 by auto
    then show ?thesis using True by (subst rdec.simps) simp
  next
    case False
    then have "0 < n div 10" by (simp add: div_greater_zero_iff)
    then show ?thesis using 1 False by (subst rdec.simps) (simp add: rdec_nonempty)
  qed
qed

lemma decs_nonempty [simp]: "decs n \<noteq> []"
  by (simp add: decs_def rdec_nonempty)

lemma decs_cstring [simp]: "cstring (decs n)"
  by (simp add: decs_def rdec_parsed)

lemma decs_digit: "c \<in> set (decs n) \<Longrightarrow> is_digit 10 c \<and> c \<noteq> NUL \<and> c \<noteq> CHR ''-'' \<and> c \<noteq> CHR ''+''"
  using rdec_digits [of n] dig_not digit_val_dig by (fastforce simp: is_digit_def decs_def)

lemma hd_decs: "0 < n \<Longrightarrow> hd (decs n) \<noteq> CHR ''0''"
  using last_rdec [of n] by (simp add: decs_def hd_rev rdec_nonempty)

lemma dig_0: "dig 0 = CHR ''0''"
proof -
  have "of_char (dig 0) = (of_char CHR ''0'' :: nat)" by (simp add: dig_def)
  then show ?thesis by (simp only: of_char_eq_iff)
qed

lemma decs_notation:
  assumes "stops w"
  shows "\<exists>b. notation_of 0 (decs n @ w) = (b, decs n @ w) \<and> takeWhile (is_digit b) (decs n @ w) = decs n \<and>
    nvalue b (map (\<lambda>c. the (digit_val b c)) (decs n)) 0 = n"
proof (cases "n = 0")
  case True
  have d: "decs 0 = ''0''" by (simp add: decs_def rdec.simps dig_0)
  show ?thesis using assms unfolding True d
    by (cases w) (auto simp: notation_of_def stops_def is_digit_def digit_val_def Let_def split: option.splits if_splits)
next
  case False
  then have h: "hd (decs n @ w) \<noteq> CHR ''0''" using hd_decs [of n] by simp
  obtain c cs where "decs n @ w = c # cs" by (cases "decs n") auto
  then have "notation_of 0 (decs n @ w) = (10, decs n @ w)"
    using h by (cases cs) (auto simp: notation_of_def Let_def)
  moreover have "takeWhile (is_digit 10) (decs n @ w) = decs n"
    using assms decs_digit [of _ n] by (cases w) (auto simp: stops_def is_digit_def takeWhile_append2)
  moreover have "nvalue 10 (map (\<lambda>c. the (digit_val 10 c)) (decs n)) 0 = n"
    by (simp add: decs_def nvalue_rdec)
  ultimately show ?thesis by blast
qed

context radix_ctype
begin

lemma simple_strtoull_dec:
  assumes "cstring w" "stops w" "n < 2 ^ 64" "length (decs n @ w) < 2 ^ 31"
  shows "simple_strtoull M (decs n @ w @ NUL # r) 0 = Some (n, length (decs n))"
proof -
  obtain b where b: "notation_of 0 (decs n @ w) = (b, decs n @ w)"
    "takeWhile (is_digit b) (decs n @ w) = decs n"
    "nvalue b (map (\<lambda>c. the (digit_val b c)) (decs n)) 0 = n"
    using decs_notation [OF assms(2), of n] by blast
  have c: "cstring (decs n @ w)" using assms(1) by simp
  have r: "2 \<le> b" "b \<le> 16" using notation_base [of 0 "decs n @ w"] b(1) by auto
  obtain rv res where p: "parse_integer ((decs n @ w) @ NUL # r) b = Some (rv, res)"
    "scanned n (length (decs n)) rv res"
    using parse_integer_str [OF c r assms(4), of r] b by auto
  have "rv = length (decs n)" "res = n" "length (decs n) < 2 ^ 31"
    using p(2) assms(3) by (auto simp: scanned_def)
  then show ?thesis using fixup_radix [OF c, of r 0] b(1) p(1)
    by (simp add: simple_strtoull_def KSTRTOX_OVERFLOW_def)
qed

lemma simple_strtol_dec:
  assumes "cstring w" "stops w" "n < 2 ^ 31" "length (decs n @ w) < 2 ^ 31"
  shows "simple_strtol M (decs n @ w @ NUL # r) 0 = Some (int n, length (decs n))"
proof -
  obtain c cs where d: "decs n = c # cs" by (cases "decs n") auto
  then have "c \<noteq> CHR ''-''" using decs_digit [of c n] by simp
  moreover have "s_of 64 n = int n" using assms(3) by (intro s_of_64(2)) simp_all
  ultimately show ?thesis using simple_strtoull_dec [OF assms(1,2), of n r] assms(3,4) d
    by (simp add: simple_strtol_def simple_strtoul_def)
qed

end

section \<open>Lists of numbers\<close>

lemma i32_id: "- (2 ^ 31) \<le> x \<Longrightarrow> x < 2 ^ 31 \<Longrightarrow> i32 x = x"
  using s_of_range [of 32 x] by (simp add: i32_def)

lemma stops_cases [simp]: "stops []" "stops (CHR '','' # w)" "stops (CHR ''-'' # w)"
  by (simp_all add: stops_def digit_val_def Let_def)

lemma wri_nth: "0 \<le> i \<Longrightarrow> nat i < length xs \<Longrightarrow> wri xs i v = Some (xs[nat i := v])"
  by (simp add: wri_def wr_def)

definition size_suffixes :: "(nat \<times> string) list" where
  "size_suffixes = [(1, ''Kk''), (2, ''Mm''), (3, ''Gg''), (4, ''Tt''), (5, ''Pp''), (6, ''Ee'')]"

context radix_ctype
begin

lemma get_option_dec:
  assumes "cstring w" "stops w" "n < 2 ^ 31" "length (decs n @ w) < 2 ^ 31"
  shows "get_option M (u @ decs n @ w @ NUL # r) (Some (length u)) =
    Some (if w \<noteq> [] \<and> hd w = CHR '','' then (2, Some (length u + length (decs n) + 1), Some (int n))
          else if w \<noteq> [] \<and> hd w = CHR ''-'' then (3, Some (length u + length (decs n)), Some (int n))
          else (1, Some (length u + length (decs n)), Some (int n)))"
proof -
  obtain c cs where d: "decs n = c # cs" by (cases "decs n") auto
  have c: "rd (u @ decs n @ w @ NUL # r) (length u) = Some c" "c \<noteq> NUL"
    using decs_digit [of c n] d by (auto simp: rd_def nth_append)
  obtain e es where e: "w @ NUL # r = e # es" by (cases w) auto
  have "rd (u @ decs n @ w @ NUL # r) (length u + length (decs n)) = Some e"
    unfolding e using rd_append [of "u @ decs n" e es] by simp
  moreover have "i32 (int n) = int n" using assms(3) by (intro i32_id) auto
  moreover have "e = (if w = [] then NUL else hd w)" using e by (cases w) auto
  ultimately show ?thesis using c simple_strtol_dec [OF assms, of r]
    by (simp add: get_option_def NUL_def)
qed

lemma get_options_loop_decs:
  assumes "\<forall>n\<in>set xs. n < 2 ^ 31" "xs \<noteq> []" "length (joined CHR '','' (map decs xs)) < 2 ^ 31"
    "0 < i" "i + int (length xs) \<le> nints" "nints \<le> int (length ints)"
  shows "get_options_loop M (u @ joined CHR '','' (map decs xs) @ NUL # r) nints (length u) i ints =
    Some (length u + length (joined CHR '','' (map decs xs)), i + int (length xs),
      take (nat i) ints @ map int xs @ drop (nat i + length xs) ints)"
  using assms
proof (induction xs arbitrary: u i ints)
  case (Cons n xs)
  let ?rest = "if xs = [] then [] else CHR '','' # joined CHR '','' (map decs xs)"
  have j: "joined CHR '','' (map decs (n # xs)) = decs n @ ?rest" by (simp add: joined_Cons)
  have "cstring (joined CHR '','' (map decs xs))" by (rule cstring_joined) (auto simp: NUL_def)
  then have g: "get_option M (u @ decs n @ ?rest @ NUL # r) (Some (length u)) =
      Some (if xs = [] then (1, Some (length u + length (decs n)), Some (int n))
            else (2, Some (length u + length (decs n) + 1), Some (int n)))"
    using Cons.prems(1,3) j by (subst get_option_dec) (auto simp: NUL_def)
  have i: "i < nints" "nat i < length ints" using Cons.prems by auto
  have w: "put_int ints i (Some (int n)) = Some (ints[nat i := int n])"
    using Cons.prems i by (simp add: put_int_def wri_nth)
  have up: "take (nat i) ints @ int n # drop (Suc (nat i)) ints = ints[nat i := int n]"
    using i by (simp add: upd_conv_take_nth_drop)
  show ?case
  proof (cases "xs = []")
    case True
    then show ?thesis using g i w up by (subst get_options_loop.simps) simp
  next
    case False
    have t: "take (nat (i + 1)) (ints[nat i := int n]) = take (nat i) ints @ [int n]"
      using Cons.prems(4) i by (simp add: nat_add_distrib take_Suc_conv_app_nth)
    note IH = Cons.IH [where u = "u @ decs n @ '',''" and i = "i + 1" and ints = "ints[nat i := int n]"]
    have l: "length (joined CHR '','' (map decs xs)) < 2 ^ 31" using Cons.prems(3) False j by simp
    show ?thesis using g i w False IH l t Cons.prems
      by (subst get_options_loop.simps) (simp add: joined_Cons nat_add_distrib)
  qed
qed simp

lemma get_options_decs:
  assumes "\<forall>n\<in>set xs. n < 2 ^ 31" "xs \<noteq> []" "length (joined CHR '','' (map decs xs)) < 2 ^ 31"
    "int (length xs) < nints" "nints \<le> int (length ints)"
  shows "get_options M (joined CHR '','' (map decs xs) @ NUL # r) nints ints =
    Some (length (joined CHR '','' (map decs xs)),
      int (length xs) # map int xs @ drop (Suc (length xs)) ints)"
proof -
  note L = get_options_loop_decs [OF assms(1-3), of 1 nints ints "[]" r]
  obtain y ys where "ints = y # ys" using assms(4,5) by (cases ints) auto
  then show ?thesis using L assms(4,5) by (simp add: get_options_def wri_def wr_def)
qed

lemma fill_range_all:
  assumes "0 \<le> i" "nat i + n \<le> length ints" "x + int n \<le> upper"
  shows "fill_range ints i x upper n =
    Some (take (nat i) ints @ map (\<lambda>k. x + int k) [0..<n] @ drop (nat i + n) ints)"
  using assms
proof (induction n arbitrary: i ints x)
  case (Suc n)
  have w: "wri ints i x = Some (ints[nat i := x])" using Suc.prems by (simp add: wri_nth)
  have t: "take (nat (i + 1)) (ints[nat i := x]) = take (nat i) ints @ [x]"
    using Suc.prems by (simp add: nat_add_distrib take_Suc_conv_app_nth)
  have u: "[0..<Suc n] = 0 # map Suc [0..<n]" by (simp add: map_Suc_upt upt_conv_Cons del: upt_Suc)
  show ?case using Suc.IH [of "i + 1" "ints[nat i := x]" "x + 1"] Suc.prems w t
    unfolding u by (simp add: nat_add_distrib add.assoc)
qed simp

lemma get_options_over:
  assumes "a < b" "b < 2 ^ 31" "1 < nints" "nints \<le> int (length ints)" "nints - 1 < int (b - a)"
    "length (decs a @ CHR ''-'' # decs b) < 2 ^ 31" "int (b - a) < 2 ^ 31 - 1"
  shows "get_options M (decs a @ CHR ''-'' # decs b @ NUL # r) nints ints =
    Some (length (decs a) + 1, int (b - a) # map (\<lambda>k. int (a + k)) [0..<nat (nints - 1)] @ drop (nat nints) ints)"
proof -
  let ?buf = "decs a @ CHR ''-'' # decs b @ NUL # r"
  obtain y ys where y: "ints = y # ys" using assms(3,4) by (cases ints) auto
  have g: "get_option M ?buf (Some 0) = Some (3, Some (length (decs a)), Some (int a))"
    using get_option_dec [of "CHR ''-'' # decs b" a "[]" r] assms by (simp add: NUL_def)
  have p: "put_int ints 1 (Some (int a)) = Some (ints[1 := int a])"
    using assms by (simp add: put_int_def wri_nth)
  have st: "simple_strtol M (drop (length (decs a) + 1) ?buf) 0 = Some (int b, length (decs b))"
    using simple_strtol_dec [of "[]" b r] assms by simp
  have f: "fill_range (ints[1 := int a]) 1 (int a) (int b) (nat (nints - 1)) =
      Some (take 1 ints @ map (\<lambda>k. int a + int k) [0..<nat (nints - 1)] @ drop (nat nints) (ints[1 := int a]))"
    using assms fill_range_all [of 1 "nat (nints - 1)" "ints[1 := int a]" "int a" "int b"]
    by (simp add: nat_diff_distrib)
  have gr: "get_range M ?buf (length (decs a)) (ints[1 := int a]) 1 (nat (nints - 1)) =
      Some (int (b - a), length (decs a) + 1,
        take 1 ints @ map (\<lambda>k. int (a + k)) [0..<nat (nints - 1)] @ drop (nat nints) ints)"
    using assms st f i32_id [of "int b"] i32_id [of "int (b - a)"]
    by (simp add: get_range_def rdi_def rd_def of_nat_diff)
  have "i32 (i32 (1 + int (b - a) - 1) + 1) = int (b - a) + 1" using assms by (simp add: i32_id)
  then have "get_options_loop M ?buf nints 0 1 ints =
      get_options_loop M ?buf nints (length (decs a) + 1) (int (b - a) + 1)
        (take 1 ints @ map (\<lambda>k. int (a + k)) [0..<nat (nints - 1)] @ drop (nat nints) ints)"
    using assms g p gr by (subst get_options_loop.simps) simp
  also have "\<dots> = Some (length (decs a) + 1, int (b - a) + 1,
      take 1 ints @ map (\<lambda>k. int (a + k)) [0..<nat (nints - 1)] @ drop (nat nints) ints)"
    using assms by (subst get_options_loop.simps) simp
  finally show ?thesis by (simp add: get_options_def wri_def wr_def y)
qed

lemma memparse_dec:
  assumes "cstring w" "stops w" "n < 2 ^ 64" "length (decs n @ w) < 2 ^ 31"
  shows "memparse M (decs n @ w @ NUL # r) =
    Some (case w of [] \<Rightarrow> (n, length (decs n))
      | c # _ \<Rightarrow>
          (case find (\<lambda>(k, cs). c \<in> set cs) size_suffixes of
             None \<Rightarrow> (n, length (decs n))
           | Some (k, _) \<Rightarrow> (n * 2 ^ (10 * k) mod 2 ^ 64, length (decs n) + 1)))"
proof -
  define f where "f k = n * 2 ^ (10 * k) mod 2 ^ 64" for k :: nat
  have fs: "shl10 (f k) = f (Suc k)" for k
    by (simp only: f_def shl10_def mod_mult_left_eq mult_Suc_right power_add mult.assoc
        mult.commute [of "2 ^ 10" "2 ^ (10 * k)"])
  have f0: "n = f 0" using assms(3) by (simp add: f_def)
  have sh: "shl10 n = f 1" "shl10 (shl10 n) = f 2" "shl10 (shl10 (shl10 n)) = f 3"
    "shl10 (shl10 (shl10 (shl10 n))) = f 4" "shl10 (shl10 (shl10 (shl10 (shl10 n)))) = f 5"
    "shl10 (shl10 (shl10 (shl10 (shl10 (shl10 n))))) = f 6"
    using fs [of 0] fs [of 1] fs [of 2] fs [of 3] fs [of 4] fs [of 5] f0 by (simp_all add: numeral_eq_Suc)
  show ?thesis
  proof (cases w)
    case Nil
    then show ?thesis using simple_strtoull_dec [OF assms, of r] rd_append [of "decs n" NUL r]
      by (simp add: memparse_def NUL_def)
  next
    case (Cons c v)
    have "rd (decs n @ w @ NUL # r) (length (decs n)) = Some c" using Cons by simp
    then have "memparse M (decs n @ w @ NUL # r) =
       Some (if c \<in> {CHR ''E'', CHR ''e''} then (f 6, length (decs n) + 1)
             else if c \<in> {CHR ''P'', CHR ''p''} then (f 5, length (decs n) + 1)
             else if c \<in> {CHR ''T'', CHR ''t''} then (f 4, length (decs n) + 1)
             else if c \<in> {CHR ''G'', CHR ''g''} then (f 3, length (decs n) + 1)
             else if c \<in> {CHR ''M'', CHR ''m''} then (f 2, length (decs n) + 1)
             else if c \<in> {CHR ''K'', CHR ''k''} then (f 1, length (decs n) + 1)
             else (n, length (decs n)))"
      using simple_strtoull_dec [OF assms, of r] unfolding memparse_def sh [symmetric] by simp
    then show ?thesis unfolding f_def [symmetric] Cons by (auto simp: size_suffixes_def)
  qed
qed

end

section \<open>Options in a list\<close>

lemma skip_option_str:
  "cstring s \<Longrightarrow> skip_option (s @ NUL # r) = Some (dropWhile (\<lambda>c. c \<noteq> CHR '','') s @ NUL # r)"
  by (induction s) (auto simp: NUL_def)

lemma split_on_dropWhile:
  "split_on c s = takeWhile (\<lambda>x. x \<noteq> c) s #
     (case dropWhile (\<lambda>x. x \<noteq> c) s of [] \<Rightarrow> [] | _ # t \<Rightarrow> split_on c t)"
  by (induction s) auto

lemma dropWhile_drop_take:
  "k \<le> length (takeWhile P s) \<Longrightarrow> dropWhile P (drop k s) = dropWhile P s"
proof (induction s arbitrary: k)
  case (Cons a s)
  then show ?case by (cases k) (auto split: if_splits)
qed simp

lemma parse_option_str_correct:
  assumes "cstring s" "cstring opt" "opt \<noteq> []" "CHR '','' \<notin> set opt"
  shows "parse_option_str (s @ NUL # r) (opt @ NUL # q) = Some (opt \<in> set (split_on CHR '','' s))"
  using assms(1)
proof (induction s rule: length_induct)
  case (1 s)
  define n where "n = length opt"
  define t where "t = takeWhile (\<lambda>c. c \<noteq> CHR '','') s"
  define rest where "rest = dropWhile (\<lambda>c. c \<noteq> CHR '','') s"
  have s: "s = t @ rest" by (simp add: t_def rest_def)
  have "cstring (t @ rest)" using 1 unfolding s [symmetric] by blast
  then have tc: "CHR '','' \<notin> set t" "NUL \<notin> set t"
    by (auto simp: t_def cstring_def dest: set_takeWhileD)
  have hr: "rest \<noteq> [] \<Longrightarrow> hd rest = CHR '',''"
    using hd_dropWhile [of "\<lambda>c. c \<noteq> CHR '',''" s] unfolding rest_def by blast
  show ?case
  proof (cases s)
    case Nil
    then show ?thesis using assms(3) by (subst parse_option_str.simps) simp
  next
    case (Cons c u)
    have c: "c \<noteq> NUL" "rd (s @ NUL # r) 0 = Some c" using 1 Cons by auto
    have sk: "skip_option (drop k s @ NUL # r) = Some (rest @ NUL # r)" if "k \<le> length t" for k
    proof -
      have "cstring (drop k s)" using 1 by (auto simp: cstring_def dest: in_set_dropD)
      then show ?thesis using that by (simp add: skip_option_str rest_def t_def dropWhile_drop_take)
    qed
    have K: "parse_option_str (after_comma (rest @ NUL # r)) (opt @ NUL # q) =
        Some (opt \<in> set (case rest of [] \<Rightarrow> [] | _ # v \<Rightarrow> split_on CHR '','' v))"
    proof (cases rest)
      case Nil
      then show ?thesis by (subst parse_option_str.simps) (simp add: after_comma_def NUL_def)
    next
      case (Cons x v)
      then have "x = CHR '',''" using hr by simp
      moreover have "length v < length s" "cstring v" using s Cons 1 by auto
      ultimately show ?thesis using 1 Cons by (simp add: after_comma_def)
    qed
    have sp: "split_on CHR '','' s = t # (case rest of [] \<Rightarrow> [] | _ # v \<Rightarrow> split_on CHR '','' v)"
      unfolding t_def rest_def by (rule split_on_dropWhile)
    have cmp: "strncmp (s @ NUL # r) (opt @ NUL # q) n = Some (sgn (strcmp (take n s) opt))"
      using strncmp_str [of s opt r q n] 1 assms(2) by (simp add: n_def)
    have zero: "sgn (strcmp (take n s) opt) = 0 \<longleftrightarrow> take n s = opt"
      using 1 assms(2) by (simp add: sgn_eq_0_iff cstring_take)
    show ?thesis
    proof (cases "take n s = opt")
      case False
      have "opt \<noteq> t" using False s by (auto simp: n_def)
      then show ?thesis using sk [of 0] K c cmp zero False assms(2)
        by (subst parse_option_str.simps) (simp add: n_def sp)
    next
      case True
      have len: "n \<le> length s" using arg_cong [OF True, of length] by (simp add: n_def)
      have nt: "n \<le> length t"
      proof (rule ccontr)
        assume "\<not> n \<le> length t"
        then have "rest \<noteq> []" using len s by auto
        then have "hd rest = CHR '',''" by (rule hr)
        then have "CHR '','' \<in> set (take n s)"
          using \<open>\<not> n \<le> length t\<close> \<open>rest \<noteq> []\<close> s by (cases rest; cases "n - length t") auto
        then show False using True assms(4) by simp
      qed
      have "\<exists>d. rd (drop n s @ NUL # r) 0 = Some d \<and> (d = NUL \<or> d = CHR '','' \<longleftrightarrow> n = length t)"
      proof (cases "n = length t")
        case True
        then show ?thesis using s hr by (cases rest) auto
      next
        case False
        then have lt: "n < length t" using nt by simp
        then have "t ! n \<in> set t" by simp
        then have "t ! n \<noteq> CHR '',''" "t ! n \<noteq> NUL" using tc by auto
        moreover have "rd (drop n s @ NUL # r) 0 = Some (t ! n)"
          using lt s by (simp add: rd_def nth_append)
        ultimately show ?thesis using False by simp
      qed
      then obtain d where d: "rd (drop n (s @ NUL # r)) 0 = Some d" "d = NUL \<or> d = CHR '','' \<longleftrightarrow> n = length t"
        using len by auto
      have "opt = take n t" using True [unfolded s] nt by simp
      then have ot: "opt = t \<longleftrightarrow> n = length t" using nt by auto
      have dr: "drop n (s @ NUL # r) = drop n s @ NUL # r" using len by simp
      have "parse_option_str (s @ NUL # r) (opt @ NUL # q) =
          (if n = length t then Some True
           else parse_option_str (after_comma (rest @ NUL # r)) (opt @ NUL # q))"
        using sk [OF nt] c cmp zero True assms(2) d
        by (subst parse_option_str.simps) (simp add: n_def [symmetric] dr del: drop_append)
      then show ?thesis using K ot by (simp add: sp)
    qed
  qed
qed

section \<open>Arguments and their text\<close>

text \<open>
  The ways an argument is written on the command line: a bare name, a name and a plain value, a
  quoted value, and a quoted whole.
\<close>
datatype arg = Flag string | Plain string string | Quoted string string | Whole string string

fun arg_text :: "arg \<Rightarrow> string" where
  "arg_text (Flag k) = k"
| "arg_text (Plain k v) = k @ CHR ''='' # v"
| "arg_text (Quoted k v) = k @ CHR ''='' # CHR 0x22 # v @ [CHR 0x22]"
| "arg_text (Whole k v) = CHR 0x22 # k @ CHR ''='' # v @ [CHR 0x22]"

fun arg_name :: "arg \<Rightarrow> string" where
  "arg_name (Flag k) = k"
| "arg_name (Plain k v) = k"
| "arg_name (Quoted k v) = k"
| "arg_name (Whole k v) = k"

fun arg_value :: "arg \<Rightarrow> string option" where
  "arg_value (Flag k) = None"
| "arg_value (Plain k v) = Some v"
| "arg_value (Quoted k v) = Some v"
| "arg_value (Whole k v) = Some v"

definition quiet :: "string \<Rightarrow> bool" where
  "quiet s \<longleftrightarrow> NUL \<notin> set s \<and> CHR 0x22 \<notin> set s"

fun arg_ok :: "(char \<Rightarrow> bool) \<Rightarrow> arg \<Rightarrow> bool" where
  "arg_ok sp (Flag k) \<longleftrightarrow> k \<noteq> [] \<and> quiet k \<and> CHR ''='' \<notin> set k \<and> (\<forall>c\<in>set k. \<not> sp c)"
| "arg_ok sp (Plain k v) \<longleftrightarrow> k \<noteq> [] \<and> quiet k \<and> CHR ''='' \<notin> set k \<and> (\<forall>c\<in>set k. \<not> sp c) \<and>
     quiet v \<and> (\<forall>c\<in>set v. \<not> sp c)"
| "arg_ok sp (Quoted k v) \<longleftrightarrow> k \<noteq> [] \<and> quiet k \<and> CHR ''='' \<notin> set k \<and> (\<forall>c\<in>set k. \<not> sp c) \<and> quiet v"
| "arg_ok sp (Whole k v) \<longleftrightarrow> k \<noteq> [] \<and> quiet k \<and> CHR ''='' \<notin> set k \<and> v \<noteq> [] \<and> quiet v"

lemma wr_at: "n = length xs \<Longrightarrow> wr (xs @ y # ys) n v = Some (xs @ v # ys)"
  by simp

lemma rd_at: "n = length xs \<Longrightarrow> rd (xs @ y # ys) n = Some y"
  by simp

lemma uint_pred_pos: "0 < i \<Longrightarrow> i < 2 ^ 32 \<Longrightarrow> uint_pred i = i - 1"
  by (cases i) (simp_all add: uint_pred_def)

lemma scan_name:
  "quiet t \<Longrightarrow> CHR ''='' \<notin> set t \<or> e \<noteq> 0 \<Longrightarrow> q \<or> (\<forall>c\<in>set t. \<not> sp c) \<Longrightarrow>
     scan_arg sp (t @ s) i q e = scan_arg sp s (i + length t) q e"
  by (induction t arbitrary: i) (auto simp: quiet_def)

lemma skip_spaces_any:
  "\<not> sp NUL \<Longrightarrow> NUL \<in> set s \<Longrightarrow>
     skip_spaces sp s = Some (length s - length (dropWhile sp s))"
proof (induction s)
  case (Cons a s)
  then show ?case using length_dropWhile_le [of sp s] by (auto simp: Suc_diff_le)
qed simp

lemma arg_tail_done:
  assumes "\<not> sp NUL" "x = NUL \<or> sp x" "NUL \<in> set (x # s)"
  shows "\<exists>nxt. arg_tail sp a val (length w) (w @ x # s) = Some (w @ NUL # s, a, val, nxt) \<and>
    drop nxt (w @ NUL # s) = dropWhile sp (x # s) \<and> length w \<le> nxt"
proof (cases "x = NUL")
  case True
  then show ?thesis using assms by (auto simp: arg_tail_def skip_spaces_any)
next
  case False
  have s: "NUL \<in> set s" "sp x" using assms False by auto
  have "drop (length s - length (dropWhile sp s)) s = dropWhile sp s"
    by (metis dropWhile_eq_drop length_drop length_dropWhile_le diff_diff_cancel length_takeWhile_le)
  then show ?thesis using s assms(1) False by (simp add: arg_tail_def skip_spaces_any)
qed

definition taken :: "(char \<Rightarrow> bool) \<Rightarrow> string \<Rightarrow> arg \<Rightarrow> char \<Rightarrow> cbuf
    \<Rightarrow> (cbuf \<times> nat \<times> nat option \<times> nat) option \<Rightarrow> bool" where
  "taken sp u a x s out \<longleftrightarrow>
     (\<exists>b p val nxt. out = Some (b, p, val, nxt) \<and> drop nxt b = dropWhile sp (x # s) \<and>
        cstr (drop p b) = arg_name a \<and> map_option (\<lambda>v. cstr (drop v b)) val = arg_value a \<and>
        take (length u) b = u \<and> length b = length (u @ arg_text a @ x # s) \<and> length u < nxt)"

lemma takenI:
  assumes "\<not> sp NUL" "x = NUL \<or> sp x" "NUL \<in> set (x # s)"
    "b = w @ NUL # s" "length w = length (u @ arg_text a)" "arg_text a \<noteq> []"
    "cstr (drop p b) = arg_name a" "map_option (\<lambda>v. cstr (drop v b)) val = arg_value a"
    "take (length u) b = u"
  shows "taken sp u a x s (arg_tail sp p val (length (u @ arg_text a)) (w @ x # s))"
proof -
  obtain nxt where n: "arg_tail sp p val (length w) (w @ x # s) = Some (w @ NUL # s, p, val, nxt)"
    "drop nxt (w @ NUL # s) = dropWhile sp (x # s)" "length w \<le> nxt"
    using arg_tail_done [OF assms(1-3)] by blast
  have "length u < nxt" using n(3) assms(5,6) by (cases "arg_text a") auto
  then show ?thesis unfolding taken_def using n assms(4-9) by auto
qed

lemma cstring_quiet: "quiet k \<Longrightarrow> cstring k"
  by (simp add: quiet_def cstring_def)

context ctype_macros
begin

lemma not_space [simp]: "\<not> isspace CHR 0x22" "\<not> isspace CHR ''=''"
  by (simp_all add: isspace ctest_def ctype_tab_def)

lemma next_arg_flag:
  assumes "arg_ok isspace (Flag k)" "x = NUL \<or> isspace x" "NUL \<in> set (x # s)"
  shows "taken isspace u (Flag k) x s (next_arg isspace (u @ k @ x # s) (length u))"
proof -
  obtain c k' where k: "k = c # k'" "c \<noteq> CHR 0x22" using assms(1) by (cases k) (auto simp: quiet_def)
  have "scan_arg isspace (k @ x # s) 0 False 0 = Some (length k, 0)"
    using assms(1,2) by (subst scan_name) (auto simp: quiet_def)
  then have "next_arg isspace (u @ k @ x # s) (length u) =
      arg_tail isspace (length u) None (length (u @ arg_text (Flag k))) ((u @ k) @ x # s)"
    using k(2) unfolding k(1) by (simp add: next_arg_def Let_def del: scan_arg.simps)
  moreover have "taken isspace u (Flag k) x s
      (arg_tail isspace (length u) None (length (u @ arg_text (Flag k))) ((u @ k) @ x # s))"
    using assms cstring_quiet [of k] by (intro takenI) auto
  ultimately show ?thesis by simp
qed

lemma next_arg_plain:
  assumes "arg_ok isspace (Plain k v)" "x = NUL \<or> isspace x" "NUL \<in> set (x # s)"
  shows "taken isspace u (Plain k v) x s (next_arg isspace (u @ (k @ CHR ''='' # v) @ x # s) (length u))"
proof -
  obtain c k' where k: "k = c # k'" "c \<noteq> CHR 0x22" using assms(1) by (cases k) (auto simp: quiet_def)
  have e: "scan_arg isspace (CHR ''='' # v @ x # s) (length k) False 0 =
      scan_arg isspace (v @ x # s) (Suc (length k)) False (length k)" by (simp add: NUL_def)
  have "scan_arg isspace (v @ x # s) (Suc (length k)) False (length k) =
      scan_arg isspace (x # s) (Suc (length k) + length v) False (length k)"
    using assms(1) k by (intro scan_name) auto
  also have "\<dots> = Some (Suc (length k) + length v, length k)" using assms(2) by auto
  finally have sc: "scan_arg isspace (k @ CHR ''='' # v @ x # s) 0 False 0 =
      Some (Suc (length k) + length v, length k)"
    using assms(1) e by (subst scan_name) auto
  have "x \<noteq> CHR 0x22" using assms(2) not_space(1) by (auto simp: NUL_def)
  then obtain d ds where d: "v @ x # s = d # ds" "d \<noteq> CHR 0x22"
    using assms(1) by (cases v) (auto simp: quiet_def NUL_def)
  have w: "wr (u @ k @ CHR ''='' # v @ x # s) (length u + length k) NUL = Some (u @ k @ NUL # v @ x # s)"
    using wr_at [of _ "u @ k"] by simp
  have rv: "rd (u @ k @ NUL # v @ x # s) (length u + length k + 1) = Some d"
    unfolding d using rd_at [of _ "u @ k @ [NUL]" d ds] by simp
  have "next_arg isspace (u @ (k @ CHR ''='' # v) @ x # s) (length u) =
      arg_tail isspace (length u) (Some (length u + length k + 1))
        (length (u @ arg_text (Plain k v))) ((u @ k @ NUL # v) @ x # s)"
    using k sc w rv d(2) by (simp add: next_arg_def Let_def del: scan_arg.simps)
  moreover have "taken isspace u (Plain k v) x s
      (arg_tail isspace (length u) (Some (length u + length k + 1))
        (length (u @ arg_text (Plain k v))) ((u @ k @ NUL # v) @ x # s))"
    using assms cstring_quiet [of k] cstring_quiet [of v] by (intro takenI) auto
  ultimately show ?thesis by simp
qed

lemma next_arg_quoted:
  assumes "arg_ok isspace (Quoted k v)" "x = NUL \<or> isspace x" "NUL \<in> set (x # s)"
    "length (arg_text (Quoted k v)) < 2 ^ 32"
  shows "taken isspace u (Quoted k v) x s
    (next_arg isspace (u @ (k @ CHR ''='' # CHR 0x22 # v @ [CHR 0x22]) @ x # s) (length u))"
proof -
  let ?i = "length k + length v + 3"
  obtain c k' where k: "k = c # k'" "c \<noteq> CHR 0x22" using assms(1) by (cases k) (auto simp: quiet_def)
  have e: "scan_arg isspace (CHR ''='' # CHR 0x22 # v @ CHR 0x22 # x # s) (length k) False 0 =
      scan_arg isspace (v @ CHR 0x22 # x # s) (length k + 2) True (length k)" by (simp add: NUL_def)
  have "scan_arg isspace (v @ CHR 0x22 # x # s) (length k + 2) True (length k) =
      scan_arg isspace (CHR 0x22 # x # s) (length k + 2 + length v) True (length k)"
    using assms(1) k by (intro scan_name) auto
  also have "\<dots> = Some (?i, length k)" using assms(2) by (auto simp: NUL_def)
  finally have sc: "scan_arg isspace (k @ CHR ''='' # CHR 0x22 # v @ CHR 0x22 # x # s) 0 False 0 = Some (?i, length k)"
    using assms(1) e by (subst scan_name) auto
  let ?b1 = "u @ k @ NUL # CHR 0x22 # v @ CHR 0x22 # x # s"
  have w: "wr (u @ k @ CHR ''='' # CHR 0x22 # v @ CHR 0x22 # x # s) (length u + length k) NUL = Some ?b1"
    using wr_at [of _ "u @ k"] by simp
  have rv: "rd ?b1 (length u + length k + 1) = Some CHR 0x22"
    using rd_at [of _ "u @ k @ [NUL]"] by simp
  have p: "uint_pred ?i = length k + length v + 2" using assms(4) by (subst uint_pred_pos) simp_all
  have uq: "unquote_end ?b1 (length u) ?i = Some (u @ k @ NUL # CHR 0x22 # v @ NUL # x # s)"
    using rd_at [of "length u + (length k + length v + 2)" "u @ k @ NUL # CHR 0x22 # v" "CHR 0x22" "x # s"]
      wr_at [of "length u + (length k + length v + 2)" "u @ k @ NUL # CHR 0x22 # v" "CHR 0x22" "x # s" NUL]
    unfolding unquote_end_def p by (simp add: add.assoc)
  have ln: "length (u @ arg_text (Quoted k v)) = length u + ?i" by simp
  have "next_arg isspace (u @ (k @ CHR ''='' # CHR 0x22 # v @ [CHR 0x22]) @ x # s) (length u) =
      arg_tail isspace (length u) (Some (length u + length k + 2))
        (length (u @ arg_text (Quoted k v))) ((u @ k @ NUL # CHR 0x22 # v @ [NUL]) @ x # s)"
    using k sc w rv uq unfolding ln by (simp add: next_arg_def Let_def add.assoc del: scan_arg.simps)
  moreover have "taken isspace u (Quoted k v) x s
      (arg_tail isspace (length u) (Some (length u + length k + 2))
        (length (u @ arg_text (Quoted k v))) ((u @ k @ NUL # CHR 0x22 # v @ [NUL]) @ x # s))"
    using assms cstring_quiet [of k] cstring_quiet [of v] by (intro takenI) auto
  ultimately show ?thesis by simp
qed

lemma next_arg_whole:
  assumes "arg_ok isspace (Whole k v)" "x = NUL \<or> isspace x" "NUL \<in> set (x # s)"
    "length (arg_text (Whole k v)) < 2 ^ 32"
  shows "taken isspace u (Whole k v) x s
    (next_arg isspace (u @ (CHR 0x22 # k @ CHR ''='' # v @ [CHR 0x22]) @ x # s) (length u))"
proof -
  let ?i = "length k + length v + 2"
  have e: "scan_arg isspace (CHR ''='' # v @ CHR 0x22 # x # s) (length k) True 0 =
      scan_arg isspace (v @ CHR 0x22 # x # s) (length k + 1) True (length k)" by (simp add: NUL_def)
  have "scan_arg isspace (v @ CHR 0x22 # x # s) (length k + 1) True (length k) =
      scan_arg isspace (CHR 0x22 # x # s) (length k + 1 + length v) True (length k)"
    using assms(1) by (intro scan_name) auto
  also have "\<dots> = Some (?i, length k)" using assms(2) by (auto simp: NUL_def)
  finally have sc: "scan_arg isspace (k @ CHR ''='' # v @ CHR 0x22 # x # s) 0 True 0 = Some (?i, length k)"
    using assms(1) e by (subst scan_name) auto
  let ?b1 = "u @ CHR 0x22 # k @ NUL # v @ CHR 0x22 # x # s"
  obtain d ds where d: "v @ CHR 0x22 # x # s = d # ds" "d \<noteq> CHR 0x22"
    using assms(1) by (cases v) (auto simp: quiet_def)
  have w: "wr (u @ CHR 0x22 # k @ CHR ''='' # v @ CHR 0x22 # x # s) (length u + 1 + length k) NUL = Some ?b1"
    using wr_at [of _ "u @ CHR 0x22 # k"] by simp
  have rv: "rd ?b1 (length u + 1 + length k + 1) = Some d"
    unfolding d using rd_at [of _ "u @ CHR 0x22 # k @ [NUL]" d ds] by simp
  have p: "uint_pred ?i = length k + length v + 1" using assms(4) by (subst uint_pred_pos) simp_all
  have uq: "unquote_end ?b1 (length u + 1) ?i = Some (u @ CHR 0x22 # k @ NUL # v @ NUL # x # s)"
    using rd_at [of "length u + 1 + (length k + length v + 1)" "u @ CHR 0x22 # k @ NUL # v" "CHR 0x22" "x # s"]
      wr_at [of "length u + 1 + (length k + length v + 1)" "u @ CHR 0x22 # k @ NUL # v" "CHR 0x22" "x # s" NUL]
    unfolding unquote_end_def p by (simp add: add.assoc)
  have "next_arg isspace (u @ (CHR 0x22 # k @ CHR ''='' # v @ [CHR 0x22]) @ x # s) (length u) =
      arg_tail isspace (length u + 1) (Some (length u + 1 + length k + 1))
        (length (u @ arg_text (Whole k v))) ((u @ CHR 0x22 # k @ NUL # v @ [NUL]) @ x # s)"
    using assms(1) sc w rv uq d(2) by (simp add: next_arg_def Let_def add.assoc del: scan_arg.simps)
  moreover have "taken isspace u (Whole k v) x s
      (arg_tail isspace (length u + 1) (Some (length u + 1 + length k + 1))
        (length (u @ arg_text (Whole k v))) ((u @ CHR 0x22 # k @ NUL # v @ [NUL]) @ x # s))"
    using assms cstring_quiet [of k] cstring_quiet [of v] by (intro takenI) auto
  ultimately show ?thesis by simp
qed

lemma next_arg_taken:
  assumes "arg_ok isspace a" "x = NUL \<or> isspace x" "NUL \<in> set (x # s)" "length (arg_text a) < 2 ^ 32"
  shows "taken isspace u a x s (next_arg isspace (u @ arg_text a @ x # s) (length u))"
  using next_arg_flag [OF _ assms(2,3)] next_arg_plain [OF _ assms(2,3)]
    next_arg_quoted [OF _ assms(2,3)] next_arg_whole [OF _ assms(2,3)] assms(1,4)
  by (cases a) auto

end

section \<open>Properties\<close>

text \<open>C29: \<open>next_arg\<close> takes the next argument off the command line: for an argument written as a
  bare name, as \<open>name=value\<close>, with a quoted value or quoted as a whole, followed by white space or
  the end of the string, it returns a terminated name and value, equal to what was written, and
  the position of the next argument, and leaves the rest of the line as it was.\<close>
theorem next_arg_takes:
  assumes "ctype_macros isspace isxdigit isdigit isupper tolower" "arg_ok isspace a"
    "x = NUL \<or> isspace x" "NUL \<in> set (x # s)" "length (arg_text a) < 2 ^ 32"
  shows "\<exists>b p val nxt. next_arg isspace (u @ arg_text a @ x # s) (length u) = Some (b, p, val, nxt) \<and>
    cstr (drop p b) = arg_name a \<and> map_option (\<lambda>v. cstr (drop v b)) val = arg_value a \<and>
    drop nxt b = dropWhile isspace (x # s) \<and> take (length u) b = u \<and>
    length b = length (u @ arg_text a @ x # s)"
  using ctype_macros.next_arg_taken [OF assms(1) assms(2-5), of u] unfolding taken_def by blast

theorem next_arg_takes_witness:
  "\<exists>b p val nxt. next_arg (ctest CS) (''quiet '' @ arg_text (Quoted ''init'' ''/bin/sh -c'') @ CHR '' '' # ''ro'' @ [NUL])
      (length ''quiet '') = Some (b, p, val, nxt) \<and>
    cstr (drop p b) = ''init'' \<and> map_option (\<lambda>v. cstr (drop v b)) val = Some ''/bin/sh -c'' \<and>
    drop nxt b = ''ro'' @ [NUL]"
proof -
  have sp: "ctest CS CHR '' ''" "\<not> ctest CS CHR ''r''" by (simp_all add: ctest_def ctype_tab_def)
  have k: "\<not> ctest CS CHR ''i''" "\<not> ctest CS CHR ''n''" "\<not> ctest CS CHR ''t''"
    by (simp_all add: ctest_def ctype_tab_def)
  show ?thesis
    using next_arg_takes [OF ctab.ctype_macros_axioms, of "Quoted ''init'' ''/bin/sh -c''" "CHR '' ''"
        "''ro'' @ [NUL]" "''quiet ''"] sp k
    by (auto simp: quiet_def NUL_def)
qed

text \<open>C30: a lone quotation mark at the end of the command line makes \<open>next_arg\<close> read outside the
  buffer: after the opening quote nothing is scanned, and the index \<open>i - 1\<close> of an \<open>unsigned int\<close>
  \<open>i\<close> that is 0 addresses the byte \<open>2 ^ 32 - 1\<close> places further on.\<close>
theorem next_arg_lone_quote:
  assumes "length (u @ CHR 0x22 # NUL # r) < 2 ^ 32"
  shows "next_arg isspace (u @ CHR 0x22 # NUL # r) (length u) = None"
proof -
  have "scan_arg isspace (drop (length u + 1) (u @ CHR 0x22 # NUL # r)) 0 True 0 = Some (0, 0)" by simp
  moreover have "unquote_end (u @ CHR 0x22 # NUL # r) (length u + 1) 0 = None"
    using assms by (simp add: unquote_end_def uint_pred_def rd_def)
  ultimately show ?thesis by (simp add: next_arg_def Let_def del: drop_append)
qed

theorem next_arg_lone_quote_witness:
  "next_arg (ctest CS) (''ro '' @ CHR 0x22 # NUL # []) (length ''ro '') = None"
  using next_arg_lone_quote [of "''ro ''" "[]" "ctest CS"] by simp

text \<open>C33: \<open>get_options\<close> reads a comma-separated list of numbers back: for numbers below \<open>2 ^ 31\<close>,
  fewer than the array has places, it stores their count and then the numbers in order, leaves the
  other places alone, and stops at the end of the string.\<close>
theorem get_options_roundtrip:
  assumes "radix_ctype M" "\<forall>n\<in>set xs. n < 2 ^ 31" "xs \<noteq> []"
    "length (joined CHR '','' (map decs xs)) < 2 ^ 31"
    "int (length xs) < nints" "nints \<le> int (length ints)"
  shows "get_options M (joined CHR '','' (map decs xs) @ NUL # r) nints ints =
    Some (length (joined CHR '','' (map decs xs)),
      int (length xs) # map int xs @ drop (Suc (length xs)) ints)"
  by (rule radix_ctype.get_options_decs [OF assms])

theorem get_options_roundtrip_witness:
  "get_options ascii_macros (joined CHR '','' (map decs [3, 10, 7]) @ NUL # []) 5 [0, 0, 0, 0, 0] =
    Some (length (joined CHR '','' (map decs [3, 10, 7])), [3, 3, 10, 7, 0])"
proof -
  have "length (joined CHR '','' (map decs [3, 10, 7])) < 2 ^ 31" by (simp add: decs_def rdec.simps)
  then show ?thesis
    using get_options_roundtrip [OF ascii.radix_ctype_axioms, of "[3, 10, 7]" 5 "[0, 0, 0, 0, 0]" "[]"]
    by simp
qed

text \<open>C34: a range that does not fit makes \<open>get_options\<close> report more numbers than it stored: for
  \<open>a-b\<close> with more numbers than the array has places, the places are filled with \<open>a\<close>, \<open>a + 1\<close>,
  ..., nothing is written outside the array, but the count in \<open>ints[0]\<close> is \<open>b - a\<close>, which exceeds
  the \<open>nints - 1\<close> numbers that are there.\<close>
theorem get_options_overcount:
  assumes "radix_ctype M" "a < b" "b < 2 ^ 31" "1 < nints" "nints \<le> int (length ints)"
    "nints - 1 < int (b - a)" "length (decs a @ CHR ''-'' # decs b) < 2 ^ 31" "int (b - a) < 2 ^ 31 - 1"
  shows "\<exists>p ints'. get_options M (decs a @ CHR ''-'' # decs b @ NUL # r) nints ints = Some (p, ints') \<and>
    ints' = int (b - a) # map (\<lambda>k. int (a + k)) [0..<nat (nints - 1)] @ drop (nat nints) ints \<and>
    ints' ! 0 > nints - 1"
  using radix_ctype.get_options_over [OF assms, of r] assms(6) by simp

theorem get_options_overcount_witness:
  "\<exists>p ints'. get_options ascii_macros (decs 1 @ CHR ''-'' # decs 10 @ NUL # []) 4 [0, 0, 0, 0] = Some (p, ints') \<and>
    ints' ! 0 = 9"
proof -
  have l: "length (decs 1 @ CHR ''-'' # decs 10) < 2 ^ 31" by (simp add: decs_def rdec.simps)
  show ?thesis
    using get_options_overcount [OF ascii.radix_ctype_axioms, of 1 10 4 "[0, 0, 0, 0]" "[]"] l by auto
qed

text \<open>\<open>memparse\<close> scales a number by its suffix: after the digits the letters K, M, G, T, P and
  E, in either case, multiply by \<open>2 ^ 10\<close> up to \<open>2 ^ 60\<close> in 64-bit arithmetic and are consumed;
  any other character ends the number.\<close>
theorem memparse_scales:
  assumes "radix_ctype M" "cstring w" "stops w" "n < 2 ^ 64" "length (decs n @ w) < 2 ^ 31"
  shows "memparse M (decs n @ w @ NUL # r) =
    Some (case w of [] \<Rightarrow> (n, length (decs n))
      | c # _ \<Rightarrow>
          (case find (\<lambda>(k, cs). c \<in> set cs) size_suffixes of
             None \<Rightarrow> (n, length (decs n))
           | Some (k, _) \<Rightarrow> (n * 2 ^ (10 * k) mod 2 ^ 64, length (decs n) + 1)))"
  by (rule radix_ctype.memparse_dec [OF assms])

theorem memparse_scales_witness:
  "memparse ascii_macros (decs 64 @ ''M@0'' @ NUL # []) = Some (67108864, length (decs 64) + 1)"
proof -
  have "length (decs 64 @ ''M@0'') < 2 ^ 31" by (simp add: decs_def rdec.simps)
  moreover have "stops ''M@0''" by (simp add: stops_def digit_val_def Let_def)
  moreover have "cstring ''M@0''" by (simp add: NUL_def)
  ultimately show ?thesis
    using memparse_scales [OF ascii.radix_ctype_axioms, of "''M@0''" 64 "[]"] by (simp add: size_suffixes_def)
qed

text \<open>\<open>parse_option_str\<close> says whether an option is one of the comma-separated words of a
  string, not merely the beginning of one.\<close>
theorem parse_option_str_member:
  assumes "cstring s" "cstring opt" "opt \<noteq> []" "CHR '','' \<notin> set opt"
  shows "parse_option_str (s @ NUL # r) (opt @ NUL # q) = Some (opt \<in> set (split_on CHR '','' s))"
  by (rule parse_option_str_correct [OF assms])

theorem parse_option_str_member_witness:
  "parse_option_str (''nosmp,no,x'' @ NUL # []) (''no'' @ NUL # []) = Some True \<and>
   parse_option_str (''nosmp,x'' @ NUL # []) (''no'' @ NUL # []) = Some False"
  using parse_option_str_member [of "''nosmp,no,x''" "''no''" "[]" "[]"]
    parse_option_str_member [of "''nosmp,x''" "''no''" "[]" "[]"]
  by (simp add: NUL_def)

end
