(* ===== verification/JsLang.thy ===== *)
theory JsLang
  imports Binary64 Cmdline
begin

text \<open>
  What the scripts use of JavaScript's strings.  A string is the list of its code units; the files
  the server reads are ASCII, so a code unit is a \<^typ>\<open>char\<close>.  \<open>search\<close> with a pattern without
  special characters is the position of its first occurrence; \<open>split\<close> with a one-character
  pattern or with a character class cuts the string at every such character, and
  \<open>filter(Boolean)\<close> keeps the nonempty pieces.  An array read out of range is \<^verbatim>\<open>undefined\<close>,
  here \<^const>\<open>None\<close>.  \<open>Number\<close>, \<open>String\<close> and \<open>toFixed\<close> follow the language standard: the string
  of a number has the fewest digits that read back as the same number.
\<close>

section \<open>Searching and splitting\<close>

definition js_has :: "string \<Rightarrow> string \<Rightarrow> bool" where
  "js_has s pat \<longleftrightarrow> strstr s pat \<noteq> None"

fun pieces :: "(char \<Rightarrow> bool) \<Rightarrow> string \<Rightarrow> string list" where
  "pieces p [] = [[]]"
| "pieces p (c # s) =
     (if p c then [] # pieces p s
      else (case pieces p s of [] \<Rightarrow> [[c]] | t # ts \<Rightarrow> (c # t) # ts))"

definition js_fields :: "(char \<Rightarrow> bool) \<Rightarrow> string \<Rightarrow> string list" where
  "js_fields p s = filter (\<lambda>t. t \<noteq> []) (pieces p s)"

definition js_get :: "'a list \<Rightarrow> nat \<Rightarrow> 'a option" where
  "js_get xs i = (if i < length xs then Some (xs ! i) else None)"

section \<open>Conversion to a number\<close>

definition js_space :: "char \<Rightarrow> bool" where
  "js_space c \<longleftrightarrow> (of_char c :: nat) \<in> {9, 10, 11, 12, 13, 32, 160}"

definition js_trim :: "string \<Rightarrow> string" where
  "js_trim s = rev (dropWhile js_space (rev (dropWhile js_space s)))"

definition dec :: "char \<Rightarrow> bool" where
  "dec c \<longleftrightarrow> (48 :: nat) \<le> of_char c \<and> of_char c \<le> (57 :: nat)"

definition digit_in :: "nat \<Rightarrow> char \<Rightarrow> nat option" where
  "digit_in b c =
     (let k = of_char c;
          d = (if 48 \<le> k \<and> k \<le> 57 then k - 48
               else if 97 \<le> k \<and> k \<le> 122 then k - 87
               else if 65 \<le> k \<and> k \<le> 90 then k - 55 else b) in
      if d < b then Some d else None)"

fun radix_val :: "nat \<Rightarrow> nat \<Rightarrow> string \<Rightarrow> nat option" where
  "radix_val b acc [] = Some acc"
| "radix_val b acc (c # s) =
     (case digit_in b c of None \<Rightarrow> None | Some d \<Rightarrow> radix_val b (acc * b + d) s)"

definition dec_val :: "string \<Rightarrow> nat" where
  "dec_val s = foldl (\<lambda>a c. a * 10 + (of_char c - 48)) 0 s"

fun exp_part :: "string \<Rightarrow> int option" where
  "exp_part [] = Some 0"
| "exp_part (c # s) =
     (if c = CHR ''e'' \<or> c = CHR ''E'' then
        (let (neg, t) = (case s of [] \<Rightarrow> (False, [])
               | d # u \<Rightarrow> if d = CHR ''-'' then (True, u) else if d = CHR ''+'' then (False, u) else (False, d # u)) in
         if t \<noteq> [] \<and> list_all dec t then Some (if neg then - int (dec_val t) else int (dec_val t)) else None)
      else None)"

definition js_decimal :: "string \<Rightarrow> number" where
  "js_decimal s =
     (let ip = takeWhile dec s;
          r = dropWhile dec s;
          (fp, r2) = (case r of [] \<Rightarrow> ([], [])
             | c # t \<Rightarrow> if c = CHR ''.'' then (takeWhile dec t, dropWhile dec t) else ([], r)) in
      if ip = [] \<and> fp = [] then NaN
      else (case exp_part r2 of None \<Rightarrow> NaN
            | Some e \<Rightarrow> round64 (of_nat (dec_val (ip @ fp)) * 10 powi (e - int (length fp)))))"

definition js_unsigned :: "string \<Rightarrow> number" where
  "js_unsigned s = (if s = ''Infinity'' then Inf False else js_decimal s)"

definition js_radix :: "nat \<Rightarrow> string \<Rightarrow> number" where
  "js_radix b s =
     (if s = [] then NaN
      else (case radix_val b 0 s of None \<Rightarrow> NaN | Some v \<Rightarrow> round64 (of_nat v)))"

definition js_number :: "string option \<Rightarrow> number" where
  "js_number x =
     (case x of None \<Rightarrow> NaN
      | Some s \<Rightarrow>
          (case js_trim s of
             [] \<Rightarrow> Zero False
           | c # t \<Rightarrow>
               if c = CHR ''-'' then fneg (js_unsigned t)
               else if c = CHR ''+'' then js_unsigned t
               else if c = CHR ''0'' \<and> t \<noteq> [] \<and> hd t \<in> {CHR ''x'', CHR ''X''} then js_radix 16 (tl t)
               else if c = CHR ''0'' \<and> t \<noteq> [] \<and> hd t \<in> {CHR ''o'', CHR ''O''} then js_radix 8 (tl t)
               else if c = CHR ''0'' \<and> t \<noteq> [] \<and> hd t \<in> {CHR ''b'', CHR ''B''} then js_radix 2 (tl t)
               else js_unsigned (c # t)))"

definition QUOTE :: string where
  "QUOTE = [CHR 0x22]"

section \<open>Conversion to a string\<close>

definition ilog10 :: "rat \<Rightarrow> int" where
  "ilog10 x =
     (let n = ilog2 x * 30103 div 100000 in
      if x < 10 powi n then n else if x < 10 powi (n + 1) then n + 1 else n + 2)"

fun shortest :: "rat \<Rightarrow> int \<Rightarrow> nat \<Rightarrow> nat \<Rightarrow> int \<times> nat" where
  "shortest x n k 0 = (half_even (x / 10 powi (n - int k)), k)"
| "shortest x n k (Suc m) =
     (let s = half_even (x / 10 powi (n - int k)) in
      if round64 (of_int s * 10 powi (n - int k)) = Fin x then (s, k) else shortest x n (Suc k) m)"

definition zeros :: "nat \<Rightarrow> string" where
  "zeros k = replicate k CHR ''0''"

definition js_digits :: "string \<Rightarrow> int \<Rightarrow> string" where
  "js_digits ds n =
     (let k = int (length ds) in
      if k \<le> n \<and> n \<le> 21 then ds @ zeros (nat (n - k))
      else if 0 < n \<and> n \<le> 21 then take (nat n) ds @ ''.'' @ drop (nat n) ds
      else if - 6 < n \<and> n \<le> 0 then ''0.'' @ zeros (nat (- n)) @ ds
      else (take 1 ds @ (if 1 < k then ''.'' @ drop 1 ds else [])) @ ''e'' @
           (if 0 \<le> n - 1 then ''+'' else ''-'') @ decs (nat \<bar>n - 1\<bar>))"

fun js_string :: "number \<Rightarrow> string" where
  "js_string NaN = ''NaN''"
| "js_string (Inf s) = (if s then ''-Infinity'' else ''Infinity'')"
| "js_string (Zero s) = ''0''"
| "js_string (Fin q) =
     (let n = ilog10 \<bar>q\<bar>;
          (s, k) = shortest \<bar>q\<bar> n 1 16;
          (ds, n) = (if s = 10 ^ k then (decs (nat s div 10), n + 1) else (decs (nat s), n)) in
      (if q < 0 then ''-'' else []) @ js_digits ds n)"

definition to_fixed :: "number \<Rightarrow> nat \<Rightarrow> string" where
  "to_fixed x f =
     (case x of NaN \<Rightarrow> js_string x | Inf s \<Rightarrow> js_string x
      | _ \<Rightarrow>
          if 10 ^ 21 \<le> \<bar>val x\<bar> then js_string x
          else
            let m = decs (nat \<lfloor>\<bar>val x\<bar> * 10 ^ f + 1 / 2\<rfloor>);
                m = zeros (Suc f - length m) @ m;
                k = length m - f in
            (if val x < 0 then ''-'' else []) @ take k m @ (if f = 0 then [] else ''.'' @ drop k m))"

section \<open>Facts about splitting\<close>

lemma pieces_nonempty [simp]: "pieces p s \<noteq> []"
  by (induction s) (auto split: list.splits)

lemma pieces_none: "list_all (\<lambda>c. \<not> p c) s \<Longrightarrow> pieces p s = [s]"
  by (induction s) auto

lemma pieces_append:
  "p c \<Longrightarrow> pieces p (s @ c # t) = pieces p s @ pieces p t"
  by (induction s) (auto split: list.splits)

lemma prefix_first_piece:
  "list_all (\<lambda>c. \<not> p c) w \<Longrightarrow> pieces p s = t # ts \<Longrightarrow> prefix w s \<longleftrightarrow> prefix w t"
proof (induction s arbitrary: w t ts)
  case (Cons c s)
  then show ?case by (cases w) (auto split: list.splits if_splits)
qed auto

lemma pieces_word: "list_all (\<lambda>c. \<not> p c) w \<Longrightarrow> p c \<Longrightarrow> pieces p (w @ c # s) = w # pieces p s"
  by (simp add: pieces_append pieces_none)

lemma sublist_pieces:
  assumes "list_all (\<lambda>c. \<not> p c) w" "w \<noteq> []"
  shows "sublist w s \<longleftrightarrow> (\<exists>t\<in>set (pieces p s). sublist w t)"
  using assms
proof (induction s)
  case (Cons c s)
  show ?case
  proof (cases "p c")
    case True
    have "\<not> prefix w (c # s)" using Cons.prems True by (cases w) auto
    then show ?thesis using True Cons by (simp add: sublist_Cons_right)
  next
    case False
    obtain t ts where t: "pieces p s = t # ts" by (cases "pieces p s") auto
    have "prefix w (c # s) \<longleftrightarrow> prefix w (c # t)"
      using prefix_first_piece [of p w "c # s" "c # t" ts] Cons.prems False t by simp
    then show ?thesis using False t Cons by (auto simp: sublist_Cons_right)
  qed
qed simp

lemma js_fields_Nil [simp]: "js_fields p [] = []"
  by (simp add: js_fields_def)

lemma js_fields_sep [simp]: "p c \<Longrightarrow> js_fields p (c # s) = js_fields p s"
  by (simp add: js_fields_def)

lemma js_fields_word:
  assumes "w \<noteq> []" "list_all (\<lambda>c. \<not> p c) w" "p c"
  shows "js_fields p (w @ c # s) = w # js_fields p s"
  using assms by (simp add: js_fields_def pieces_append pieces_none)

lemma js_fields_last:
  assumes "w \<noteq> []" "list_all (\<lambda>c. \<not> p c) w"
  shows "js_fields p w = [w]"
  using assms by (simp add: js_fields_def pieces_none)

lemma js_has_iff: "js_has s pat \<longleftrightarrow> sublist pat s"
  using strstr_iff [of s pat] by (simp add: js_has_def)

lemma js_has_field:
  assumes "list_all (\<lambda>c. \<not> p c) w" "w \<noteq> []"
  shows "js_has s w \<longleftrightarrow> (\<exists>t\<in>set (js_fields p s). js_has t w)"
  using sublist_pieces [OF assms, of s] assms(2) by (auto simp: js_has_iff js_fields_def)

section \<open>Facts about numbers\<close>

lemma decs_step: "decs n = (if n < 10 then [dig n] else decs (n div 10) @ [dig (n mod 10)])"
  by (subst (1) decs_def) (subst rdec.simps, simp add: decs_def)

lemma of_char_dig: "d < 10 \<Longrightarrow> (of_char (dig d) :: nat) = d + 48"
  by (simp add: dig_def)

lemma dec_dig: "d < 10 \<Longrightarrow> dec (dig d)"
  by (simp add: dec_def of_char_dig)

lemma dec_decs: "list_all dec (decs n)"
proof (induction n rule: less_induct)
  case (less n)
  then show ?case by (subst decs_step) (simp add: dec_dig)
qed

lemma dec_val_acc: "foldl (\<lambda>a c. a * 10 + (of_char c - 48)) k s = k * 10 ^ length s + dec_val s"
proof (induction s arbitrary: k)
  case (Cons c s)
  show ?case using Cons [of "k * 10 + (of_char c - 48)"] Cons [of "of_char c - 48"]
    by (simp add: dec_val_def algebra_simps)
qed (simp add: dec_val_def)

lemma dec_val_append: "dec_val (s @ t) = dec_val s * 10 ^ length t + dec_val t"
  by (simp add: dec_val_def [of "s @ t"] dec_val_def [of s, symmetric] dec_val_acc [of "dec_val s"])

lemma dec_val_decs [simp]: "dec_val (decs n) = n"
proof (induction n rule: less_induct)
  case (less n)
  show ?case
  proof (cases "n < 10")
    case True
    then show ?thesis by (subst decs_step) (simp add: dec_val_def of_char_dig)
  next
    case False
    then have "dec_val (decs (n div 10)) = n div 10" using less by simp
    then show ?thesis using False by (subst decs_step) (simp add: dec_val_append, simp add: dec_val_def of_char_dig)
  qed
qed

lemma length_decs: "0 < k \<Longrightarrow> n < 10 ^ k \<Longrightarrow> length (decs n) \<le> k"
proof (induction k arbitrary: n)
  case (Suc k)
  show ?case
  proof (cases "n < 10")
    case True
    then show ?thesis by (subst decs_step) simp
  next
    case False
    then have "0 < k" using Suc.prems by (cases k) auto
    moreover have "n div 10 < 10 ^ k" using Suc.prems by (simp add: less_mult_imp_div_less)
    ultimately show ?thesis using Suc.IH [of "n div 10"] False by (subst decs_step) simp
  qed
qed simp

definition padded :: "nat \<Rightarrow> nat \<Rightarrow> string" where
  "padded k n = zeros (k - length (decs n)) @ decs n"

lemma dec_val_zeros [simp]: "dec_val (zeros k) = 0"
  by (induction k) (simp_all add: zeros_def dec_val_def)

lemma dec_zeros: "list_all dec (zeros k)"
  by (simp add: zeros_def list_all_iff dec_def)

lemma padded_facts:
  "list_all dec (padded k n)" "dec_val (padded k n) = n" "0 < k \<Longrightarrow> n < 10 ^ k \<Longrightarrow> length (padded k n) = k"
  using length_decs [of k n]
  by (simp_all add: padded_def dec_decs dec_zeros dec_val_append) (simp add: zeros_def)

lemma dec_not:
  assumes "dec c"
  shows "\<not> js_space c" "c \<noteq> CHR ''-''" "c \<noteq> CHR ''+''" "c \<noteq> CHR ''.''" "c \<noteq> CHR ''I''"
    "c \<notin> {CHR ''x'', CHR ''X''}" "c \<notin> {CHR ''o'', CHR ''O''}" "c \<notin> {CHR ''b'', CHR ''B''}"
  using assms by (auto simp: dec_def js_space_def)

lemma dropWhile_none: "list_all (\<lambda>c. \<not> p c) s \<Longrightarrow> dropWhile p s = s"
  by (cases s) auto

lemma js_trim_id: "list_all (\<lambda>c. \<not> js_space c) s \<Longrightarrow> js_trim s = s"
  using dropWhile_none [of js_space s] dropWhile_none [of js_space "rev s"]
  by (simp add: js_trim_def list_all_iff)

lemma takeWhile_all: "list_all p s \<Longrightarrow> takeWhile p (s @ t) = s @ takeWhile p t"
  by (induction s) auto

lemma dropWhile_all: "list_all p s \<Longrightarrow> dropWhile p (s @ t) = dropWhile p t"
  by (induction s) auto

lemma js_decimal_int:
  assumes "list_all dec s" "s \<noteq> []"
  shows "js_decimal s = round64 (of_nat (dec_val s))"
proof -
  have w: "takeWhile dec s = s" "dropWhile dec s = []"
    using takeWhile_all [of dec s "[]"] dropWhile_all [of dec s "[]"] assms(1) by simp_all
  show ?thesis using assms(2) by (simp add: js_decimal_def w)
qed

lemma js_decimal_frac:
  assumes "list_all dec s" "s \<noteq> []" "list_all dec t"
  shows "js_decimal (s @ CHR ''.'' # t) = round64 (of_nat (dec_val s * 10 ^ length t + dec_val t) / 10 ^ length t)"
proof -
  have d: "\<not> dec CHR ''.''" by (simp add: dec_def)
  have w: "takeWhile dec (s @ CHR ''.'' # t) = s" "dropWhile dec (s @ CHR ''.'' # t) = CHR ''.'' # t"
    using assms(1) d by (simp_all add: takeWhile_all dropWhile_all)
  have v: "takeWhile dec t = t" "dropWhile dec t = []"
    using takeWhile_all [of dec t "[]"] dropWhile_all [of dec t "[]"] assms(3) by simp_all
  show ?thesis
    using assms(2) by (simp add: js_decimal_def w v dec_val_append power_int_minus divide_inverse)
qed

lemma js_number_unsigned:
  assumes "list_all dec s" "s \<noteq> []" "t = [] \<or> (\<exists>u. t = CHR ''.'' # u \<and> list_all dec u)"
  shows "js_number (Some (s @ t)) = js_decimal (s @ t)"
proof -
  obtain c u where s: "s = c # u" using assms(2) by (cases s) auto
  have "\<not> js_space CHR ''.''" by (simp add: js_space_def)
  then have "list_all (\<lambda>c. \<not> js_space c) (s @ t)"
    using assms(1,3) dec_not(1) by (auto simp: list_all_iff)
  then have tr: "js_trim (c # u @ t) = c # u @ t" using s js_trim_id [of "s @ t"] by simp
  have "u @ t = [] \<or> dec (hd (u @ t)) \<or> hd (u @ t) = CHR ''.''"
    using assms(1,3) s by (cases u) auto
  then have h: "u @ t = [] \<or> hd (u @ t) \<notin> {CHR ''x'', CHR ''X''} \<and> hd (u @ t) \<notin> {CHR ''o'', CHR ''O''} \<and>
      hd (u @ t) \<notin> {CHR ''b'', CHR ''B''}"
    using dec_not(6-8) by auto
  have c: "dec c" using assms(1) s by simp
  then have "js_unsigned (c # u @ t) = js_decimal (c # u @ t)" using dec_not(5) by (auto simp: js_unsigned_def)
  then show ?thesis using c h dec_not(2,3) [of c] by (auto simp: js_number_def tr s)
qed

lemma js_number_decs: "js_number (Some (decs n)) = round64 (of_nat n)"
  using js_number_unsigned [OF dec_decs, of n "[]"] by (simp add: js_decimal_int dec_decs)

lemma js_number_minus:
  assumes "0 < n" shows "js_number (Some (CHR ''-'' # decs n)) = round64 (- of_nat n)"
proof -
  have "\<not> js_space CHR ''-''" by (simp add: js_space_def)
  then have "list_all (\<lambda>c. \<not> js_space c) (CHR ''-'' # decs n)"
    using dec_decs [of n] dec_not(1) by (auto simp: list_all_iff)
  then have "js_trim (CHR ''-'' # decs n) = CHR ''-'' # decs n" by (rule js_trim_id)
  moreover have "decs n \<noteq> ''Infinity''" using dec_decs [of n] by (auto simp: dec_def)
  ultimately show ?thesis
    using assms by (simp add: js_number_def js_unsigned_def js_decimal_int dec_decs round64_minus)
qed

lemma js_number_frac:
  assumes "0 < k" "u < 10 ^ k"
  shows "js_number (Some (decs s @ CHR ''.'' # padded k u)) = round64 (of_nat (s * 10 ^ k + u) / 10 ^ k)"
  using js_number_unsigned [OF dec_decs, of s "CHR ''.'' # padded k u"] padded_facts [of k u] assms
  by (simp add: js_decimal_frac dec_decs)

end
