(* ===== verification/Dmesg.thy ===== *)
theory Dmesg
  imports JsLang
begin

text \<open>
  The boot log as the web server reads it, \<^verbatim>\<open>3-3/src/start.js\<close>: \<open>parse_dmesg\<close> and the handler of
  \<^verbatim>\<open>/bootgraph/cur_dmesg\<close>, which runs the same loop over another file, turn the lines the kernel
  prints for every initcall into an array of objects; \<open>/calc_dmesg_based_watt\<close> reads the time of
  the last but one line, and \<open>getHashDiffToArray\<close> compares two lists of file hashes.  A JavaScript
  object is a record whose fields are \<^const>\<open>None\<close> as long as the property is undefined.  The file
  system is a map from paths to contents; reading a file that is not there throws, the value
  \<^const>\<open>None\<close>.
\<close>

section \<open>One line of the log\<close>

record info =
  start_time :: "number option"
  device_driver_name :: "string option"
  mem_util :: "number option"
  cpu_util :: "number option"
  init_time :: "number option"
  return_value :: "number option"

definition new_info :: info where
  "new_info = \<lparr>start_time = None, device_driver_name = None, mem_util = None, cpu_util = None,
     init_time = None, return_value = None\<rparr>"

record dmesg_state =
  cpu_infos :: "number list"
  obj :: info
  info_array :: "info list"

definition dmesg_sep :: "char \<Rightarrow> bool" where
  "dmesg_sep c \<longleftrightarrow> c \<in> set ''[]+,: ''"

definition cell :: "number list \<Rightarrow> nat \<Rightarrow> number" where
  "cell xs i = (case js_get xs i of None \<Rightarrow> NaN | Some v \<Rightarrow> v)"

definition fmax :: "number \<Rightarrow> number \<Rightarrow> number" where
  "fmax x y =
     (if x = NaN \<or> y = NaN then NaN
      else if flt x y \<or> (x = Zero True \<and> y = Zero False) then y else x)"

definition one :: number where
  "one = Fin 1"

definition read_cpu :: "string list \<Rightarrow> number list" where
  "read_cpu str_list = map (\<lambda>i. js_number (js_get str_list i)) [3, 5, 7, 9, 11, 13, 15]"

definition cpu_share :: "number list \<Rightarrow> number list \<Rightarrow> number" where
  "cpu_share new old =
     (let user = fsub (fadd (cell new 0) (cell new 1)) (fadd (cell old 0) (cell old 1));
          system = fsub (fadd (fadd (cell new 2) (cell new 5)) (cell new 6))
                     (fadd (fadd (cell old 2) (cell old 5)) (cell old 6));
          idle = fsub (cell new 3) (cell old 3);
          iowait = fsub (cell new 4) (cell old 4);
          aSum = fmax (fadd (fadd (fadd user system) idle) iowait) one;
          util = fadd (fdiv user aSum) (fdiv system aSum);
          util = (if util = NaN then Zero False else util) in
      if flt one util then one else util)"

definition dmesg_line :: "dmesg_state \<Rightarrow> string \<Rightarrow> dmesg_state" where
  "dmesg_line st str =
     (if \<not> js_has str ''] initcall'' \<and> \<not> js_has str ''OSLAB'' \<and> \<not> js_has str ''] calling'' then st
      else
        let str_list = js_fields dmesg_sep str;
            st = (if js_has str ''] calling'' then
                    st\<lparr>obj := (obj st)\<lparr>start_time := Some (js_number (js_get str_list 0)),
                                       device_driver_name := js_get str_list 2\<rparr>\<rparr>
                  else st) in
        if js_has str ''MemTotal'' then
          let mem_total = js_number (js_get str_list 3);
              mem_free = js_number (js_get str_list 5) in
          st\<lparr>obj := (obj st)\<lparr>mem_util := Some (fdiv (fsub mem_total mem_free) mem_total)\<rparr>\<rparr>
        else if js_has str ''nice'' then
          let new_cpu_infos = read_cpu str_list in
          st\<lparr>cpu_infos := new_cpu_infos,
             obj := (obj st)\<lparr>cpu_util := Some (cpu_share new_cpu_infos (cpu_infos st))\<rparr>\<rparr>
        else if js_has str ''] initcall'' then
          let item = (obj st)\<lparr>init_time := Some (fdiv (js_number (js_get str_list 7)) (Fin 1000000)),
                          return_value := Some (js_number (js_get str_list 5))\<rparr> in
          st\<lparr>info_array := info_array st @ [item], obj := new_info\<rparr>
        else st)"

section \<open>The whole log\<close>

definition dmesg_start :: dmesg_state where
  "dmesg_start = \<lparr>cpu_infos = [], obj = new_info, info_array = []\<rparr>"

definition dmesg_loop :: "string list \<Rightarrow> info list" where
  "dmesg_loop datas = info_array (foldl dmesg_line dmesg_start datas)"

type_synonym files = "string \<rightharpoonup> string"

definition parse_dmesg :: "files \<Rightarrow> string \<Rightarrow> string \<Rightarrow> info list option" where
  "parse_dmesg fs kernel_dir_path kernel_version =
     map_option (\<lambda>data. dmesg_loop (split_on CHR 0x0A data))
       (fs (kernel_dir_path @ ''/'' @ kernel_version @ ''/dmesg.txt''))"

definition cur_dmesg :: "files \<Rightarrow> info list option" where
  "cur_dmesg fs =
     map_option (\<lambda>data. dmesg_loop (split_on CHR 0x0A data)) (fs ''../bootgraph/cur_bootgraph.txt'')"

section \<open>Energy and hashes\<close>

definition watt :: number where
  "watt = round64 (754 / 100)"

definition calc_dmesg_based_watt :: "files \<Rightarrow> string \<Rightarrow> string \<Rightarrow> string option" where
  "calc_dmesg_based_watt fs kernel_dir_path kernel_version = do {
     n \<leftarrow> js_get kernel_version 1;
     data \<leftarrow> fs (kernel_dir_path @ ''/V'' @ js_string (js_number (Some [n])) @ ''/dmesg.txt'');
     let datas = split_on CHR 0x0A data;
     l \<leftarrow> (if 2 \<le> length datas then Some (datas ! (length datas - 2)) else None);
     s \<leftarrow> js_get (split_on CHR ''['' l) 1;
     Some (to_fixed (fmul (js_number (js_get (split_on CHR '']'' s) 0)) watt) 3)
   }"

definition getHashDiffToArray :: "files \<Rightarrow> string \<Rightarrow> string \<Rightarrow> string \<Rightarrow> string list option" where
  "getHashDiffToArray fs kernel_dir_path version_1 version_2 = do {
     a \<leftarrow> fs (kernel_dir_path @ ''/V'' @ version_1 @ ''/hash.txt'');
     b \<leftarrow> fs (kernel_dir_path @ ''/V'' @ version_2 @ ''/hash.txt'');
     let first_file = split_on CHR 0x0A a;
     let second_file = split_on CHR 0x0A b;
     Some (filter (\<lambda>x. x \<notin> set second_file) first_file @
           filter (\<lambda>x. x \<notin> set first_file) second_file)
   }"

section \<open>Stamped lines\<close>

text \<open>
  A line of \<^verbatim>\<open>dmesg\<close> starts with the time in brackets: seconds, padded with blanks, and six digits
  of microseconds.
\<close>

definition stamp :: "nat \<times> nat \<times> nat \<Rightarrow> string" where
  "stamp t = (case t of (p, s, u) \<Rightarrow>
     ''['' @ replicate p CHR '' '' @ (decs s @ CHR ''.'' # padded 6 u) @ ''] '')"

definition time_of :: "nat \<times> nat \<times> nat \<Rightarrow> number" where
  "time_of t = (case t of (p, s, u) \<Rightarrow> round64 (of_nat (s * 10 ^ 6 + u) / 10 ^ 6))"

definition marked :: "string \<Rightarrow> bool" where
  "marked l \<longleftrightarrow> js_has l ''] initcall'' \<or> js_has l ''OSLAB'' \<or> js_has l ''] calling''"

lemma dmesg_line_unmarked: "\<not> marked l \<Longrightarrow> dmesg_line st l = st"
  by (simp add: dmesg_line_def marked_def)

lemma foldl_marked: "foldl dmesg_line st ls = foldl dmesg_line st (filter marked ls)"
  by (induction ls arbitrary: st) (auto simp: dmesg_line_unmarked)

lemma js_has_set: "js_has s w \<Longrightarrow> set w \<subseteq> set s"
  by (auto simp: js_has_iff sublist_def)

lemma js_has_bracket:
  "c \<notin> set u \<Longrightarrow> js_has (u @ c # v) (c # w) \<longleftrightarrow> prefix w v \<or> js_has v (c # w)"
  by (induction u) (auto simp: js_has_iff sublist_Cons_right)

lemma js_has_absent: "c \<notin> set v \<Longrightarrow> \<not> js_has v (c # w)"
  using js_has_set [of v "c # w"] by auto

lemma dmesg_sep_simps [simp]:
  "dmesg_sep CHR ''[''" "dmesg_sep CHR '']''" "dmesg_sep CHR ''+''" "dmesg_sep CHR '',''"
  "dmesg_sep CHR '':''" "dmesg_sep CHR '' ''"
  by (simp_all add: dmesg_sep_def)

lemma dec_not_sep: "dec c \<Longrightarrow> \<not> dmesg_sep c"
  by (auto simp: dec_def dmesg_sep_def)

lemma decs_no_sep: "list_all (\<lambda>c. \<not> dmesg_sep c) (decs n)"
  using dec_decs [of n] dec_not_sep by (auto simp: list_all_iff)

lemma time_text: "list_all (\<lambda>c. dec c \<or> c = CHR ''.'') (decs s @ CHR ''.'' # padded 6 u)"
  using dec_decs [of s] padded_facts(1) [of 6 u] by (auto simp: list_all_iff)

lemma time_no_sep: "list_all (\<lambda>c. \<not> dmesg_sep c) (decs s @ CHR ''.'' # padded 6 u)"
proof -
  have "\<not> dmesg_sep CHR ''.''" by (simp add: dmesg_sep_def)
  then show ?thesis using time_text [of s u] dec_not_sep by (auto simp: list_all_iff)
qed

lemma js_fields_replicate: "p c \<Longrightarrow> js_fields p (replicate n c @ s) = js_fields p s"
  by (induction n) auto

lemma js_fields_stamp:
  "js_fields dmesg_sep (stamp (p, s, u) @ m) = (decs s @ CHR ''.'' # padded 6 u) # js_fields dmesg_sep m"
  using js_fields_word [OF _ time_no_sep, of s u "CHR '']''" "CHR '' '' # m"]
  by (simp add: stamp_def js_fields_replicate)

lemma stamp_bracket: "js_has (stamp t @ m) (CHR '']'' # w) \<longleftrightarrow> prefix w (CHR '' '' # m) \<or> js_has m (CHR '']'' # w)"
proof -
  obtain p s u where t: "t = (p, s, u)" by (cases t) auto
  let ?u = "''['' @ replicate p CHR '' '' @ (decs s @ CHR ''.'' # padded 6 u)"
  have "\<not> (dec CHR '']'' \<or> CHR '']'' = CHR ''.'')" by (simp add: dec_def)
  then have "CHR '']'' \<notin> set (decs s @ CHR ''.'' # padded 6 u)"
    using time_text [of s u] unfolding list_all_iff by blast
  then have "CHR '']'' \<notin> set ?u" by auto
  then have "js_has (?u @ CHR '']'' # CHR '' '' # m) (CHR '']'' # w) \<longleftrightarrow>
      prefix w (CHR '' '' # m) \<or> js_has (CHR '' '' # m) (CHR '']'' # w)"
    by (rule js_has_bracket)
  moreover have "js_has (CHR '' '' # m) (CHR '']'' # w) \<longleftrightarrow> js_has m (CHR '']'' # w)"
    by (auto simp: js_has_iff sublist_Cons_right)
  ultimately show ?thesis by (simp add: t stamp_def)
qed

lemma stamp_word:
  assumes "w \<noteq> []" "list_all (\<lambda>c. \<not> dmesg_sep c) w" "\<not> list_all (\<lambda>c. dec c \<or> c = CHR ''.'') w"
  shows "js_has (stamp t @ m) w \<longleftrightarrow> (\<exists>f\<in>set (js_fields dmesg_sep m). js_has f w)"
proof -
  obtain p s u where t: "t = (p, s, u)" by (cases t) auto
  have "\<not> js_has (decs s @ CHR ''.'' # padded 6 u) w"
    using time_text [of s u] assms(3) js_has_set [of _ w] unfolding list_all_iff by blast
  then show ?thesis using js_has_field [OF assms(2,1), of "stamp t @ m"] by (simp add: t js_fields_stamp)
qed

lemma js_number_time: "u < 10 ^ 6 \<Longrightarrow> js_number (Some (decs s @ CHR ''.'' # padded 6 u)) = time_of (p, s, u)"
  using js_number_frac [of 6 u s] by (simp add: time_of_def)

lemma stamp_words:
  "js_has (stamp t @ m) ''OSLAB'' \<longleftrightarrow> (\<exists>f\<in>set (js_fields dmesg_sep m). js_has f ''OSLAB'')"
  "js_has (stamp t @ m) ''MemTotal'' \<longleftrightarrow> (\<exists>f\<in>set (js_fields dmesg_sep m). js_has f ''MemTotal'')"
  "js_has (stamp t @ m) ''nice'' \<longleftrightarrow> (\<exists>f\<in>set (js_fields dmesg_sep m). js_has f ''nice'')"
  by (rule stamp_word, simp_all add: dmesg_sep_def dec_def)+

end
