(* ===== verification/KState.thy ===== *)
theory KState
  imports Cmdline
begin

text \<open>
  The state the boot code of the kernel works on, and what it takes from the rest of the kernel.
  \<open>kernel\<close> holds the variables of \<^verbatim>\<open>init/main.c\<close> and \<^verbatim>\<open>kernel/params.c\<close>, the lines printed so far, and
  under \<open>world\<close> everything the initcalls and parameter handlers act on.  \<open>machine\<close> collects the
  services whose sources are not part of the repository: the clock, the statistics of the CPUs and
  of the memory, symbol lookup, the boot-time allocator, the lockdown policy.  Messages of
  \<open>pr_debug\<close> are compiled out and not recorded.
\<close>

record cpustat =
  ct_user :: nat
  ct_nice :: nat
  ct_system :: nat
  ct_softirq :: nat
  ct_irq :: nat
  ct_idle :: nat
  ct_iowait :: nat

record 'w machine =
  long_bits :: nat
  ktime_get :: "'w \<Rightarrow> int \<times> 'w"
  task_pid_nr :: "'w \<Rightarrow> nat"
  kallsyms_lookup :: "nat \<Rightarrow> (string \<times> nat \<times> nat \<times> string option) option"
  si_meminfo :: "'w \<Rightarrow> nat \<times> nat"
  possible_cpus :: "nat list"
  kcpustat_cpu :: "'w \<Rightarrow> nat \<Rightarrow> cpustat"
  cpu_online :: "'w \<Rightarrow> nat \<Rightarrow> bool"
  get_cpu_idle_time_us :: "'w \<Rightarrow> nat \<Rightarrow> nat"
  get_cpu_iowait_time_us :: "'w \<Rightarrow> nat \<Rightarrow> nat"
  nsec_to_clock_t :: "nat \<Rightarrow> nat"
  memblock_alloc :: "nat \<Rightarrow> 'w \<Rightarrow> bool \<times> 'w"
  security_locked_down :: "'w \<Rightarrow> bool"

record 'w kernel =
  world :: 'w
  preempt_count :: int
  irqs_disabled :: bool
  klog :: "string list"
  held :: "string option list"
  tainted :: bool
  initcall_debug :: bool
  initcall_calltime :: int
  blacklisted_initcalls :: "string list"
  saved_command_line :: cbuf
  initcall_command_line :: cbuf

definition printk :: "string \<Rightarrow> 'w kernel \<Rightarrow> 'w kernel" where
  "printk msg k = k\<lparr>klog := klog k @ [msg]\<rparr>"

lemma printk_simps [simp]:
  "world (printk m k) = world k" "preempt_count (printk m k) = preempt_count k"
  "irqs_disabled (printk m k) = irqs_disabled k" "klog (printk m k) = klog k @ [m]"
  "held (printk m k) = held k" "initcall_debug (printk m k) = initcall_debug k"
  "blacklisted_initcalls (printk m k) = blacklisted_initcalls k"
  "initcall_calltime (printk m k) = initcall_calltime k" "tainted (printk m k) = tainted k"
  "saved_command_line (printk m k) = saved_command_line k"
  "initcall_command_line (printk m k) = initcall_command_line k"
  by (simp_all add: printk_def)

fun errno_nr :: "errno \<Rightarrow> int" where
  "errno_nr EPERM = 1"
| "errno_nr ENOENT = 2"
| "errno_nr E2BIG = 7"
| "errno_nr ENOMEM = 12"
| "errno_nr EFAULT = 14"
| "errno_nr EINVAL = 22"
| "errno_nr ENOSPC = 28"
| "errno_nr EROFS = 30"
| "errno_nr ERANGE = 34"

text \<open>
  A machine to run the model on: one CPU, a clock that stands still, and memory that never runs
  out.
\<close>

definition demo_machine :: "unit machine" where
  "demo_machine =
     \<lparr>long_bits = 32, ktime_get = (\<lambda>w. (0, w)), task_pid_nr = (\<lambda>w. 1),
      kallsyms_lookup = (\<lambda>a. if a = 0 then Some (''demo_init'', 68, 0, None) else None),
      si_meminfo = (\<lambda>w. (186038, 181745)), possible_cpus = [0],
      kcpustat_cpu = (\<lambda>w c. \<lparr>ct_user = 0, ct_nice = 0, ct_system = 0, ct_softirq = 0, ct_irq = 0,
        ct_idle = 0, ct_iowait = 0\<rparr>),
      cpu_online = (\<lambda>w c. True), get_cpu_idle_time_us = (\<lambda>w c. 0), get_cpu_iowait_time_us = (\<lambda>w c. 0),
      nsec_to_clock_t = (\<lambda>n. n div 10000000), memblock_alloc = (\<lambda>n w. (True, w)),
      security_locked_down = (\<lambda>w. False)\<rparr>"

definition demo_kernel :: "unit kernel" where
  "demo_kernel =
     \<lparr>world = (), preempt_count = 1, irqs_disabled = False, klog = [], held = [], tainted = False,
      initcall_debug = True, initcall_calltime = 0, blacklisted_initcalls = [],
      saved_command_line = [NUL], initcall_command_line = [NUL]\<rparr>"

lemma dig_simps:
  "dig 0 = CHR ''0''" "dig (Suc 0) = CHR ''1''" "dig 1 = CHR ''1''" "dig 2 = CHR ''2''" "dig 3 = CHR ''3''" "dig 4 = CHR ''4''"
  "dig 5 = CHR ''5''" "dig 6 = CHR ''6''" "dig 7 = CHR ''7''" "dig 8 = CHR ''8''" "dig 9 = CHR ''9''"
  by code_simp+

end
