(* ===== verification/Params.thy ===== *)
theory Params
  imports KState
begin

text \<open>
  Boot parameters, \<^verbatim>\<open>kernel/params.c\<close>.  A table of parameters is a list; the \<open>set\<close> operation of an
  entry and the handler of unknown parameters are functions of the position of the value (and of
  the name) in the command line, of the command line, which they may modify, and of the kernel
  state, and return an error number.  Taking a mutex that is already held never returns, the value
  \<^const>\<open>None\<close>.
\<close>

section \<open>Names\<close>

definition dash2underscore :: "char \<Rightarrow> char" where
  "dash2underscore c = (if c = CHR ''-'' then CHR ''_'' else c)"

fun parameqn :: "cbuf \<Rightarrow> cbuf \<Rightarrow> nat \<Rightarrow> bool option" where
  "parameqn a b 0 = Some True"
| "parameqn (x # a) (y # b) (Suc n) =
     (if dash2underscore x \<noteq> dash2underscore y then Some False else parameqn a b n)"
| "parameqn a b (Suc n) = None"

definition parameq :: "cbuf \<Rightarrow> cbuf \<Rightarrow> bool option" where
  "parameq a b = do {
     n \<leftarrow> strlen a;
     parameqn a b (n + 1)
   }"

section \<open>One parameter\<close>

type_synonym 'w pstate = "cbuf \<times> 'w kernel"
type_synonym 'w handler = "nat \<Rightarrow> nat option \<Rightarrow> 'w pstate \<Rightarrow> (int \<times> 'w pstate) option"

record 'w kernel_param =
  kp_name :: string
  kp_mod :: "string option"
  kp_level :: int
  kp_noarg :: bool
  kp_hwparam :: bool
  kp_unsafe :: bool
  kp_set :: "nat option \<Rightarrow> 'w pstate \<Rightarrow> (int \<times> 'w pstate) option"

definition kernel_param_lock :: "string option \<Rightarrow> 'w kernel \<Rightarrow> 'w kernel option" where
  "kernel_param_lock md k = (if md \<in> set (held k) then None else Some (k\<lparr>held := md # held k\<rparr>))"

definition kernel_param_unlock :: "string option \<Rightarrow> 'w kernel \<Rightarrow> 'w kernel" where
  "kernel_param_unlock md k = k\<lparr>held := remove1 md (held k)\<rparr>"

definition param_check_unsafe :: "'w machine \<Rightarrow> 'w kernel_param \<Rightarrow> 'w kernel \<Rightarrow> bool \<times> 'w kernel" where
  "param_check_unsafe M kp k =
     (if kp_hwparam kp \<and> security_locked_down M (world k) then (False, k)
      else if kp_unsafe kp then
        (True, (printk (''Setting dangerous option '' @ kp_name kp @ '' - tainting kernel'') k)\<lparr>tainted := True\<rparr>)
      else (True, k))"

definition set_param :: "'w machine \<Rightarrow> 'w kernel_param \<Rightarrow> int \<Rightarrow> int \<Rightarrow> nat option \<Rightarrow> 'w pstate
    \<Rightarrow> (int \<times> 'w pstate) option" where
  "set_param M kp min_level max_level val s =
     (if kp_level kp < min_level \<or> kp_level kp > max_level then Some (0, s)
      else if val = None \<and> \<not> kp_noarg kp then Some (- errno_nr EINVAL, s)
      else do {
        let (buf, k) = s;
        k \<leftarrow> kernel_param_lock (kp_mod kp) k;
        let (ok, k) = param_check_unsafe M kp k;
        (err, buf, k) \<leftarrow> (if ok then kp_set kp val (buf, k) else Some (- errno_nr EPERM, (buf, k)));
        Some (err, (buf, kernel_param_unlock (kp_mod kp) k))
      })"

fun parse_one :: "'w machine \<Rightarrow> 'w handler option \<Rightarrow> 'w kernel_param list \<Rightarrow> int \<Rightarrow> int \<Rightarrow> nat \<Rightarrow> nat option
    \<Rightarrow> 'w pstate \<Rightarrow> (int \<times> 'w pstate) option" where
  "parse_one M handle_unknown [] min_level max_level param val s =
     (case handle_unknown of
        Some h \<Rightarrow> h param val s
      | None \<Rightarrow> Some (- errno_nr ENOENT, s))"
| "parse_one M handle_unknown (p # params) min_level max_level param val s = do {
     eq \<leftarrow> parameq (drop param (fst s)) (kp_name p @ [NUL]);
     if eq then set_param M p min_level max_level val s
     else parse_one M handle_unknown params min_level max_level param val s
   }"

section \<open>The command line\<close>

datatype parsed_to = PNull | PErr int | PArgs nat

definition arg_error :: "string \<Rightarrow> int \<Rightarrow> nat \<Rightarrow> nat option \<Rightarrow> 'w pstate \<Rightarrow> 'w kernel" where
  "arg_error doing ret param val s =
     (let (buf, k) = s;
          name = cstr (drop param buf);
          v = (case val of None \<Rightarrow> '''' | Some i \<Rightarrow> cstr (drop i buf)) in
      if ret = - errno_nr ENOENT then printk (doing @ '': Unknown parameter `'' @ name @ [CHR 0x27]) k
      else if ret = - errno_nr ENOSPC then
        printk (doing @ '': `'' @ v @ CHR 0x27 # '' too large for parameter `'' @ name @ [CHR 0x27]) k
      else printk (doing @ '': `'' @ v @ CHR 0x27 # '' invalid for parameter `'' @ name @ [CHR 0x27]) k)"

lemma skip_spaces_bound: "skip_spaces sp s = Some k \<Longrightarrow> k < length s"
proof (induction s arbitrary: k)
  case (Cons c s)
  then show ?case by (auto split: if_splits)
qed simp

lemma arg_tail_advances:
  assumes "arg_tail sp a v p buf = Some (b, a', v', nxt)"
  shows "p \<le> nxt" "nxt < length b" "length b = length buf" "rd buf p \<noteq> Some NUL \<Longrightarrow> p < nxt"
  using assms by (auto simp: arg_tail_def rd_def wr_def split: bind_splits if_splits dest!: skip_spaces_bound)

lemma scan_arg_from: "scan_arg sp s i q e = Some (j, e') \<Longrightarrow> i \<le> j"
proof (induction s arbitrary: i q e)
  case (Cons c s)
  then show ?case by (auto split: if_splits dest!: Cons.IH)
qed simp

lemma unquote_end_length: "unquote_end buf a i = Some b \<Longrightarrow> length b = length buf"
  by (auto simp: unquote_end_def wr_def split: bind_splits if_splits)

lemma next_arg_advances:
  assumes "next_arg sp buf args = Some (b, p, v, nxt)" "rd buf args = Some c" "c \<noteq> NUL"
  shows "args < nxt \<and> nxt < length b \<and> length b = length buf \<and> p \<le> nxt"
proof -
  define a where "a = (if c = CHR 0x22 then args + 1 else args)"
  obtain i e where sc: "scan_arg sp (drop a buf) 0 (c = CHR 0x22) 0 = Some (i, e)"
    using assms by (auto simp: next_arg_def a_def Let_def split: bind_splits)
  obtain b1 v1 where b1: "(if e = 0 then Some (buf, None)
       else do {
         buf \<leftarrow> wr buf (a + e) NUL;
         v \<leftarrow> rd buf (a + e + 1);
         if v = CHR 0x22 then do {
           buf \<leftarrow> unquote_end buf a i;
           Some (buf, Some (a + e + 2))
         } else Some (buf, Some (a + e + 1))
       }) = Some (b1, v1)"
    "(do {
       buf \<leftarrow> (if c = CHR 0x22 then unquote_end b1 a i else Some b1);
       arg_tail sp a v1 (a + i) buf
     }) = Some (b, p, v, nxt)"
    using assms(1) unfolding next_arg_def assms(2) Let_def bind.bind_lunit a_def [symmetric] sc
    by (auto split: bind_splits prod.splits)
  obtain b2 where b2: "(if c = CHR 0x22 then unquote_end b1 a i else Some b1) = Some b2"
    "arg_tail sp a v1 (a + i) b2 = Some (b, p, v, nxt)"
    using b1(2) by (auto split: bind_splits)
  have l1: "length b1 = length buf"
    using b1(1) by (auto simp: wr_def split: if_splits bind_splits dest!: unquote_end_length)
  have l2: "length b2 = length b1" using b2(1) by (auto split: if_splits dest!: unquote_end_length)
  have n: "a + i \<le> nxt" "nxt < length b" "length b = length buf" "p = a"
    using arg_tail_advances [OF b2(2)] b2(2) l1 l2 by (auto simp: arg_tail_def split: bind_splits)
  have "args < nxt"
  proof (cases "c = CHR 0x22 \<or> 0 < i")
    case True
    then show ?thesis using n(1) by (auto simp: a_def split: if_splits)
  next
    case False
    then have i: "i = 0" "a = args" by (auto simp: a_def)
    have d: "drop args buf = c # drop (Suc args) buf"
      using assms(2) by (auto simp: rd_def Cons_nth_drop_Suc split: if_splits)
    have "e = 0" using sc i False assms(3) unfolding d i
      by (auto split: if_splits dest!: scan_arg_from)
    then have "b2 = buf" using b1(1) b2(1) False by simp
    then show ?thesis using arg_tail_advances(4) [OF b2(2)] assms(2,3) i by simp
  qed
  then show ?thesis using n by simp
qed

function parse_args_loop :: "(char \<Rightarrow> bool) \<Rightarrow> 'w machine \<Rightarrow> string \<Rightarrow> 'w kernel_param list \<Rightarrow> int \<Rightarrow> int
    \<Rightarrow> 'w handler option \<Rightarrow> nat \<Rightarrow> parsed_to \<Rightarrow> 'w pstate \<Rightarrow> (parsed_to \<times> 'w pstate) option" where
  "parse_args_loop isspace M doing params min_level max_level unknown args err s =
     (case rd (fst s) args of None \<Rightarrow> None
      | Some c \<Rightarrow>
          if c = NUL then Some (err, s)
          else (case next_arg isspace (fst s) args of None \<Rightarrow> None
            | Some (buf, param, val, nxt) \<Rightarrow>
                (case (if val = None then map_option (\<lambda>r. r = 0) (kstrcmp (drop param buf) (''--'' @ [NUL]))
                       else Some False) of None \<Rightarrow> None
                 | Some stop \<Rightarrow>
                     if stop then Some (if err = PNull then PArgs nxt else err, (buf, snd s))
                     else (case parse_one M unknown params min_level max_level param val (buf, snd s) of None \<Rightarrow> None
                       | Some (ret, buf2, k) \<Rightarrow>
                           let k = (if irqs_disabled (snd s) \<and> \<not> irqs_disabled k then
                                      printk (doing @ '': option '' @ CHR 0x27 # cstr (drop param buf2) @ CHR 0x27 # '' enabled irq'' @ CHR 0x27 # ''s!'') k
                                    else k) in
                           if length buf2 \<noteq> length buf then None
                           else if ret = 0 then
                             parse_args_loop isspace M doing params min_level max_level unknown nxt err (buf2, k)
                           else
                             parse_args_loop isspace M doing params min_level max_level unknown nxt (PErr ret)
                               (buf2, arg_error doing ret param val (buf2, k))))))"
  by pat_completeness auto
termination
proof (relation "measure (\<lambda>(sp, M, doing, ps, lo, hi, u, args, err, s). length (fst s) - args)", goal_cases)
  case 1
  then show ?case by simp
next
  case (2 sp M doing ps lo hi u args err s c x buf y param z val nxt r q ret w buf2 k k2)
  then show ?case using next_arg_advances [of sp "fst s" args buf param val nxt c] by auto
next
  case (3 sp M doing ps lo hi u args err s c x buf y param z val nxt r q ret w buf2 k k2)
  then show ?case using next_arg_advances [of sp "fst s" args buf param val nxt c] by auto
qed

declare parse_args_loop.simps [simp del]

definition parse_args :: "(char \<Rightarrow> bool) \<Rightarrow> 'w machine \<Rightarrow> string \<Rightarrow> 'w kernel_param list \<Rightarrow> int \<Rightarrow> int
    \<Rightarrow> 'w handler option \<Rightarrow> nat \<Rightarrow> 'w pstate \<Rightarrow> (parsed_to \<times> 'w pstate) option" where
  "parse_args isspace M doing params min_level max_level unknown args s = do {
     n \<leftarrow> skip_spaces isspace (drop args (fst s));
     parse_args_loop isspace M doing params min_level max_level unknown (args + n) PNull s
   }"

section \<open>Facts about names\<close>

lemma dash2underscore_NUL [simp]: "dash2underscore c = NUL \<longleftrightarrow> c = NUL" "NUL = dash2underscore c \<longleftrightarrow> c = NUL"
  by (auto simp: dash2underscore_def NUL_def)

lemma dash2underscore_NUL_eq [simp]: "dash2underscore NUL = NUL"
  by (simp add: dash2underscore_def NUL_def)

lemma parameqn_str:
  "cstring a \<Longrightarrow> cstring b \<Longrightarrow> parameqn (a @ NUL # r) (b @ NUL # q) (length a + 1) =
     Some (map dash2underscore a = map dash2underscore b)"
proof (induction a arbitrary: b)
  case Nil
  then show ?case by (cases b) auto
next
  case (Cons x a)
  then show ?case by (cases b) auto
qed

lemma parameq_str:
  "cstring a \<Longrightarrow> cstring b \<Longrightarrow> parameq (a @ NUL # r) (b @ NUL # q) =
     Some (map dash2underscore a = map dash2underscore b)"
  using parameqn_str [of a b r q] by (simp add: parameq_def)

section \<open>What the command line means\<close>

text \<open>
  The meaning of a command line, over strings: the table entry of the first parameter with the
  name, up to dashes and underscores, handles the value; each argument is handled in turn, and the
  last error is the result.
\<close>

definition by_value :: "(string option \<Rightarrow> 'w kernel \<Rightarrow> int \<times> 'w kernel) \<Rightarrow> nat option \<Rightarrow> 'w pstate
    \<Rightarrow> (int \<times> 'w pstate) option" where
  "by_value f val s =
     (let (r, k) = f (map_option (\<lambda>v. cstr (drop v (fst s))) val) (snd s) in Some (r, (fst s, k)))"

definition by_name :: "(string \<Rightarrow> string option \<Rightarrow> 'w kernel \<Rightarrow> int \<times> 'w kernel) \<Rightarrow> 'w handler" where
  "by_name f param = (\<lambda>val s. by_value (f (cstr (drop param (fst s)))) val s)"

record 'w option_table =
  ot_params :: "'w kernel_param list"
  ot_set :: "'w kernel_param \<Rightarrow> string option \<Rightarrow> 'w kernel \<Rightarrow> int \<times> 'w kernel"
  ot_unknown :: "(string \<Rightarrow> string option \<Rightarrow> 'w kernel \<Rightarrow> int \<times> 'w kernel) option"
  ot_min :: int
  ot_max :: int

definition table_ok :: "'w option_table \<Rightarrow> bool" where
  "table_ok T \<longleftrightarrow> (\<forall>p\<in>set (ot_params T). cstring (kp_name p) \<and> kp_set p = by_value (ot_set T p))"

definition meaning_of_param :: "'w machine \<Rightarrow> 'w option_table \<Rightarrow> 'w kernel_param \<Rightarrow> string option \<Rightarrow> 'w kernel
    \<Rightarrow> (int \<times> 'w kernel) option" where
  "meaning_of_param M T p v k =
     (if kp_level p < ot_min T \<or> kp_level p > ot_max T then Some (0, k)
      else if v = None \<and> \<not> kp_noarg p then Some (- errno_nr EINVAL, k)
      else if kp_mod p \<in> set (held k) then None
      else
        let (ok, k) = param_check_unsafe M p (k\<lparr>held := kp_mod p # held k\<rparr>);
            (r, k) = (if ok then ot_set T p v k else (- errno_nr EPERM, k)) in
        Some (r, k\<lparr>held := remove1 (kp_mod p) (held k)\<rparr>))"

definition meaning_of_arg :: "'w machine \<Rightarrow> 'w option_table \<Rightarrow> string \<Rightarrow> string option \<Rightarrow> 'w kernel
    \<Rightarrow> (int \<times> 'w kernel) option" where
  "meaning_of_arg M T n v k =
     (case find (\<lambda>p. map dash2underscore n = map dash2underscore (kp_name p)) (ot_params T) of
        Some p \<Rightarrow> meaning_of_param M T p v k
      | None \<Rightarrow> Some (case ot_unknown T of None \<Rightarrow> (- errno_nr ENOENT, k) | Some f \<Rightarrow> f n v k))"

definition complain :: "string \<Rightarrow> int \<Rightarrow> string \<Rightarrow> string option \<Rightarrow> 'w kernel \<Rightarrow> 'w kernel" where
  "complain doing ret n v k =
     (if ret = - errno_nr ENOENT then printk (doing @ '': Unknown parameter `'' @ n @ [CHR 0x27]) k
      else if ret = - errno_nr ENOSPC then
        printk (doing @ '': `'' @ (case v of None \<Rightarrow> '''' | Some w \<Rightarrow> w) @ CHR 0x27 # '' too large for parameter `'' @ n @ [CHR 0x27]) k
      else printk (doing @ '': `'' @ (case v of None \<Rightarrow> '''' | Some w \<Rightarrow> w) @ CHR 0x27 # '' invalid for parameter `'' @ n @ [CHR 0x27]) k)"

definition irq_warning :: "string \<Rightarrow> string \<Rightarrow> 'w kernel \<Rightarrow> 'w kernel \<Rightarrow> 'w kernel" where
  "irq_warning doing n k k' =
     (if irqs_disabled k \<and> \<not> irqs_disabled k' then
        printk (doing @ '': option '' @ CHR 0x27 # n @ CHR 0x27 # '' enabled irq'' @ CHR 0x27 # ''s!'') k'
      else k')"

fun meaning_of_args :: "'w machine \<Rightarrow> string \<Rightarrow> 'w option_table \<Rightarrow> parsed_to \<Rightarrow> (string \<times> string option) list
    \<Rightarrow> 'w kernel \<Rightarrow> (parsed_to \<times> 'w kernel) option" where
  "meaning_of_args M doing T err [] k = Some (err, k)"
| "meaning_of_args M doing T err ((n, v) # as) k = do {
     (ret, k1) \<leftarrow> meaning_of_arg M T n v k;
     let k2 = irq_warning doing n k k1;
     if ret = 0 then meaning_of_args M doing T err as k2
     else meaning_of_args M doing T (PErr ret) as (complain doing ret n v k2)
   }"

definition handlers :: "'w option_table \<Rightarrow> 'w handler option" where
  "handlers T = map_option by_name (ot_unknown T)"

lemma set_param_meaning:
  assumes "kp_set p = by_value (ot_set T p)"
  shows "set_param M p (ot_min T) (ot_max T) val (buf, k) =
    map_option (\<lambda>(r, k). (r, (buf, k))) (meaning_of_param M T p (map_option (\<lambda>v. cstr (drop v buf)) val) k)"
  using assms
  by (auto simp: set_param_def meaning_of_param_def by_value_def kernel_param_lock_def
      kernel_param_unlock_def Let_def split: prod.splits)

lemma parse_one_meaning:
  assumes "drop param buf = n @ NUL # r" "cstring n"
    "\<forall>p\<in>set ps. cstring (kp_name p) \<and> kp_set p = by_value (ot_set T p)"
  shows "parse_one M (handlers T) ps (ot_min T) (ot_max T) param val (buf, k) =
    map_option (\<lambda>(r, k). (r, (buf, k)))
      (meaning_of_arg M (T\<lparr>ot_params := ps\<rparr>) n (map_option (\<lambda>v. cstr (drop v buf)) val) k)"
  using assms(3)
proof (induction ps)
  case Nil
  then show ?case using assms(1,2)
    by (cases "ot_unknown T") (auto simp: meaning_of_arg_def handlers_def by_name_def by_value_def split: prod.splits)
next
  case (Cons p ps)
  have q: "parameq (drop param buf) (kp_name p @ [NUL]) =
      Some (map dash2underscore n = map dash2underscore (kp_name p))"
    unfolding assms(1) using parameq_str [of n "kp_name p" r "[]"] assms(2) Cons.prems by simp
  have m: "meaning_of_param M (T\<lparr>ot_params := qs\<rparr>) p' v k = meaning_of_param M T p' v k" for qs p' v k
    by (simp add: meaning_of_param_def cong: if_cong prod.case_cong)
  show ?case
    using Cons q set_param_meaning [of p T M val buf k]
    by (simp add: meaning_of_arg_def m cong: option.case_cong)
qed

section \<open>The loop over the arguments\<close>

lemma arg_error_complain:
  "cstr (drop param buf) = n \<Longrightarrow> map_option (\<lambda>i. cstr (drop i buf)) val = v \<Longrightarrow>
     arg_error doing ret param val (buf, k) = complain doing ret n v k"
  by (cases val) (auto simp: arg_error_def complain_def Let_def)

lemma parse_args_step:
  assumes "rd buf args = Some c" "c \<noteq> NUL" "next_arg sp buf args = Some (b, param, val, nxt)"
    "cstr (drop param b) = n" "map_option (\<lambda>v. cstr (drop v b)) val = v" "NUL \<in> set (drop nxt b)"
    "table_ok T" "(n, v) \<noteq> (''--'', None)"
  shows "parse_args_loop sp M doing (ot_params T) (ot_min T) (ot_max T) (handlers T) args err (buf, k) = do {
     (ret, k1) \<leftarrow> meaning_of_arg M T n v k;
     let k2 = irq_warning doing n k k1;
     parse_args_loop sp M doing (ot_params T) (ot_min T) (ot_max T) (handlers T) nxt
       (if ret = 0 then err else PErr ret) (b, if ret = 0 then k2 else complain doing ret n v k2)
   }"
proof -
  have "param \<le> nxt" using next_arg_advances [OF assms(3,1,2)] by simp
  then have "NUL \<in> set (drop param b)" using assms(6) set_drop_subset_set_drop [of param nxt b] by blast
  then obtain s r where s: "drop param b = s @ NUL # r" "cstring s" by (rule cstring_split)
  then have n: "drop param b = n @ NUL # r" "cstring n" using assms(4) by auto
  have "val = None \<longleftrightarrow> v = None" using assms(5) by auto
  then have stop: "(if val = None then map_option (\<lambda>r. r = 0) (kstrcmp (drop param b) (''--'' @ [NUL])) else Some False)
      = Some False"
    using assms(8) n kstrcmp_str [of n "''--''" r "[]"] by (auto simp: n(1) NUL_def sgn_eq_0_iff)
  have one: "parse_one M (handlers T) (ot_params T) (ot_min T) (ot_max T) param val (b, k) =
      map_option (\<lambda>(r, k). (r, (b, k))) (meaning_of_arg M T n v k)"
    using parse_one_meaning [OF n, of "ot_params T" T M val k] assms(5,7) by (simp add: table_ok_def)
  show ?thesis
    by (subst parse_args_loop.simps)
      (simp add: assms(1-3) stop one arg_error_complain [OF assms(4,5)] assms(4) irq_warning_def Let_def
        split: option.split)
qed


context ctype_macros
begin

lemma isspace_blank [simp]: "isspace CHR '' ''"
  by (simp add: isspace ctest_def ctype_tab_def)

lemma arg_text_head:
  assumes "arg_ok isspace a"
  shows "\<exists>c t. arg_text a = c # t \<and> \<not> isspace c \<and> c \<noteq> NUL"
proof (cases "arg_text a")
  case Nil
  then show ?thesis using assms by (cases a) auto
next
  case (Cons c t)
  have "\<not> isspace c \<and> c \<noteq> NUL"
    using assms Cons not_space(1)
    by (cases a) (auto simp: quiet_def NUL_def append_eq_Cons_conv)
  then show ?thesis using Cons by blast
qed

lemma line_split:
  assumes "\<forall>a\<in>set (a # as). arg_ok isspace a"
  obtains x s where "joined CHR '' '' (map arg_text (a # as)) @ NUL # r = arg_text a @ x # s"
    "x = NUL \<or> isspace x" "NUL \<in> set (x # s)"
    "dropWhile isspace (x # s) = joined CHR '' '' (map arg_text as) @ NUL # r"
proof (cases as)
  case Nil
  then show ?thesis using that [of NUL r] by simp
next
  case (Cons a' as')
  obtain c t where c: "arg_text a' = c # t" "\<not> isspace c" using arg_text_head [of a'] assms Cons by auto
  have "\<exists>w. joined CHR '' '' (map arg_text as) = c # w"
    unfolding Cons using c(1) by (cases as') auto
  then have "dropWhile isspace (CHR '' '' # joined CHR '' '' (map arg_text as) @ NUL # r) =
      joined CHR '' '' (map arg_text as) @ NUL # r"
    using c(2) by auto
  then show ?thesis using that [of "CHR '' ''" "joined CHR '' '' (map arg_text as) @ NUL # r"] Cons by simp
qed

lemma parse_args_joined:
  assumes "table_ok T"
  shows "\<forall>a\<in>set as. arg_ok isspace a \<and> length (arg_text a) < 2 ^ 32 \<and> a \<noteq> Flag ''--'' \<Longrightarrow>
    map_option (\<lambda>(e, s). (e, snd s))
      (parse_args_loop isspace M doing (ot_params T) (ot_min T) (ot_max T) (handlers T) (length u) err
        (u @ joined CHR '' '' (map arg_text as) @ NUL # r, k)) =
    meaning_of_args M doing T err (map (\<lambda>a. (arg_name a, arg_value a)) as) k"
proof (induction as arbitrary: u err k)
  case Nil
  then show ?case by (subst parse_args_loop.simps) simp
next
  case (Cons a as)
  obtain x s where x: "joined CHR '' '' (map arg_text (a # as)) @ NUL # r = arg_text a @ x # s"
    "x = NUL \<or> isspace x" "NUL \<in> set (x # s)"
    "dropWhile isspace (x # s) = joined CHR '' '' (map arg_text as) @ NUL # r"
    using line_split [of a as r] Cons.prems by auto
  obtain b p val nxt where t: "next_arg isspace (u @ arg_text a @ x # s) (length u) = Some (b, p, val, nxt)"
    "drop nxt b = joined CHR '' '' (map arg_text as) @ NUL # r"
    "cstr (drop p b) = arg_name a" "map_option (\<lambda>v. cstr (drop v b)) val = arg_value a"
    using next_arg_taken [of a x s u] Cons.prems x(2-4) by (auto simp: taken_def)
  obtain c w where c: "arg_text a = c # w" "c \<noteq> NUL" using arg_text_head [of a] Cons.prems by auto
  have "rd (u @ arg_text a @ x # s) (length u) = Some c" by (simp add: c)
  note step = parse_args_step [OF this c(2) t(1,3,4) _ assms, of M doing err k]
  have "(arg_name a, arg_value a) \<noteq> (''--'', None)" using Cons.prems by (cases a) auto
  moreover have "nxt \<le> length b" using t(2) by (metis drop_all linear append_is_Nil_conv list.distinct(1))
  then have b: "b = take nxt b @ joined CHR '' '' (map arg_text as) @ NUL # r" "length (take nxt b) = nxt"
    using t(2) append_take_drop_id [of nxt b] by auto
  have ih: "map_option (\<lambda>(e, s). (e, snd s))
      (parse_args_loop isspace M doing (ot_params T) (ot_min T) (ot_max T) (handlers T) nxt e (b, k')) =
      meaning_of_args M doing T e (map (\<lambda>a. (arg_name a, arg_value a)) as) k'" for e k'
    using Cons.IH [of "take nxt b" e k'] Cons.prems b by simp
  ultimately show ?case
    unfolding x(1) using step t(2)
    by (auto simp: ih Let_def option.map_comp comp_def split: bind_splits)
qed

lemma parse_args_line:
  assumes "table_ok T" "\<forall>a\<in>set as. arg_ok isspace a \<and> length (arg_text a) < 2 ^ 32 \<and> a \<noteq> Flag ''--''"
    "\<forall>c\<in>set ws. isspace c"
  shows "map_option (\<lambda>(e, s). (e, snd s))
      (parse_args isspace M doing (ot_params T) (ot_min T) (ot_max T) (handlers T) 0
        (ws @ joined CHR '' '' (map arg_text as) @ NUL # r, k)) =
    meaning_of_args M doing T PNull (map (\<lambda>a. (arg_name a, arg_value a)) as) k"
proof -
  let ?line = "joined CHR '' '' (map arg_text as) @ NUL # r"
  have "dropWhile isspace ?line = ?line"
  proof (cases as)
    case (Cons a as')
    then obtain c t where "arg_text a = c # t" "\<not> isspace c" using arg_text_head [of a] assms(2) by auto
    then show ?thesis using Cons by (cases as') auto
  qed simp
  then have "dropWhile isspace (ws @ ?line) = ?line" using assms(3) by (simp add: dropWhile_append2)
  then have "skip_spaces isspace (ws @ ?line) = Some (length ws)" by (subst skip_spaces_any) auto
  then show ?thesis using parse_args_joined [OF assms(1,2), of M doing ws PNull r k] by (simp add: parse_args_def)
qed

end

section \<open>The mutexes\<close>

definition keeps_held :: "(int \<times> 'w pstate) option \<Rightarrow> 'w pstate \<Rightarrow> bool" where
  "keeps_held out s \<longleftrightarrow> (\<forall>r s'. out = Some (r, s') \<longrightarrow> held (snd s') = held (snd s))"

lemma set_param_held:
  assumes "\<And>v s. keeps_held (kp_set p v s) s"
  shows "keeps_held (set_param M p lo hi val s) s"
  using assms unfolding keeps_held_def
  by (cases s) (fastforce simp: set_param_def kernel_param_lock_def kernel_param_unlock_def
      param_check_unsafe_def printk_def Let_def split: if_splits bind_splits)

lemma parse_one_held:
  assumes "\<forall>p\<in>set ps. \<forall>v s. keeps_held (kp_set p v s) s" "\<forall>h n v s. u = Some h \<longrightarrow> keeps_held (h n v s) s"
  shows "keeps_held (parse_one M u ps lo hi param val s) s"
  using assms(1)
proof (induction ps)
  case Nil
  then show ?case using assms(2) by (cases u; cases s) (simp_all add: keeps_held_def)
next
  case (Cons p ps)
  have "keeps_held (set_param M p lo hi val s) s" using Cons.prems by (intro set_param_held) auto
  moreover have "keeps_held (parse_one M u ps lo hi param val s) s" using Cons by simp
  ultimately show ?case
    by (cases "parameq (drop param (fst s)) (kp_name p @ [NUL])") (simp_all add: keeps_held_def)
qed

lemma arg_error_held [simp]: "held (arg_error doing ret param val (buf, k)) = held k"
  by (simp add: arg_error_def Let_def)

lemma parse_args_loop_cases:
  assumes "parse_args_loop sp M doing ps lo hi u args err s = Some (e, s')"
  obtains (Stop) "snd s' = snd s"
  | (Next) buf param val nxt ret buf2 k k2 err2
    where "parse_one M u ps lo hi param val (buf, snd s) = Some (ret, buf2, k)" "held k2 = held k"
      "parse_args_loop sp M doing ps lo hi u nxt err2 (buf2, k2) = Some (e, s')"
      "length buf2 - nxt < length (fst s) - args"
proof -
  note eq = assms [unfolded parse_args_loop.simps [of sp M doing ps lo hi u args err s]]
  obtain c where c: "rd (fst s) args = Some c" using eq by (auto split: option.splits)
  show thesis
  proof (cases "c = NUL")
    case True
    then show thesis using eq c Stop by auto
  next
    case False
    obtain buf param val nxt where n: "next_arg sp (fst s) args = Some (buf, param, val, nxt)"
      using eq c False by (auto split: option.splits)
    obtain b where b: "(if val = None then map_option (\<lambda>r. r = 0) (kstrcmp (drop param buf) (''--'' @ [NUL])) else Some False) = Some b"
      using eq c False n by (auto split: option.splits)
    show thesis
    proof (cases b)
      case True
      then show thesis using eq Stop by (auto simp: c False n b)
    next
      case b0: False
      obtain ret buf2 k where o: "parse_one M u ps lo hi param val (buf, snd s) = Some (ret, buf2, k)"
        using eq by (cases "parse_one M u ps lo hi param val (buf, snd s)") (auto simp: c False n b b0)
      define k1 where "k1 = (if irqs_disabled (snd s) \<and> \<not> irqs_disabled k then
          printk (doing @ '': option '' @ CHR 0x27 # cstr (drop param buf2) @ CHR 0x27 # '' enabled irq'' @ CHR 0x27 # ''s!'') k
        else k)"
      have "held k1 = held k" by (simp add: k1_def)
      moreover have "(if length buf2 \<noteq> length buf then None
          else if ret = 0 then parse_args_loop sp M doing ps lo hi u nxt err (buf2, k1)
          else parse_args_loop sp M doing ps lo hi u nxt (PErr ret) (buf2, arg_error doing ret param val (buf2, k1)))
          = Some (e, s')"
        using eq b0 False unfolding c n option.case prod.case b o Let_def k1_def [symmetric] by simp
      ultimately have "\<exists>k2 err2. held k2 = held k \<and> length buf2 = length buf \<and>
          parse_args_loop sp M doing ps lo hi u nxt err2 (buf2, k2) = Some (e, s')"
        by (cases "ret = 0")
          (auto split: if_splits intro: exI [of _ k1] exI [of _ "arg_error doing ret param val (buf2, k1)"])
      then show thesis using Next [OF o] next_arg_advances [OF n c False] by fastforce
    qed
  qed
qed

lemma parse_args_loop_held:
  assumes "\<forall>p\<in>set ps. \<forall>v s. keeps_held (kp_set p v s) s" "\<forall>h n v s. u = Some h \<longrightarrow> keeps_held (h n v s) s"
    "parse_args_loop sp M doing ps lo hi u args err s = Some (e, s')"
  shows "held (snd s') = held (snd s)"
  using assms(3)
proof (induction "length (fst s) - args" arbitrary: args err s rule: less_induct)
  case less
  from less.prems show ?case
  proof (cases rule: parse_args_loop_cases)
    case Stop
    then show ?thesis by simp
  next
    case (Next buf param val nxt ret buf2 k k2 err2)
    then have "held (snd s') = held k2" using less.hyps [of "(buf2, k2)" nxt err2] by simp
    then show ?thesis
      using Next(1,2) parse_one_held [OF assms(1,2), of M lo hi param val "(buf, snd s)"]
      by (simp add: keeps_held_def)
  qed
qed



section \<open>Properties\<close>

text \<open>Two parameter names are the same parameter exactly when they agree after every dash has
  been turned into an underscore, whatever follows them in memory.\<close>
theorem parameq_up_to_dashes:
  assumes "cstring a" "cstring b"
  shows "parameq (a @ NUL # r) (b @ NUL # q) = Some (map dash2underscore a = map dash2underscore b)"
  by (rule parameq_str [OF assms])

theorem parameq_up_to_dashes_witness:
  "parameq (''init-call_debug'' @ NUL # ''x'') (''init_call-debug'' @ NUL # []) = Some True \<and>
   parameq (''quiet'' @ NUL # ''x'') (''quie'' @ NUL # []) = Some False"
  using parameq_up_to_dashes [of "''init-call_debug''" "''init_call-debug''" "''x''" "[]"]
    parameq_up_to_dashes [of "''quiet''" "''quie''" "''x''" "[]"]
  by (simp add: NUL_def dash2underscore_def)

text \<open>C25: \<open>parse_args\<close> does to a command line what its arguments mean: over a line of arguments
  separated by blanks, with white space in front, each argument in turn is given to the first table
  entry of that name, or to the handler of unknown ones, as the string that was written, errors are
  reported in the log, and the last error, if any, is returned.\<close>
theorem parse_args_means:
  assumes "ctype_macros isspace isxdigit isdigit isupper tolower" "table_ok T"
    "\<forall>a\<in>set as. arg_ok isspace a \<and> length (arg_text a) < 2 ^ 32 \<and> a \<noteq> Flag ''--''"
    "\<forall>c\<in>set ws. isspace c"
  shows "map_option (\<lambda>(e, s). (e, snd s))
      (parse_args isspace M doing (ot_params T) (ot_min T) (ot_max T) (handlers T) 0
        (ws @ joined CHR '' '' (map arg_text as) @ NUL # r, k)) =
    meaning_of_args M doing T PNull (map (\<lambda>a. (arg_name a, arg_value a)) as) k"
  by (rule ctype_macros.parse_args_line [OF assms])

definition demo_table :: "unit option_table" where
  "demo_table =
     (let f = (\<lambda>v k. (0, printk (''panic='' @ the v) k)) in
      \<lparr>ot_params = [\<lparr>kp_name = ''panic_on'', kp_mod = None, kp_level = 0, kp_noarg = False,
          kp_hwparam = False, kp_unsafe = False, kp_set = by_value f\<rparr>],
       ot_set = (\<lambda>p. f), ot_unknown = None, ot_min = 0, ot_max = 0\<rparr>)"

lemma demo_table_ok [simp]:
  "table_ok demo_table" "ot_min demo_table = 0" "ot_max demo_table = 0" "handlers demo_table = None"
  by (simp_all add: table_ok_def demo_table_def handlers_def Let_def NUL_def)

lemma demo_line_ok:
  "\<forall>a\<in>set [Plain ''panic-on'' ''5'', Flag ''ro'']. arg_ok (ctest CS) a \<and> length (arg_text a) < 2 ^ 32 \<and> a \<noteq> Flag ''--''"
  "\<forall>c\<in>set ''  ''. ctest CS c"
  by (simp_all add: ctest_def ctype_tab_def quiet_def NUL_def)

lemma demo_meaning:
  "map_option (\<lambda>(e, k). (e, klog k))
     (meaning_of_args demo_machine ''Booting'' demo_table PNull [(''panic-on'', Some ''5''), (''ro'', None)] demo_kernel) =
   Some (PErr (- 2), [''panic=5'', ''Booting: Unknown parameter `ro'' @ [CHR 0x27]])"
  by (simp add: meaning_of_arg_def meaning_of_param_def demo_table_def demo_kernel_def dash2underscore_def
      param_check_unsafe_def irq_warning_def complain_def Let_def)

theorem parse_args_means_witness:
  "map_option (\<lambda>(e, s). (e, klog (snd s)))
     (parse_args (ctest CS) demo_machine ''Booting'' (ot_params demo_table) 0 0 None 0
       (''  '' @ joined CHR '' '' (map arg_text [Plain ''panic-on'' ''5'', Flag ''ro'']) @ NUL # [], demo_kernel)) =
   Some (PErr (- 2), [''panic=5'', ''Booting: Unknown parameter `ro'' @ [CHR 0x27]])"
proof -
  note parse_args_means [OF ctab.ctype_macros_axioms demo_table_ok(1) demo_line_ok, of demo_machine "''Booting''" "[]" demo_kernel]
  moreover have "map_option (\<lambda>(e, s). (e, klog (snd s))) X = map_option (\<lambda>(e, k). (e, klog k)) (map_option (\<lambda>(e, s). (e, snd s)) X)"
    for X :: "(parsed_to \<times> unit pstate) option"
    by (cases X) auto
  ultimately show ?thesis using demo_meaning by simp
qed

text \<open>C26: parsing a command line leaves no parameter mutex behind: when the operations of the table
  and the handler of unknown parameters release what they take, the mutexes held after
  \<open>parse_args\<close> returns are those held before, on the error paths too.\<close>
theorem parse_args_releases:
  assumes "\<forall>p\<in>set ps. \<forall>v s. keeps_held (kp_set p v s) s" "\<forall>h n v s. u = Some h \<longrightarrow> keeps_held (h n v s) s"
    "parse_args sp M doing ps lo hi u args s = Some (e, s')"
  shows "held (snd s') = held (snd s)"
  using assms(3) parse_args_loop_held [OF assms(1,2)] by (auto simp: parse_args_def split: bind_splits)

theorem parse_args_releases_witness:
  "map_option (\<lambda>(e, s). held (snd s))
     (parse_args (ctest CS) demo_machine ''Booting'' (ot_params demo_table) 0 0 None 0
       (''  panic-on=5 ro'' @ [NUL], demo_kernel)) = Some []"
proof -
  let ?s = "(''  panic-on=5 ro'' @ [NUL], demo_kernel)"
  let ?run = "parse_args (ctest CS) demo_machine ''Booting'' (ot_params demo_table) 0 0 None 0 ?s"
  have "map_option (\<lambda>(e, s). (e, snd s)) ?run =
      meaning_of_args demo_machine ''Booting'' demo_table PNull [(''panic-on'', Some ''5''), (''ro'', None)] demo_kernel"
    using ctab.parse_args_line [OF demo_table_ok(1) demo_line_ok, of demo_machine "''Booting''" "[]" demo_kernel] by simp
  then obtain e s' where run: "?run = Some (e, s')" using demo_meaning by (cases ?run) auto
  have "\<forall>p\<in>set (ot_params demo_table). \<forall>v s. keeps_held (kp_set p v s) s"
    by (auto simp: demo_table_def keeps_held_def by_value_def Let_def)
  then have "held (snd s') = held (snd ?s)" using run by (intro parse_args_releases) auto
  then show ?thesis unfolding run by (simp add: demo_kernel_def)
qed

end
