(* ===== verification/InitCalls.thy ===== *)
theory InitCalls
  imports Params
begin

text \<open>
  Running the initcalls, \<^verbatim>\<open>init/main.c\<close>: the blacklist, the trace callbacks with the statistics this
  repository adds to them, \<open>do_one_initcall\<close> and the levels; and the symbol names of
  \<^verbatim>\<open>kernel/kallsyms.c\<close>.  An initcall is its address and a function of the kernel state.  The
  callbacks are called directly, as in a kernel without tracepoints.  64-bit counters are natural
  numbers reduced modulo \<open>2 ^ 64\<close>; the architecture has no \<open>arch_idle_time\<close>.
\<close>

section \<open>Names of functions\<close>

definition hexd :: "nat \<Rightarrow> char" where
  "hexd d = (if d < 10 then char_of (d + 48) else char_of (d + 87))"

fun hexs :: "nat \<Rightarrow> string" where
  "hexs n = (if n < 16 then [hexd n] else hexs (n div 16) @ [hexd (n mod 16)])"

declare hexs.simps [simp del]

definition ints :: "int \<Rightarrow> string" where
  "ints i = (if i < 0 then CHR ''-'' # decs (nat (- i)) else decs (nat i))"

definition wrap :: "nat \<Rightarrow> int \<Rightarrow> nat" where
  "wrap b x = nat (x mod 2 ^ b)"

definition sprint_symbol_at :: "'w machine \<Rightarrow> nat \<Rightarrow> int \<Rightarrow> bool \<Rightarrow> string" where
  "sprint_symbol_at M address symbol_offset add_offset =
     (let address = wrap (long_bits M) (int address + symbol_offset) in
      case kallsyms_lookup M address of
        None \<Rightarrow> ''0x'' @ hexs (wrap (long_bits M) (int address - symbol_offset))
      | Some (name, sz, offset, modname) \<Rightarrow>
          name @
          (if add_offset then ''+0x'' @ hexs (wrap (long_bits M) (int offset - symbol_offset)) @ ''/0x'' @ hexs sz
           else []) @
          (case modname of None \<Rightarrow> [] | Some m \<Rightarrow> '' ['' @ m @ '']''))"

definition sprint_symbol :: "'w machine \<Rightarrow> nat \<Rightarrow> string" where
  "sprint_symbol M address = sprint_symbol_at M address 0 True"

definition sprint_symbol_no_offset :: "'w machine \<Rightarrow> nat \<Rightarrow> string" where
  "sprint_symbol_no_offset M address = sprint_symbol_at M address 0 False"

definition sprint_backtrace :: "'w machine \<Rightarrow> nat \<Rightarrow> string" where
  "sprint_backtrace M address = sprint_symbol_at M address (- 1) True"

section \<open>The blacklist\<close>

lemma strsep_advances:
  assumes "strsep buf (Some i) ct = Some (buf', tok, s')" "s' = Some j"
  shows "i < j" "j \<le> length buf'" "length buf' = length buf"
  using assms by (auto simp: strsep_def wr_def split: bind_splits option.splits if_splits)

type_synonym 'w outcome = "(string + 'w) option"

definition alloc_panic :: "nat \<Rightarrow> string" where
  "alloc_panic n = ''initcall_blacklist: Failed to allocate '' @ decs n @ '' bytes''"

function initcall_blacklist_loop :: "'w machine \<Rightarrow> cbuf \<Rightarrow> nat option \<Rightarrow> 'w kernel \<Rightarrow> 'w kernel outcome" where
  "initcall_blacklist_loop M buf str k =
     (case strsep buf str [CHR '','', NUL] of None \<Rightarrow> None
      | Some (buf', None, str') \<Rightarrow> Some (Inr k)
      | Some (buf', Some str_entry, str') \<Rightarrow>
          (case memblock_alloc M (3 * (long_bits M div 8)) (world k) of (ok, w) \<Rightarrow>
             if \<not> ok then Some (Inl (alloc_panic (3 * (long_bits M div 8))))
             else (case strlen (drop str_entry buf') of None \<Rightarrow> None
               | Some n \<Rightarrow>
                   (case memblock_alloc M (n + 1) w of (ok, w) \<Rightarrow>
                      if \<not> ok then Some (Inl (alloc_panic (n + 1)))
                      else initcall_blacklist_loop M buf' str'
                        (k\<lparr>world := w,
                           blacklisted_initcalls := take n (drop str_entry buf') # blacklisted_initcalls k\<rparr>)))))"
  by pat_completeness auto
termination
proof (relation "measure (\<lambda>(M, buf, str, k). case str of None \<Rightarrow> 0 | Some i \<Rightarrow> Suc (Suc (length buf) - i))", goal_cases)
  case 1
  then show ?case by simp
next
  case (2 M buf str k r buf' p tok str')
  then have s: "strsep buf str [CHR '','', NUL] = Some (buf', tok, str')" "tok \<noteq> None" by auto
  then obtain i where i: "str = Some i" by (cases str) (auto simp: strsep_def)
  then show ?case
    using s strsep_advances [of buf i "[CHR '','', NUL]" buf' tok str'] by (cases str') auto
qed

declare initcall_blacklist_loop.simps [simp del]

definition initcall_blacklist :: "'w machine \<Rightarrow> cbuf \<Rightarrow> 'w kernel \<Rightarrow> 'w kernel outcome" where
  "initcall_blacklist M str k = initcall_blacklist_loop M str (Some 0) k"

fun listed :: "cbuf \<Rightarrow> string list \<Rightarrow> bool option" where
  "listed fn_name [] = Some False"
| "listed fn_name (entry # es) = do {
     r \<leftarrow> kstrcmp fn_name (entry @ [NUL]);
     if r = 0 then Some True else listed fn_name es
   }"

definition initcall_blacklisted :: "'w machine \<Rightarrow> nat \<Rightarrow> 'w kernel \<Rightarrow> bool option" where
  "initcall_blacklisted M fn k =
     (if blacklisted_initcalls k = [] then Some False
      else do {
        (fn_name, e) \<leftarrow> strreplace (sprint_symbol_no_offset M fn @ [NUL]) CHR '' '' NUL;
        listed fn_name (blacklisted_initcalls k)
      })"

section \<open>The trace callbacks\<close>

definition get_idle_time :: "'w machine \<Rightarrow> 'w \<Rightarrow> nat \<Rightarrow> nat" where
  "get_idle_time M w cpu =
     (let idle_usecs = (if cpu_online M w cpu then get_cpu_idle_time_us M w cpu else 2 ^ 64 - 1) in
      if idle_usecs = 2 ^ 64 - 1 then ct_idle (kcpustat_cpu M w cpu) else idle_usecs * 1000 mod 2 ^ 64)"

definition get_iowait_time :: "'w machine \<Rightarrow> 'w \<Rightarrow> nat \<Rightarrow> nat" where
  "get_iowait_time M w cpu =
     (let iowait_usecs = (if cpu_online M w cpu then get_cpu_iowait_time_us M w cpu else 2 ^ 64 - 1) in
      if iowait_usecs = 2 ^ 64 - 1 then ct_iowait (kcpustat_cpu M w cpu) else iowait_usecs * 1000 mod 2 ^ 64)"

definition u64_sum :: "'a list \<Rightarrow> ('a \<Rightarrow> nat) \<Rightarrow> nat" where
  "u64_sum xs f = foldl (\<lambda>a x. (a + f x) mod 2 ^ 64) 0 xs"

definition cpu_usage :: "'w machine \<Rightarrow> 'w \<Rightarrow> nat list" where
  "cpu_usage M w =
     map (u64_sum (possible_cpus M))
       [\<lambda>i. ct_user (kcpustat_cpu M w i), \<lambda>i. ct_nice (kcpustat_cpu M w i),
        \<lambda>i. ct_system (kcpustat_cpu M w i), get_idle_time M w, get_iowait_time M w,
        \<lambda>i. ct_irq (kcpustat_cpu M w i), \<lambda>i. ct_softirq (kcpustat_cpu M w i)]"

definition cpu_text :: "nat list \<Rightarrow> string" where
  "cpu_text t =
     ''[OSLAB] user : '' @ decs (t ! 0) @ '', nice : '' @ decs (t ! 1) @
     '', system : '' @ ints (s_of 64 (t ! 2)) @ '', idle : '' @ decs (t ! 3) @
     '', iowait : '' @ decs (t ! 4) @ '', irq : '' @ decs (t ! 5) @ '', softirq : '' @ decs (t ! 6)"

definition get_cpu_usage :: "'w machine \<Rightarrow> 'w kernel \<Rightarrow> 'w kernel" where
  "get_cpu_usage M k = printk (cpu_text (map (nsec_to_clock_t M) (cpu_usage M (world k)))) k"

definition mem_text :: "nat \<Rightarrow> nat \<Rightarrow> nat \<Rightarrow> string" where
  "mem_text b totalram freeram =
     ''[OSLAB] MemTotal : '' @ ints (s_of b (totalram * 4)) @ '', MemFree : '' @ ints (s_of b (freeram * 4))"

definition get_mem_usage :: "'w machine \<Rightarrow> 'w kernel \<Rightarrow> 'w kernel" where
  "get_mem_usage M k =
     (let (totalram, freeram) = si_meminfo M (world k) in printk (mem_text (long_bits M) totalram freeram) k)"

record 'w initcall =
  ic_addr :: nat
  ic_fn :: "'w kernel \<Rightarrow> int \<times> 'w kernel"

definition calling_text :: "'w machine \<Rightarrow> nat \<Rightarrow> nat \<Rightarrow> string" where
  "calling_text M fn pid = ''calling  '' @ sprint_symbol M fn @ '' @ '' @ decs pid"

definition returned_text :: "'w machine \<Rightarrow> nat \<Rightarrow> int \<Rightarrow> nat \<Rightarrow> string" where
  "returned_text M fn ret duration =
     ''initcall '' @ sprint_symbol M fn @ '' returned '' @ ints ret @ '' after '' @ decs duration @ '' usecs''"

definition trace_initcall_start_cb :: "'w machine \<Rightarrow> nat \<Rightarrow> 'w kernel \<Rightarrow> 'w kernel" where
  "trace_initcall_start_cb M fn k =
     (let k = printk (calling_text M fn (task_pid_nr M (world k))) k;
          k = get_cpu_usage M k;
          k = get_mem_usage M k;
          (t, w) = ktime_get M (world k) in
      k\<lparr>world := w, initcall_calltime := t\<rparr>)"

definition trace_initcall_finish_cb :: "'w machine \<Rightarrow> nat \<Rightarrow> int \<Rightarrow> 'w kernel \<Rightarrow> 'w kernel" where
  "trace_initcall_finish_cb M fn ret k =
     (let (rettime, w) = ktime_get M (world k);
          duration = wrap 64 (rettime - initcall_calltime k) div 2 ^ 10 in
      printk (returned_text M fn ret duration) (k\<lparr>world := w\<rparr>))"

definition do_trace_initcall_start :: "'w machine \<Rightarrow> nat \<Rightarrow> 'w kernel \<Rightarrow> 'w kernel" where
  "do_trace_initcall_start M fn k = (if \<not> initcall_debug k then k else trace_initcall_start_cb M fn k)"

definition do_trace_initcall_finish :: "'w machine \<Rightarrow> nat \<Rightarrow> int \<Rightarrow> 'w kernel \<Rightarrow> 'w kernel" where
  "do_trace_initcall_finish M fn ret k =
     (if \<not> initcall_debug k then k else trace_initcall_finish_cb M fn ret k)"

section \<open>Running initcalls\<close>

definition do_one_initcall :: "'w machine \<Rightarrow> 'w initcall \<Rightarrow> 'w kernel \<Rightarrow> (int \<times> 'w kernel) option" where
  "do_one_initcall M fn k = do {
     let count = preempt_count k;
     b \<leftarrow> initcall_blacklisted M (ic_addr fn) k;
     if b then Some (- errno_nr EPERM, k)
     else
       let k = do_trace_initcall_start M (ic_addr fn) k;
           (ret, k) = ic_fn fn k;
           k = do_trace_initcall_finish M (ic_addr fn) ret k;
           imbalance = (preempt_count k \<noteq> count);
           k = (if imbalance then k\<lparr>preempt_count := count\<rparr> else k);
           disabled = irqs_disabled k;
           k = (if disabled then k\<lparr>irqs_disabled := False\<rparr> else k);
           msgbuf = (if imbalance then ''preemption imbalance '' else []) @
                    (if disabled then ''disabled interrupts '' else []);
           k = (if msgbuf \<noteq> [] then
                  printk (''initcall '' @ sprint_symbol M (ic_addr fn) @ '' returned with '' @ msgbuf) k
                else k) in
       Some (ret, k)
   }"

fun run_initcalls :: "'w machine \<Rightarrow> 'w initcall list \<Rightarrow> 'w kernel \<Rightarrow> 'w kernel option" where
  "run_initcalls M [] k = Some k"
| "run_initcalls M (fn # fns) k = do {
     (ret, k) \<leftarrow> do_one_initcall M fn k;
     run_initcalls M fns k
   }"

definition initcall_level_names :: "string list" where
  "initcall_level_names =
     [''pure'', ''core'', ''postcore'', ''arch'', ''subsys'', ''fs'', ''device'', ''late'']"

definition repair_env_string :: "'w handler" where
  "repair_env_string param val s =
     (case val of None \<Rightarrow> Some (0, s)
      | Some v \<Rightarrow> do {
          n \<leftarrow> strlen (drop param (fst s));
          if v = param + n + 1 then do {
            buf \<leftarrow> wr (fst s) (v - 1) CHR ''='';
            Some (0, (buf, snd s))
          }
          else if v = param + n + 2 then do {
            buf \<leftarrow> wr (fst s) (v - 2) CHR ''='';
            m \<leftarrow> strlen (drop v buf);
            buf \<leftarrow> memmove buf (v - 1) v (m + 1);
            Some (0, (buf, snd s))
          }
          else None
        })"

definition do_initcall_level :: "(char \<Rightarrow> bool) \<Rightarrow> 'w machine \<Rightarrow> 'w kernel_param list \<Rightarrow> 'w initcall list list
    \<Rightarrow> nat \<Rightarrow> 'w kernel \<Rightarrow> 'w kernel option" where
  "do_initcall_level isspace M params levels level k = do {
     buf \<leftarrow> strcpy (initcall_command_line k) (saved_command_line k);
     (r, (buf, k)) \<leftarrow> parse_args isspace M (initcall_level_names ! level) params (int level) (int level)
       (Some repair_env_string) 0 (buf, k);
     run_initcalls M (levels ! level) (k\<lparr>initcall_command_line := buf\<rparr>)
   }"

fun do_levels :: "(char \<Rightarrow> bool) \<Rightarrow> 'w machine \<Rightarrow> 'w kernel_param list \<Rightarrow> 'w initcall list list
    \<Rightarrow> nat list \<Rightarrow> 'w kernel \<Rightarrow> 'w kernel option" where
  "do_levels isspace M params levels [] k = Some k"
| "do_levels isspace M params levels (l # ls) k = do {
     k \<leftarrow> do_initcall_level isspace M params levels l k;
     do_levels isspace M params levels ls k
   }"

definition do_initcalls :: "(char \<Rightarrow> bool) \<Rightarrow> 'w machine \<Rightarrow> 'w kernel_param list \<Rightarrow> 'w initcall list list
    \<Rightarrow> 'w kernel \<Rightarrow> 'w kernel option" where
  "do_initcalls isspace M params levels k = do_levels isspace M params levels [0..<8] k"

definition do_pre_smp_initcalls :: "'w machine \<Rightarrow> 'w initcall list \<Rightarrow> 'w kernel \<Rightarrow> 'w kernel option" where
  "do_pre_smp_initcalls M early k = run_initcalls M early k"

section \<open>The blacklist\<close>

lemma split_on_cut: "c \<in> set s \<Longrightarrow> \<exists>u v. s = u @ c # v \<and> c \<notin> set u"
  by (meson split_list_first)

lemma blacklist_loop:
  assumes "\<forall>n w. fst (memblock_alloc M n w)" "cstring s"
  shows "\<exists>w. initcall_blacklist_loop M (u @ s @ NUL # r) (Some (length u)) k =
    Some (Inr (k\<lparr>world := w, blacklisted_initcalls := rev (split_on CHR '','' s) @ blacklisted_initcalls k\<rparr>))"
  using assms(2)
proof (induction "length s" arbitrary: s u k rule: less_induct)
  case less
  let ?m = "3 * (long_bits M div 8)"
  obtain w1 where w1: "memblock_alloc M ?m (world k) = (True, w1)"
    using assms(1) by (metis prod.collapse)
  have comma: "CHR '','' \<noteq> NUL" by (simp add: NUL_def)
  show ?case
  proof (cases "CHR '','' \<in> set s")
    case False
    obtain w2 where w2: "memblock_alloc M (length s + 1) w1 = (True, w2)"
      using assms(1) by (metis prod.collapse)
    have "initcall_blacklist_loop M (u @ s @ NUL # r) (Some (length u)) k =
        initcall_blacklist_loop M (u @ s @ NUL # r) None (k\<lparr>world := w2, blacklisted_initcalls := s # blacklisted_initcalls k\<rparr>)"
      using less.prems w1 w2 by (subst initcall_blacklist_loop.simps) (simp add: strsep_last [OF less.prems False comma])
    also have "\<dots> = Some (Inr (k\<lparr>world := w2, blacklisted_initcalls := s # blacklisted_initcalls k\<rparr>))"
      by (subst initcall_blacklist_loop.simps) (simp add: strsep_def)
    finally show ?thesis using False by (auto simp: split_on_notin)
  next
    case True
    then obtain a b where s: "s = a @ CHR '','' # b" "CHR '','' \<notin> set a" using split_on_cut by metis
    have cs: "cstring a" "cstring b" using less.prems s by auto
    obtain w2 where w2: "memblock_alloc M (length a + 1) w1 = (True, w2)"
      using assms(1) by (metis prod.collapse)
    let ?k = "k\<lparr>world := w2, blacklisted_initcalls := a # blacklisted_initcalls k\<rparr>"
    have "initcall_blacklist_loop M (u @ s @ NUL # r) (Some (length u)) k =
        initcall_blacklist_loop M (u @ a @ NUL # b @ NUL # r) (Some (length u + length a + 1)) ?k"
      using w1 w2 cs by (subst initcall_blacklist_loop.simps) (simp add: s(1) strsep_cut [OF cs(1) s(2) comma cs(2)])
    moreover obtain w where "initcall_blacklist_loop M ((u @ a @ [NUL]) @ b @ NUL # r) (Some (length (u @ a @ [NUL]))) ?k =
        Some (Inr (?k\<lparr>world := w, blacklisted_initcalls := rev (split_on CHR '','' b) @ blacklisted_initcalls ?k\<rparr>))"
      using less.hyps [of b "u @ a @ [NUL]" ?k] cs s by auto
    ultimately show ?thesis using s by (auto simp: split_on_append split_on_notin)
  qed
qed

lemma listed_iff:
  "cstring n \<Longrightarrow> \<forall>e\<in>set es. cstring e \<Longrightarrow> listed (n @ NUL # r) es = Some (n \<in> set es)"
proof (induction es)
  case (Cons e es)
  then show ?case using kstrcmp_str [of n e r "[]"] by (auto simp: sgn_eq_0_iff)
qed simp

lemma blank_to_NUL:
  "\<exists>q. map (\<lambda>c. if c = CHR '' '' then NUL else c) s @ [NUL] = takeWhile (\<lambda>c. c \<noteq> CHR '' '') s @ NUL # q"
  by (induction s) auto

lemma initcall_blacklisted_iff:
  assumes "cstring (sprint_symbol_no_offset M fn)" "\<forall>e\<in>set (blacklisted_initcalls k). cstring e"
  shows "initcall_blacklisted M fn k =
    Some (takeWhile (\<lambda>c. c \<noteq> CHR '' '') (sprint_symbol_no_offset M fn) \<in> set (blacklisted_initcalls k))"
proof (cases "blacklisted_initcalls k = []")
  case False
  let ?n = "sprint_symbol_no_offset M fn"
  obtain q where q: "map (\<lambda>c. if c = CHR '' '' then NUL else c) ?n @ [NUL] = takeWhile (\<lambda>c. c \<noteq> CHR '' '') ?n @ NUL # q"
    using blank_to_NUL by blast
  have c: "cstring (takeWhile (\<lambda>c. c \<noteq> CHR '' '') ?n)"
    using assms(1) by (auto simp: cstring_def dest: set_takeWhileD)
  show ?thesis
    using strreplace_str [OF assms(1), of "[]" "CHR '' ''" NUL] listed_iff [OF c assms(2), of q] q False
    by (simp add: initcall_blacklisted_def)
qed (simp add: initcall_blacklisted_def)

section \<open>What a run prints\<close>

text \<open>
  The events of a run of initcalls: for every initcall that is not blacklisted, who runs it, the
  statistics when it starts, what it returns and how long it took.  An initcall is quiet in a state
  when it prints nothing, leaves the tracing switch and the blacklist alone, and returns with the
  preemption count it was called with and with interrupts enabled.
\<close>

record event =
  ev_addr :: nat
  ev_pid :: nat
  ev_cpu :: "nat list"
  ev_mem :: "nat \<times> nat"
  ev_ret :: int
  ev_usecs :: nat

definition initcall_event :: "'w machine \<Rightarrow> 'w initcall \<Rightarrow> 'w kernel \<Rightarrow> event" where
  "initcall_event M fn k =
     (let (ret, k2) = ic_fn fn (do_trace_initcall_start M (ic_addr fn) k) in
      \<lparr>ev_addr = ic_addr fn, ev_pid = task_pid_nr M (world k),
       ev_cpu = map (nsec_to_clock_t M) (cpu_usage M (world k)), ev_mem = si_meminfo M (world k),
       ev_ret = ret,
       ev_usecs = wrap 64 (fst (ktime_get M (world k2)) - initcall_calltime k2) div 2 ^ 10\<rparr>)"

definition event_lines :: "'w machine \<Rightarrow> event \<Rightarrow> string list" where
  "event_lines M e =
     [calling_text M (ev_addr e) (ev_pid e), cpu_text (ev_cpu e),
      mem_text (long_bits M) (fst (ev_mem e)) (snd (ev_mem e)),
      returned_text M (ev_addr e) (ev_ret e) (ev_usecs e)]"

definition is_listed :: "'w machine \<Rightarrow> 'w kernel \<Rightarrow> nat \<Rightarrow> bool" where
  "is_listed M k fn \<longleftrightarrow>
     takeWhile (\<lambda>c. c \<noteq> CHR '' '') (sprint_symbol_no_offset M fn) \<in> set (blacklisted_initcalls k)"

fun boot_events :: "'w machine \<Rightarrow> 'w initcall list \<Rightarrow> 'w kernel \<Rightarrow> event list" where
  "boot_events M [] k = []"
| "boot_events M (fn # fns) k =
     (if is_listed M k (ic_addr fn) then boot_events M fns k
      else initcall_event M fn k # boot_events M fns (snd (the (do_one_initcall M fn k))))"

definition quiet_call :: "'w initcall \<Rightarrow> bool" where
  "quiet_call fn \<longleftrightarrow>
     (\<forall>k. let k' = snd (ic_fn fn k) in
        klog k' = klog k \<and> initcall_debug k' = initcall_debug k \<and>
        blacklisted_initcalls k' = blacklisted_initcalls k \<and>
        preempt_count k' = preempt_count k \<and> irqs_disabled k' = irqs_disabled k)"

definition names_ok :: "'w machine \<Rightarrow> 'w kernel \<Rightarrow> 'w initcall list \<Rightarrow> bool" where
  "names_ok M k fns \<longleftrightarrow>
     (\<forall>fn\<in>set fns. cstring (sprint_symbol_no_offset M (ic_addr fn))) \<and>
     (\<forall>e\<in>set (blacklisted_initcalls k). cstring e)"

lemma trace_start_simps [simp]:
  "klog (do_trace_initcall_start M fn k) = klog k @ (if initcall_debug k then
     [calling_text M fn (task_pid_nr M (world k)), cpu_text (map (nsec_to_clock_t M) (cpu_usage M (world k))),
      mem_text (long_bits M) (fst (si_meminfo M (world k))) (snd (si_meminfo M (world k)))] else [])"
  "initcall_debug (do_trace_initcall_start M fn k) = initcall_debug k"
  "blacklisted_initcalls (do_trace_initcall_start M fn k) = blacklisted_initcalls k"
  "preempt_count (do_trace_initcall_start M fn k) = preempt_count k"
  "irqs_disabled (do_trace_initcall_start M fn k) = irqs_disabled k"
  by (simp_all add: do_trace_initcall_start_def trace_initcall_start_cb_def get_cpu_usage_def get_mem_usage_def
      Let_def case_prod_beta)

lemma trace_finish_simps [simp]:
  "klog (do_trace_initcall_finish M fn ret k) = klog k @ (if initcall_debug k then
     [returned_text M fn ret (wrap 64 (fst (ktime_get M (world k)) - initcall_calltime k) div 2 ^ 10)] else [])"
  "initcall_debug (do_trace_initcall_finish M fn ret k) = initcall_debug k"
  "blacklisted_initcalls (do_trace_initcall_finish M fn ret k) = blacklisted_initcalls k"
  "preempt_count (do_trace_initcall_finish M fn ret k) = preempt_count k"
  "irqs_disabled (do_trace_initcall_finish M fn ret k) = irqs_disabled k"
  by (simp_all add: do_trace_initcall_finish_def trace_initcall_finish_cb_def Let_def case_prod_beta)

lemma do_one_initcall_listed:
  assumes "names_ok M k [fn]" "is_listed M k (ic_addr fn)"
  shows "do_one_initcall M fn k = Some (- 1, k)"
  using assms initcall_blacklisted_iff [of M "ic_addr fn" k]
  by (simp add: do_one_initcall_def names_ok_def is_listed_def)

lemma do_one_initcall_runs:
  assumes "names_ok M k [fn]" "\<not> is_listed M k (ic_addr fn)"
  shows "\<exists>k'. do_one_initcall M fn k = Some (fst (ic_fn fn (do_trace_initcall_start M (ic_addr fn) k)), k') \<and>
    preempt_count k' = preempt_count k \<and> \<not> irqs_disabled k' \<and>
    blacklisted_initcalls k' = blacklisted_initcalls (snd (ic_fn fn (do_trace_initcall_start M (ic_addr fn) k)))"
  using assms initcall_blacklisted_iff [of M "ic_addr fn" k]
  by (simp add: do_one_initcall_def names_ok_def is_listed_def Let_def case_prod_beta)

lemma do_one_initcall_quiet:
  assumes "names_ok M k [fn]" "\<not> is_listed M k (ic_addr fn)" "quiet_call fn" "initcall_debug k" "\<not> irqs_disabled k"
  shows "\<exists>r k'. do_one_initcall M fn k = Some (r, k') \<and>
    klog k' = klog k @ event_lines M (initcall_event M fn k) \<and> initcall_debug k' \<and> \<not> irqs_disabled k' \<and>
    blacklisted_initcalls k' = blacklisted_initcalls k"
proof -
  let ?k1 = "do_trace_initcall_start M (ic_addr fn) k"
  obtain ret k2 where f: "ic_fn fn ?k1 = (ret, k2)" by (cases "ic_fn fn ?k1") auto
  have q: "klog k2 = klog ?k1" "initcall_debug k2 = initcall_debug k" "blacklisted_initcalls k2 = blacklisted_initcalls k"
    "preempt_count k2 = preempt_count k" "irqs_disabled k2 = irqs_disabled k"
    using assms(3) f by (auto simp: quiet_call_def Let_def dest!: spec [of _ ?k1])
  have b: "initcall_blacklisted M (ic_addr fn) k = Some False"
    using assms(1,2) initcall_blacklisted_iff [of M "ic_addr fn" k] by (simp add: names_ok_def is_listed_def)
  show ?thesis
    using assms(4,5) q b
    by (simp add: do_one_initcall_def f Let_def event_lines_def initcall_event_def)
qed

lemma run_initcalls_quiet:
  assumes "\<forall>fn\<in>set fns. quiet_call fn"
  shows "names_ok M k fns \<Longrightarrow> initcall_debug k \<Longrightarrow> \<not> irqs_disabled k \<Longrightarrow>
    \<exists>k'. run_initcalls M fns k = Some k' \<and>
      klog k' = klog k @ concat (map (event_lines M) (boot_events M fns k)) \<and> initcall_debug k' \<and>
      \<not> irqs_disabled k' \<and> blacklisted_initcalls k' = blacklisted_initcalls k"
  using assms
proof (induction fns arbitrary: k)
  case (Cons fn fns)
  have n: "names_ok M k [fn]" "names_ok M k fns" using Cons.prems(1) by (auto simp: names_ok_def)
  show ?case
  proof (cases "is_listed M k (ic_addr fn)")
    case True
    then show ?thesis using Cons.IH [OF n(2)] Cons.prems do_one_initcall_listed [OF n(1)] by simp
  next
    case False
    obtain r k1 where k1: "do_one_initcall M fn k = Some (r, k1)"
      "klog k1 = klog k @ event_lines M (initcall_event M fn k)" "initcall_debug k1" "\<not> irqs_disabled k1"
      "blacklisted_initcalls k1 = blacklisted_initcalls k"
      using do_one_initcall_quiet [OF n(1) False] Cons.prems by auto
    have "names_ok M k1 fns" using n(2) k1(5) by (simp add: names_ok_def)
    then show ?thesis using Cons.IH [of k1] Cons.prems k1 False by auto
  qed
qed simp

lemma run_initcalls_restores:
  assumes "run_initcalls M fns k = Some k'"
  shows "preempt_count k' = preempt_count k" "\<not> irqs_disabled k \<Longrightarrow> \<not> irqs_disabled k'"
proof -
  have one: "preempt_count k2 = preempt_count k1 \<and> (\<not> irqs_disabled k1 \<longrightarrow> \<not> irqs_disabled k2)"
    if "do_one_initcall M fn k1 = Some (r, k2)" for fn k1 r k2
    using that by (auto simp: do_one_initcall_def Let_def case_prod_beta split: bind_splits if_splits)
  have "preempt_count k' = preempt_count k \<and> (\<not> irqs_disabled k \<longrightarrow> \<not> irqs_disabled k')"
    using assms by (induction fns arbitrary: k) (auto split: bind_splits dest!: one)
  then show "preempt_count k' = preempt_count k" "\<not> irqs_disabled k \<Longrightarrow> \<not> irqs_disabled k'" by auto
qed

lemma boot_events_addr:
  assumes "\<forall>fn\<in>set fns. quiet_call fn"
  shows "names_ok M k fns \<Longrightarrow> initcall_debug k \<Longrightarrow> \<not> irqs_disabled k \<Longrightarrow>
    map ev_addr (boot_events M fns k) = map ic_addr (filter (\<lambda>fn. \<not> is_listed M k (ic_addr fn)) fns)"
  using assms
proof (induction fns arbitrary: k)
  case (Cons fn fns)
  have n: "names_ok M k [fn]" "names_ok M k fns" using Cons.prems(1) by (auto simp: names_ok_def)
  show ?case
  proof (cases "is_listed M k (ic_addr fn)")
    case True
    then show ?thesis using Cons.IH [OF n(2)] Cons.prems by simp
  next
    case False
    obtain r k1 where k1: "do_one_initcall M fn k = Some (r, k1)" "initcall_debug k1" "\<not> irqs_disabled k1"
      "blacklisted_initcalls k1 = blacklisted_initcalls k"
      using do_one_initcall_quiet [OF n(1) False] Cons.prems by auto
    have "names_ok M k1 fns" using n(2) k1(4) by (simp add: names_ok_def)
    then have "map ev_addr (boot_events M fns k1) = map ic_addr (filter (\<lambda>fn. \<not> is_listed M k (ic_addr fn)) fns)"
      using Cons.IH [of k1] Cons.prems k1 by (simp add: is_listed_def)
    moreover have "ev_addr (initcall_event M fn k) = ic_addr fn"
      by (simp add: initcall_event_def case_prod_beta Let_def)
    ultimately show ?thesis using False k1(1) by simp
  qed
qed simp

section \<open>Properties\<close>

text \<open>C23: an initcall that is on the blacklist is not run.  After \<open>initcall_blacklist\<close> has read a
  comma-separated list, \<open>do_one_initcall\<close> of a function returns \<open>-EPERM\<close> and changes nothing when
  the name of its symbol, without the module, is one of the words of the list or was listed before,
  and otherwise runs the function and returns what it returns.\<close>
theorem blacklist_keeps_out:
  assumes "\<forall>n w. fst (memblock_alloc M n w)" "cstring s" "cstring (sprint_symbol_no_offset M (ic_addr fn))"
    "\<forall>e\<in>set (blacklisted_initcalls k). cstring e"
  shows "\<exists>k'. initcall_blacklist M (s @ NUL # r) k = Some (Inr k') \<and>
    (let name = takeWhile (\<lambda>c. c \<noteq> CHR '' '') (sprint_symbol_no_offset M (ic_addr fn)) in
     if name \<in> set (split_on CHR '','' s) \<union> set (blacklisted_initcalls k)
     then do_one_initcall M fn k' = Some (- 1, k')
     else \<exists>k''. do_one_initcall M fn k' =
       Some (fst (ic_fn fn (do_trace_initcall_start M (ic_addr fn) k')), k''))"
proof -
  obtain w where w: "initcall_blacklist M (s @ NUL # r) k = Some (Inr (k\<lparr>world := w,
      blacklisted_initcalls := rev (split_on CHR '','' s) @ blacklisted_initcalls k\<rparr>))"
    using blacklist_loop [OF assms(1,2), of "[]" r k] by (auto simp: initcall_blacklist_def)
  let ?k = "k\<lparr>world := w, blacklisted_initcalls := rev (split_on CHR '','' s) @ blacklisted_initcalls k\<rparr>"
  have "\<forall>e\<in>set (split_on CHR '','' s). cstring e"
    using assms(2) split_on_tokens [of "CHR '',''" s] by (auto simp: cstring_def)
  then have n: "names_ok M ?k [fn]" using assms(3,4) by (auto simp: names_ok_def)
  show ?thesis
    using w do_one_initcall_listed [OF n] do_one_initcall_runs [OF n] by (auto simp: is_listed_def Let_def)
qed

definition demo_call :: "unit initcall" where
  "demo_call = \<lparr>ic_addr = 0, ic_fn = (\<lambda>k. (0, k))\<rparr>"

lemma demo_symbol: "sprint_symbol_no_offset demo_machine 0 = ''demo_init''"
  by (simp add: sprint_symbol_no_offset_def sprint_symbol_at_def demo_machine_def wrap_def)

theorem blacklist_keeps_out_witness:
  "\<exists>k'. initcall_blacklist demo_machine (''foo_init,demo_init'' @ NUL # []) demo_kernel = Some (Inr k') \<and>
     do_one_initcall demo_machine demo_call k' = Some (- 1, k')"
proof -
  have a: "\<forall>n w. fst (memblock_alloc demo_machine n w)" by (simp add: demo_machine_def)
  show ?thesis
    using blacklist_keeps_out [OF a, of "''foo_init,demo_init''" demo_call demo_kernel "[]"]
    by (auto simp: demo_call_def demo_symbol demo_kernel_def NUL_def Let_def)
qed

text \<open>C24: initcalls cannot leave the processor in a bad state: whatever the functions do, after a
  run of initcalls that was started with interrupts enabled the preemption count is what it was and
  interrupts are enabled.\<close>
theorem initcalls_restore_cpu_state:
  assumes "run_initcalls M fns k = Some k'" "\<not> irqs_disabled k"
  shows "preempt_count k' = preempt_count k \<and> \<not> irqs_disabled k'"
  using run_initcalls_restores [OF assms(1)] assms(2) by simp

theorem initcalls_restore_cpu_state_witness:
  "\<exists>k'. run_initcalls demo_machine [\<lparr>ic_addr = 0, ic_fn = (\<lambda>k. (0, k\<lparr>preempt_count := 7, irqs_disabled := True\<rparr>))\<rparr>]
      demo_kernel = Some k' \<and> preempt_count k' = 1 \<and> \<not> irqs_disabled k'"
proof -
  let ?f = "\<lparr>ic_addr = 0, ic_fn = (\<lambda>k. (0, k\<lparr>preempt_count := 7, irqs_disabled := True\<rparr>))\<rparr> :: unit initcall"
  obtain k' where "run_initcalls demo_machine [?f] demo_kernel = Some k'"
    by (simp add: do_one_initcall_def initcall_blacklisted_def demo_kernel_def Let_def)
  then show ?thesis
    using initcalls_restore_cpu_state [of demo_machine "[?f]" demo_kernel k'] by (simp add: demo_kernel_def)
qed


definition demo_lines :: "string list" where
  "demo_lines =
     [''calling  demo_init+0x0/0x44 @ 1'',
      ''[OSLAB] user : 0, nice : 0, system : 0, idle : 0, iowait : 0, irq : 0, softirq : 0'',
      ''[OSLAB] MemTotal : 744152, MemFree : 726980'',
      ''initcall demo_init+0x0/0x44 returned 0 after 0 usecs'']"

lemma demo_symbol_offset: "sprint_symbol demo_machine 0 = ''demo_init+0x0/0x44''"
proof -
  have h: "hexs 0 = ''0''" "hexs 68 = ''44''" by code_simp+
  show ?thesis by (simp add: sprint_symbol_def sprint_symbol_at_def demo_machine_def wrap_def h)
qed

lemma demo_facts:
  "\<forall>fn\<in>set [demo_call]. quiet_call fn" "names_ok demo_machine demo_kernel [demo_call]"
  "initcall_debug demo_kernel" "\<not> irqs_disabled demo_kernel" "klog demo_kernel = []"
  by (simp_all add: demo_call_def quiet_call_def names_ok_def demo_symbol demo_kernel_def NUL_def)

lemma demo_events: "concat (map (event_lines demo_machine) (boot_events demo_machine [demo_call] demo_kernel)) = demo_lines"
proof -
  have d: "decs 0 = ''0''" "decs (Suc 0) = ''1''" "decs 744152 = ''744152''" "decs 726980 = ''726980''"
    by (simp_all add: decs_def rdec.simps dig_simps)
  have "event_lines demo_machine (initcall_event demo_machine demo_call demo_kernel) = demo_lines"
    by (simp add: event_lines_def initcall_event_def demo_call_def demo_symbol_offset calling_text_def returned_text_def)
      (simp add: demo_machine_def d cpu_text_def mem_text_def cpu_usage_def u64_sum_def get_idle_time_def
        get_iowait_time_def ints_def s_of_def demo_kernel_def do_trace_initcall_start_def
        trace_initcall_start_cb_def get_cpu_usage_def get_mem_usage_def wrap_def Let_def demo_lines_def)
  then show ?thesis by (simp add: is_listed_def demo_kernel_def)
qed


end
