(* ===== verification/BootLog.thy ===== *)
theory BootLog
  imports Dmesg InitCalls
begin

text \<open>
  The way of a boot from the kernel to the web page: the lines that \<open>do_one_initcall\<close> prints with
  \<open>initcall_debug\<close> (\<^verbatim>\<open>InitCalls\<close>), each with its time stamp, are what \<open>parse_dmesg\<close> (\<^verbatim>\<open>Dmesg\<close>) reads.
\<close>

section \<open>The four lines of an initcall\<close>

definition name_ok :: "string \<Rightarrow> bool" where
  "name_ok n \<longleftrightarrow> n \<noteq> [] \<and> list_all (\<lambda>c. \<not> dmesg_sep c) n \<and> \<not> js_has n ''MemTotal'' \<and> \<not> js_has n ''nice''"

definition hex_chars :: "char set" where
  "hex_chars = set ''0123456789abcdefx/''"

lemma hexd_chars: "d < 16 \<Longrightarrow> hexd d \<in> hex_chars"
proof -
  have "\<forall>d\<in>set [0..<16]. hexd d \<in> hex_chars" unfolding hex_chars_def by code_simp
  then show "d < 16 \<Longrightarrow> hexd d \<in> hex_chars" by simp
qed

lemma hexs_chars: "set (hexs n) \<subseteq> hex_chars"
proof (induction n rule: less_induct)
  case (less n)
  show ?case
  proof (cases "n < 16")
    case True
    then show ?thesis by (subst hexs.simps) (simp add: hexd_chars)
  next
    case False
    then show ?thesis using less [of "n div 16"] by (subst hexs.simps) (simp add: hexd_chars)
  qed
qed

lemma hexs_nonempty [simp]: "hexs n \<noteq> []"
  by (subst hexs.simps) simp

definition offset_text :: "nat \<Rightarrow> nat \<Rightarrow> string" where
  "offset_text off sz = ''0x'' @ hexs off @ ''/0x'' @ hexs sz"

lemma offset_text_chars: "set (offset_text off sz) \<subseteq> hex_chars"
  using hexs_chars [of off] hexs_chars [of sz] by (auto simp: offset_text_def hex_chars_def)

lemma offset_no_sep: "list_all (\<lambda>c. \<not> dmesg_sep c) (offset_text off sz)"
proof -
  have "\<forall>c\<in>hex_chars. \<not> dmesg_sep c" by (simp add: hex_chars_def dmesg_sep_def)
  then show ?thesis using offset_text_chars [of off sz] by (auto simp: list_all_iff)
qed

lemma offset_has:
  "\<not> js_has (offset_text off sz) ''nice''" "\<not> js_has (offset_text off sz) ''MemTotal''"
  "CHR '']'' \<notin> set (offset_text off sz)"
proof -
  have "CHR ''n'' \<notin> hex_chars" "CHR ''M'' \<notin> hex_chars" "CHR '']'' \<notin> hex_chars"
    by (simp_all add: hex_chars_def)
  then show "\<not> js_has (offset_text off sz) ''nice''" "\<not> js_has (offset_text off sz) ''MemTotal''"
    "CHR '']'' \<notin> set (offset_text off sz)"
    using offset_text_chars [of off sz] js_has_set [of "offset_text off sz" "''nice''"]
      js_has_set [of "offset_text off sz" "''MemTotal''"] by auto
qed

lemma offset_nonempty [simp]: "offset_text off sz \<noteq> []"
  by (simp add: offset_text_def)

lemma decs_has:
  "\<not> js_has (decs n) ''nice''" "\<not> js_has (decs n) ''MemTotal''" "CHR '']'' \<notin> set (decs n)"
proof -
  have "\<not> dec CHR ''n''" "\<not> dec CHR ''M''" "\<not> dec CHR '']''" by (simp_all add: dec_def)
  then show "\<not> js_has (decs n) ''nice''" "\<not> js_has (decs n) ''MemTotal''" "CHR '']'' \<notin> set (decs n)"
    using dec_decs [of n] js_has_set [of "decs n" "''nice''"] js_has_set [of "decs n" "''MemTotal''"]
    unfolding list_all_iff by auto
qed

lemma ints_facts:
  "list_all (\<lambda>c. \<not> dmesg_sep c) (ints i)" "ints i \<noteq> []" "\<not> js_has (ints i) ''nice''"
  "\<not> js_has (ints i) ''MemTotal''" "CHR '']'' \<notin> set (ints i)" "js_number (Some (ints i)) = round64 (of_int i)"
proof -
  have "\<not> dmesg_sep CHR ''-''" by (simp add: dmesg_sep_def)
  then show "list_all (\<lambda>c. \<not> dmesg_sep c) (ints i)" using decs_no_sep by (simp add: ints_def)
  show "ints i \<noteq> []" by (simp add: ints_def)
  show "\<not> js_has (ints i) ''nice''" "\<not> js_has (ints i) ''MemTotal''" "CHR '']'' \<notin> set (ints i)"
    using decs_has [of "nat i"] decs_has [of "nat (- i)"]
    by (auto simp: ints_def js_has_iff sublist_Cons_right)
  show "js_number (Some (ints i)) = round64 (of_int i)"
    by (simp add: ints_def js_number_decs js_number_minus)
qed

lemma fields_word: "w \<noteq> [] \<Longrightarrow> list_all (\<lambda>c. \<not> dmesg_sep c) w \<Longrightarrow> dmesg_sep c \<Longrightarrow>
    js_fields dmesg_sep (w @ c # s) = w # js_fields dmesg_sep s"
  by (rule js_fields_word)

lemma not_sep_letters:
  "list_all (\<lambda>c. \<not> dmesg_sep c) ''calling''" "list_all (\<lambda>c. \<not> dmesg_sep c) ''initcall''"
  "list_all (\<lambda>c. \<not> dmesg_sep c) ''returned''" "list_all (\<lambda>c. \<not> dmesg_sep c) ''after''"
  "list_all (\<lambda>c. \<not> dmesg_sep c) ''usecs''" "list_all (\<lambda>c. \<not> dmesg_sep c) ''@''"
  "list_all (\<lambda>c. \<not> dmesg_sep c) ''OSLAB''" "list_all (\<lambda>c. \<not> dmesg_sep c) ''user''"
  "list_all (\<lambda>c. \<not> dmesg_sep c) ''nice''" "list_all (\<lambda>c. \<not> dmesg_sep c) ''system''"
  "list_all (\<lambda>c. \<not> dmesg_sep c) ''idle''" "list_all (\<lambda>c. \<not> dmesg_sep c) ''iowait''"
  "list_all (\<lambda>c. \<not> dmesg_sep c) ''irq''" "list_all (\<lambda>c. \<not> dmesg_sep c) ''softirq''"
  "list_all (\<lambda>c. \<not> dmesg_sep c) ''MemTotal''" "list_all (\<lambda>c. \<not> dmesg_sep c) ''MemFree''"
  by (simp_all add: dmesg_sep_def)

lemma calling_fields:
  assumes "name_ok n"
  shows "js_fields dmesg_sep (''calling  '' @ n @ CHR ''+'' # offset_text off sz @ '' @ '' @ decs pid) =
    [''calling'', n, offset_text off sz, ''@'', decs pid]"
proof -
  have "js_fields dmesg_sep (''calling'' @ CHR '' '' # CHR '' '' # n @ CHR ''+'' # offset_text off sz @ CHR '' '' # ''@'' @ CHR '' '' # decs pid) =
      [''calling'', n, offset_text off sz, ''@'', decs pid]"
    using assms not_sep_letters(1,6) offset_no_sep [of off sz] decs_no_sep [of pid]
    by (simp only: fields_word js_fields_sep dmesg_sep_simps js_fields_last name_ok_def offset_nonempty decs_nonempty
        list.distinct not_False_eq_True)
  then show ?thesis by simp
qed

lemma cpu_fields:
  assumes "length t = 7" "t ! 2 < 2 ^ 63"
  shows "js_fields dmesg_sep (cpu_text t) =
    [''OSLAB'', ''user'', decs (t ! 0), ''nice'', decs (t ! 1), ''system'', decs (t ! 2), ''idle'', decs (t ! 3),
     ''iowait'', decs (t ! 4), ''irq'', decs (t ! 5), ''softirq'', decs (t ! 6)]"
proof -
  have s: "ints (s_of 64 (t ! 2)) = decs (t ! 2)" using assms(2) by (simp add: s_of_def ints_def)
  have "js_fields dmesg_sep (CHR ''['' # ''OSLAB'' @ CHR '']'' # CHR '' '' #
      ''user'' @ CHR '' '' # CHR '':'' # CHR '' '' # decs (t ! 0) @ CHR '','' # CHR '' '' #
      ''nice'' @ CHR '' '' # CHR '':'' # CHR '' '' # decs (t ! 1) @ CHR '','' # CHR '' '' #
      ''system'' @ CHR '' '' # CHR '':'' # CHR '' '' # decs (t ! 2) @ CHR '','' # CHR '' '' #
      ''idle'' @ CHR '' '' # CHR '':'' # CHR '' '' # decs (t ! 3) @ CHR '','' # CHR '' '' #
      ''iowait'' @ CHR '' '' # CHR '':'' # CHR '' '' # decs (t ! 4) @ CHR '','' # CHR '' '' #
      ''irq'' @ CHR '' '' # CHR '':'' # CHR '' '' # decs (t ! 5) @ CHR '','' # CHR '' '' #
      ''softirq'' @ CHR '' '' # CHR '':'' # CHR '' '' # decs (t ! 6)) =
    [''OSLAB'', ''user'', decs (t ! 0), ''nice'', decs (t ! 1), ''system'', decs (t ! 2), ''idle'', decs (t ! 3),
     ''iowait'', decs (t ! 4), ''irq'', decs (t ! 5), ''softirq'', decs (t ! 6)]"
    using not_sep_letters decs_no_sep
    by (simp only: fields_word js_fields_sep dmesg_sep_simps js_fields_last decs_nonempty list.distinct not_False_eq_True)
  then show ?thesis by (simp add: cpu_text_def s)
qed

lemma mem_fields:
  "js_fields dmesg_sep (mem_text b x y) =
    [''OSLAB'', ''MemTotal'', ints (s_of b (x * 4)), ''MemFree'', ints (s_of b (y * 4))]"
proof -
  have "js_fields dmesg_sep (CHR ''['' # ''OSLAB'' @ CHR '']'' # CHR '' '' #
      ''MemTotal'' @ CHR '' '' # CHR '':'' # CHR '' '' # ints (s_of b (x * 4)) @ CHR '','' # CHR '' '' #
      ''MemFree'' @ CHR '' '' # CHR '':'' # CHR '' '' # ints (s_of b (y * 4))) =
    [''OSLAB'', ''MemTotal'', ints (s_of b (x * 4)), ''MemFree'', ints (s_of b (y * 4))]"
    using not_sep_letters ints_facts
    by (simp only: fields_word js_fields_sep dmesg_sep_simps js_fields_last list.distinct not_False_eq_True)
  then show ?thesis by (simp add: mem_text_def)
qed

lemma returned_fields:
  assumes "name_ok n"
  shows "js_fields dmesg_sep (''initcall '' @ n @ CHR ''+'' # offset_text off sz @ '' returned '' @ ints r @ '' after '' @ decs d @ '' usecs'') =
    [''initcall'', n, offset_text off sz, ''returned'', ints r, ''after'', decs d, ''usecs'']"
proof -
  have "js_fields dmesg_sep (''initcall'' @ CHR '' '' # n @ CHR ''+'' # offset_text off sz @ CHR '' '' # ''returned'' @
      CHR '' '' # ints r @ CHR '' '' # ''after'' @ CHR '' '' # decs d @ CHR '' '' # ''usecs'') =
    [''initcall'', n, offset_text off sz, ''returned'', ints r, ''after'', decs d, ''usecs'']"
    using assms not_sep_letters ints_facts(1,2) offset_no_sep decs_no_sep
    by (simp only: fields_word js_fields_sep dmesg_sep_simps js_fields_last name_ok_def offset_nonempty decs_nonempty
        list.distinct not_False_eq_True)
  then show ?thesis by simp
qed

section \<open>What the server makes of them\<close>

lemma name_no_bracket: "name_ok n \<Longrightarrow> CHR '']'' \<notin> set n"
  by (auto simp: name_ok_def list_all_iff)

lemma line_calling:
  assumes "name_ok n" "u < 10 ^ 6"
  shows "dmesg_line st (stamp (p, s, u) @ ''calling  '' @ n @ CHR ''+'' # offset_text off sz @ '' @ '' @ decs pid) =
    st\<lparr>obj := (obj st)\<lparr>start_time := Some (time_of (p, s, u)), device_driver_name := Some n\<rparr>\<rparr>"
proof -
  let ?m = "''calling  '' @ n @ CHR ''+'' # offset_text off sz @ '' @ '' @ decs pid"
  let ?l = "stamp (p, s, u) @ ?m"
  have f: "js_fields dmesg_sep ?l = [decs s @ CHR ''.'' # padded 6 u, ''calling'', n, offset_text off sz, ''@'', decs pid]"
    unfolding js_fields_stamp calling_fields [OF assms(1)] ..
  have b: "CHR '']'' \<notin> set ?m" using name_no_bracket [OF assms(1)] offset_has(3) decs_has(3) by simp
  have c: "js_has ?l ''] calling''" by (simp only: stamp_bracket) simp
  have i: "\<not> js_has ?l ''] initcall''"
    using js_has_absent [OF b] by (simp only: stamp_bracket) simp
  have w: "\<not> js_has ?l ''MemTotal''" "\<not> js_has ?l ''nice''"
    using assms(1) offset_has decs_has unfolding stamp_words calling_fields [OF assms(1)]
    by (auto simp: name_ok_def js_has_def)
  show ?thesis
    using js_number_time [OF assms(2), of s p]
    by (simp only: dmesg_line_def c i w f Let_def) (simp add: js_get_def)
qed


lemma line_cpu:
  assumes "length t = 7" "t ! 2 < 2 ^ 63"
  shows "dmesg_line st (stamp (p, s, u) @ cpu_text t) =
    st\<lparr>cpu_infos := map (\<lambda>n. round64 (of_nat n)) t,
       obj := (obj st)\<lparr>cpu_util := Some (cpu_share (map (\<lambda>n. round64 (of_nat n)) t) (cpu_infos st))\<rparr>\<rparr>"
proof -
  let ?l = "stamp (p, s, u) @ cpu_text t"
  have f: "js_fields dmesg_sep ?l = (decs s @ CHR ''.'' # padded 6 u) # js_fields dmesg_sep (cpu_text t)"
    by (rule js_fields_stamp)
  have sys: "ints (s_of 64 (t ! 2)) = decs (t ! 2)" using assms(2) by (simp add: s_of_def ints_def)
  define rest where "rest = drop 7 (cpu_text t)"
  have ct: "cpu_text t = CHR ''['' # ''OSLAB'' @ CHR '']'' # rest" by (simp add: cpu_text_def rest_def)
  have "CHR '']'' \<notin> set rest" using decs_has(3) by (simp add: cpu_text_def rest_def sys)
  then have br: "js_has (cpu_text t) (CHR '']'' # w) \<longleftrightarrow> prefix w rest" for w
    using js_has_bracket [of "CHR '']''" "''[OSLAB''" rest w] js_has_absent [of "CHR '']''" rest w] by (simp add: ct)
  have r: "\<exists>v. rest = CHR '' '' # CHR ''u'' # v" by (simp add: rest_def cpu_text_def)
  have o: "js_has ?l ''OSLAB''" unfolding stamp_words cpu_fields [OF assms] by (simp add: js_has_def)
  have c: "\<not> js_has ?l ''] calling''" unfolding stamp_bracket br using r by (auto simp: ct)
  have mt: "\<not> js_has ?l ''MemTotal''"
    using decs_has(2) unfolding stamp_words cpu_fields [OF assms] by (auto simp: js_has_def)
  have nc: "js_has ?l ''nice''" unfolding stamp_words cpu_fields [OF assms] by (simp add: js_has_def)
  have t: "t = [t ! 0, t ! 1, t ! 2, t ! 3, t ! 4, t ! 5, t ! 6]"
    using assms(1) by (intro nth_equalityI) (auto simp: less_Suc_eq numeral_eq_Suc)
  have rc: "read_cpu (js_fields dmesg_sep ?l) = map (\<lambda>n. round64 (of_nat n)) t"
    unfolding f cpu_fields [OF assms] by (subst (8) t) (simp add: read_cpu_def js_get_def js_number_decs)
  show ?thesis
    by (simp only: dmesg_line_def o c mt nc rc Let_def) simp
qed


lemma line_mem:
  "dmesg_line st (stamp (p, s, u) @ mem_text b x y) =
    st\<lparr>obj := (obj st)\<lparr>mem_util := Some (fdiv (fsub (round64 (of_int (s_of b (x * 4)))) (round64 (of_int (s_of b (y * 4)))))
      (round64 (of_int (s_of b (x * 4)))))\<rparr>\<rparr>"
proof -
  let ?l = "stamp (p, s, u) @ mem_text b x y"
  have f: "js_fields dmesg_sep ?l = (decs s @ CHR ''.'' # padded 6 u) # js_fields dmesg_sep (mem_text b x y)"
    by (rule js_fields_stamp)
  define rest where "rest = drop 7 (mem_text b x y)"
  have ct: "mem_text b x y = CHR ''['' # ''OSLAB'' @ CHR '']'' # rest" by (simp add: mem_text_def rest_def)
  have "CHR '']'' \<notin> set rest" using ints_facts(5) by (simp add: mem_text_def rest_def)
  then have br: "js_has (mem_text b x y) (CHR '']'' # w) \<longleftrightarrow> prefix w rest" for w
    using js_has_bracket [of "CHR '']''" "''[OSLAB''" rest w] js_has_absent [of "CHR '']''" rest w] by (simp add: ct)
  have r: "\<exists>v. rest = CHR '' '' # CHR ''M'' # v" by (simp add: rest_def mem_text_def)
  have o: "js_has ?l ''OSLAB''" unfolding stamp_words mem_fields by (simp add: js_has_def)
  have c: "\<not> js_has ?l ''] calling''" unfolding stamp_bracket br using r by (auto simp: ct)
  have mt: "js_has ?l ''MemTotal''" unfolding stamp_words mem_fields by (simp add: js_has_def)
  have rc: "js_number (js_get (js_fields dmesg_sep ?l) 3) = round64 (of_int (s_of b (x * 4)))"
    "js_number (js_get (js_fields dmesg_sep ?l) 5) = round64 (of_int (s_of b (y * 4)))"
    unfolding f mem_fields by (simp_all add: js_get_def ints_facts(6))
  show ?thesis
    by (simp only: dmesg_line_def o c mt rc Let_def) simp
qed

lemma line_returned:
  assumes "name_ok n"
  shows "dmesg_line st (stamp (p, s, u) @ ''initcall '' @ n @ CHR ''+'' # offset_text off sz @
      '' returned '' @ ints r @ '' after '' @ decs d @ '' usecs'') =
    st\<lparr>info_array := info_array st @ [(obj st)\<lparr>init_time := Some (fdiv (round64 (of_nat d)) (Fin 1000000)),
         return_value := Some (round64 (of_int r))\<rparr>],
       obj := new_info\<rparr>"
proof -
  let ?m = "''initcall '' @ n @ CHR ''+'' # offset_text off sz @ '' returned '' @ ints r @ '' after '' @ decs d @ '' usecs''"
  let ?l = "stamp (p, s, u) @ ?m"
  have f: "js_fields dmesg_sep ?l = (decs s @ CHR ''.'' # padded 6 u) #
      [''initcall'', n, offset_text off sz, ''returned'', ints r, ''after'', decs d, ''usecs'']"
    unfolding js_fields_stamp returned_fields [OF assms] ..
  have b: "CHR '']'' \<notin> set ?m"
    using name_no_bracket [OF assms] offset_has(3) decs_has(3) ints_facts(5) by simp
  have c: "\<not> js_has ?l ''] calling''" using js_has_absent [OF b] by (simp only: stamp_bracket) simp
  have i: "js_has ?l ''] initcall''" by (simp only: stamp_bracket) simp
  have w: "\<not> js_has ?l ''MemTotal''" "\<not> js_has ?l ''nice''"
    using assms offset_has decs_has ints_facts(3,4) unfolding stamp_words returned_fields [OF assms]
    by (auto simp: name_ok_def js_has_def)
  have rc: "js_number (js_get (js_fields dmesg_sep ?l) 7) = round64 (of_nat d)"
    "js_number (js_get (js_fields dmesg_sep ?l) 5) = round64 (of_int r)"
    unfolding f by (simp_all add: js_get_def js_number_decs ints_facts(6))
  show ?thesis
    by (simp only: dmesg_line_def c i w rc Let_def) simp
qed

section \<open>A whole boot\<close>

text \<open>
  What the server should show for the events of a boot, given the time stamps of the lines: the
  name of the function and the time of its call, its return value and its duration in seconds, and
  the share of the memory in use and of the CPU time since the line before.
\<close>

definition plain_symbol :: "'w machine \<Rightarrow> nat \<Rightarrow> string \<Rightarrow> bool" where
  "plain_symbol M a n \<longleftrightarrow> name_ok n \<and> (\<exists>sz off. sprint_symbol M a = n @ CHR ''+'' # offset_text off sz)"

definition event_ok :: "'w machine \<Rightarrow> (nat \<Rightarrow> string) \<Rightarrow> event \<Rightarrow> bool" where
  "event_ok M nm e \<longleftrightarrow> plain_symbol M (ev_addr e) (nm (ev_addr e)) \<and> length (ev_cpu e) = 7 \<and> ev_cpu e ! 2 < 2 ^ 63"

definition event_info :: "'w machine \<Rightarrow> (nat \<Rightarrow> string) \<Rightarrow> number list \<Rightarrow> nat \<times> nat \<times> nat \<Rightarrow> event \<Rightarrow> info" where
  "event_info M nm prev t e =
     (let tot = round64 (of_int (s_of (long_bits M) (fst (ev_mem e) * 4)));
          fre = round64 (of_int (s_of (long_bits M) (snd (ev_mem e) * 4))) in
      \<lparr>start_time = Some (time_of t), device_driver_name = Some (nm (ev_addr e)),
       mem_util = Some (fdiv (fsub tot fre) tot),
       cpu_util = Some (cpu_share (map (\<lambda>n. round64 (of_nat n)) (ev_cpu e)) prev),
       init_time = Some (fdiv (round64 (of_nat (ev_usecs e))) (Fin 1000000)),
       return_value = Some (round64 (of_int (ev_ret e)))\<rparr>)"

fun event_infos :: "'w machine \<Rightarrow> (nat \<Rightarrow> string) \<Rightarrow> number list \<Rightarrow> (nat \<times> nat \<times> nat) list \<Rightarrow> event list \<Rightarrow> info list" where
  "event_infos M nm prev ts [] = []"
| "event_infos M nm prev ts (e # es) =
     event_info M nm prev (hd ts) e #
     event_infos M nm (map (\<lambda>n. round64 (of_nat n)) (ev_cpu e)) (drop 4 ts) es"

definition stamped :: "(nat \<times> nat \<times> nat) list \<Rightarrow> string list \<Rightarrow> string list" where
  "stamped ts ms = map2 (\<lambda>t m. stamp t @ m) ts ms"


lemma block_lines:
  assumes "event_ok M nm e" "snd (snd t1) < 10 ^ 6"
  shows "foldl dmesg_line st (stamped [t1, t2, t3, t4] (event_lines M e)) =
    \<lparr>cpu_infos = map (\<lambda>n. round64 (of_nat n)) (ev_cpu e), obj = new_info,
     info_array = info_array st @ [event_info M nm (cpu_infos st) t1 e]\<rparr>"
proof -
  obtain p1 s1 u1 where t1: "t1 = (p1, s1, u1)" by (cases t1) auto
  obtain p2 s2 u2 where t2: "t2 = (p2, s2, u2)" by (cases t2) auto
  obtain p3 s3 u3 where t3: "t3 = (p3, s3, u3)" by (cases t3) auto
  obtain p4 s4 u4 where t4: "t4 = (p4, s4, u4)" by (cases t4) auto
  obtain sz off where n: "name_ok (nm (ev_addr e))"
    "sprint_symbol M (ev_addr e) = nm (ev_addr e) @ CHR ''+'' # offset_text off sz"
    using assms(1) by (auto simp: event_ok_def plain_symbol_def)
  have u: "u1 < 10 ^ 6" using assms(2) t1 by simp
  have c: "length (ev_cpu e) = 7" "ev_cpu e ! 2 < 2 ^ 63" using assms(1) by (auto simp: event_ok_def)
  have m1: "calling_text M (ev_addr e) (ev_pid e) =
      ''calling  '' @ nm (ev_addr e) @ CHR ''+'' # offset_text off sz @ '' @ '' @ decs (ev_pid e)"
    by (simp add: calling_text_def n(2))
  have m4: "returned_text M (ev_addr e) (ev_ret e) (ev_usecs e) =
      ''initcall '' @ nm (ev_addr e) @ CHR ''+'' # offset_text off sz @ '' returned '' @ ints (ev_ret e) @
      '' after '' @ decs (ev_usecs e) @ '' usecs''"
    by (simp add: returned_text_def n(2))
  show ?thesis
    unfolding event_lines_def stamped_def zip_Cons_Cons zip_Nil list.map prod.case foldl_Cons foldl_Nil t1 t2 t3 t4
      m1 m4 line_calling [OF n(1) u] line_cpu [OF c] line_mem line_returned [OF n(1)]
    by (simp add: event_info_def Let_def)
qed

lemma stamped_append: "length ts = length ms \<Longrightarrow> stamped (ts @ ts') (ms @ ms') = stamped ts ms @ stamped ts' ms'"
  by (simp add: stamped_def)

lemma boot_lines:
  assumes "\<forall>e\<in>set es. event_ok M nm e"
  shows "length ts = 4 * length es \<Longrightarrow> \<forall>t\<in>set ts. snd (snd t) < 10 ^ 6 \<Longrightarrow>
    info_array (foldl dmesg_line st (stamped ts (concat (map (event_lines M) es)))) =
    info_array st @ event_infos M nm (cpu_infos st) ts es"
  using assms
proof (induction es arbitrary: ts st)
  case Nil
  then show ?case by (simp add: stamped_def)
next
  case (Cons e es)
  have "length ts = Suc (Suc (Suc (Suc (4 * length es))))" using Cons.prems(1) by simp
  then obtain t1 t2 t3 t4 r where ts: "ts = [t1, t2, t3, t4] @ r" by (auto simp: length_Suc_conv)
  have "stamped ts (concat (map (event_lines M) (e # es))) =
      stamped [t1, t2, t3, t4] (event_lines M e) @ stamped r (concat (map (event_lines M) es))"
    unfolding ts by (subst stamped_append [symmetric]) (simp_all add: event_lines_def)
  then show ?case
    using Cons block_lines [of M nm e t1 st t2 t3 t4] ts by simp
qed


section \<open>Facts for the properties\<close>

lemma u64_sum_less: "u64_sum xs f < 2 ^ 64"
  by (cases xs rule: rev_cases) (simp_all add: u64_sum_def)

lemma boot_events_shape:
  assumes "\<forall>n<2 ^ 64. nsec_to_clock_t M n < 2 ^ 63" "e \<in> set (boot_events M fns k)"
  shows "ev_addr e \<in> ic_addr ` set fns \<and> length (ev_cpu e) = 7 \<and> ev_cpu e ! 2 < 2 ^ 63"
  using assms(2)
proof (induction fns arbitrary: k)
  case (Cons fn fns)
  have "ev_addr (initcall_event M fn k) = ic_addr fn \<and> length (ev_cpu (initcall_event M fn k)) = 7 \<and>
      ev_cpu (initcall_event M fn k) ! 2 < 2 ^ 63"
    using assms(1) u64_sum_less [of "possible_cpus M" "\<lambda>i. ct_system (kcpustat_cpu M (world k) i)"] by (simp add: initcall_event_def case_prod_beta Let_def cpu_usage_def)
  then show ?case using Cons by (auto split: if_splits)
qed simp

lemma event_infos_names:
  "map device_driver_name (event_infos M nm prev ts es) = map (\<lambda>e. Some (nm (ev_addr e))) es"
  by (induction es arbitrary: prev ts) (simp_all add: event_info_def Let_def)

lemma event_lines_length: "length (concat (map (event_lines M) es)) = 4 * length es"
  by (induction es) (simp_all add: event_lines_def)

lemma cpu_share_typed: "cpu_share new old \<noteq> NaN" "\<not> flt one (cpu_share new old)"
  by (simp_all add: cpu_share_def Let_def one_def)

definition typed_info :: "info \<Rightarrow> bool" where
  "typed_info i \<longleftrightarrow> init_time i \<noteq> None \<and> return_value i \<noteq> None \<and>
     (\<forall>x. cpu_util i = Some x \<longrightarrow> x \<noteq> NaN \<and> \<not> flt one x)"

lemma dmesg_line_typed:
  assumes "\<forall>i\<in>set (info_array st). typed_info i" "\<forall>x. cpu_util (obj st) = Some x \<longrightarrow> x \<noteq> NaN \<and> \<not> flt one x"
  shows "(\<forall>i\<in>set (info_array (dmesg_line st l)). typed_info i) \<and>
    (\<forall>x. cpu_util (obj (dmesg_line st l)) = Some x \<longrightarrow> x \<noteq> NaN \<and> \<not> flt one x)"
  using assms cpu_share_typed by (auto simp: dmesg_line_def Let_def typed_info_def new_info_def)

lemma dmesg_loop_typed: "i \<in> set (dmesg_loop datas) \<Longrightarrow> typed_info i"
proof -
  have "(\<forall>i\<in>set (info_array (foldl dmesg_line st datas)). typed_info i)"
    if "\<forall>i\<in>set (info_array st). typed_info i" "\<forall>x. cpu_util (obj st) = Some x \<longrightarrow> x \<noteq> NaN \<and> \<not> flt one x" for st
    using that
  proof (induction datas arbitrary: st)
    case (Cons l ls)
    then show ?case using Cons.IH [of "dmesg_line st l"] dmesg_line_typed [OF Cons.prems, of l] by simp
  qed simp
  from this [of dmesg_start] show "i \<in> set (dmesg_loop datas) \<Longrightarrow> typed_info i"
    by (simp add: dmesg_loop_def dmesg_start_def new_info_def)
qed

lemma share_of_memory:
  assumes "0 < t" "t \<le> 2 ^ 53" "0 \<le> f" "f \<le> t"
  shows "fdiv (fsub (round64 (of_int t)) (round64 (of_int f))) (round64 (of_int t)) = Zero False \<or>
    (\<exists>q. fdiv (fsub (round64 (of_int t)) (round64 (of_int f))) (round64 (of_int t)) = Fin q \<and> 0 < q \<and> q \<le> 1)"
proof -
  have t: "round64 (of_int t) = Fin (of_int t)" using assms by (intro round64_pos_int) auto
  have d: "fsub (round64 (of_int t)) (round64 (of_int f)) = (if f = t then Zero False else Fin (of_int (t - f)))"
  proof (cases "f = 0")
    case True
    then show ?thesis using assms by (simp add: fsub_def t, simp add: round64_def)
  next
    case False
    then have f: "round64 (of_int f) = Fin (of_int f)" using assms by (intro round64_pos_int) auto
    have "round64 (of_int (t - f)) = (if f = t then Zero False else Fin (of_int (t - f)))"
      using assms round64_pos_int [of "t - f"] by (auto simp: round64_def)
    then show ?thesis by (simp add: fsub_def t f)
  qed
  show ?thesis
  proof (cases "f = t")
    case True
    then show ?thesis unfolding d using assms by (simp add: t fdiv_def)
  next
    case False
    define q where "q = (of_int (t - f) / of_int t :: rat)"
    have q: "0 < q" "q \<le> 2 powi 0" using False assms by (simp_all add: q_def divide_le_eq)
    have "fdiv (fsub (round64 (of_int t)) (round64 (of_int f))) (round64 (of_int t)) = round64 q"
      unfolding d unfolding t using False by (simp add: fdiv_def q_def)
    then show ?thesis using round64_bound [OF q] by simp
  qed
qed

lemma not_numbers: "js_number (Some ''returned'') = NaN" "js_number (Some ''after'') = NaN"
  by (simp_all add: js_number_def js_trim_def js_space_def js_unsigned_def js_decimal_def dec_def)

section \<open>Properties\<close>

text \<open>C1: the web server shows the boot the kernel went through.  When the initcalls of a
  run have names the parser can tell apart from its markers and print nothing of their own, and the
  lines of the log that carry the markers are those the run printed, each with a time stamp, then
  \<open>parse_dmesg\<close> returns one object for every initcall that was not blacklisted, in the order of the
  run, with its name, the time of its call, its return value and duration, and the memory and CPU
  shares at its start; other lines of the log do not matter.\<close>
theorem server_shows_boot:
  assumes "\<forall>fn\<in>set fns. quiet_call fn" "names_ok M k fns" "initcall_debug k" "\<not> irqs_disabled k" "klog k = []"
    "\<forall>fn\<in>set fns. plain_symbol M (ic_addr fn) (nm (ic_addr fn))" "\<forall>n<2 ^ 64. nsec_to_clock_t M n < 2 ^ 63"
    "run_initcalls M fns k = Some k'"
    "fs (dir @ ''/'' @ version @ ''/dmesg.txt'') = Some data"
    "filter marked (split_on CHR 0x0A data) = stamped ts (klog k')" "length ts = length (klog k')"
    "\<forall>t\<in>set ts. snd (snd t) < 10 ^ 6"
  shows "parse_dmesg fs dir version = Some (event_infos M nm [] ts (boot_events M fns k)) \<and>
    map device_driver_name (event_infos M nm [] ts (boot_events M fns k)) =
      map (\<lambda>fn. Some (nm (ic_addr fn))) (filter (\<lambda>fn. \<not> is_listed M k (ic_addr fn)) fns)"
proof -
  have l: "klog k' = concat (map (event_lines M) (boot_events M fns k))"
    using run_initcalls_quiet [OF assms(1-4)] assms(5,8) by auto
  have ok: "\<forall>e\<in>set (boot_events M fns k). event_ok M nm e"
    using boot_events_shape [OF assms(7), of _ fns k] assms(6) by (fastforce simp: event_ok_def)
  have "length ts = 4 * length (boot_events M fns k)" using assms(11) l by (simp only: event_lines_length)
  then have "info_array (foldl dmesg_line dmesg_start (stamped ts (klog k'))) =
      event_infos M nm [] ts (boot_events M fns k)"
    unfolding l using boot_lines [OF ok _ assms(12), of dmesg_start] by (simp add: dmesg_start_def)
  then have "parse_dmesg fs dir version = Some (event_infos M nm [] ts (boot_events M fns k))"
    using assms(9,10) foldl_marked [of dmesg_start "split_on CHR 0x0A data"] by (simp add: parse_dmesg_def dmesg_loop_def)
  moreover have "map ev_addr (boot_events M fns k) = map ic_addr (filter (\<lambda>fn. \<not> is_listed M k (ic_addr fn)) fns)"
    by (rule boot_events_addr [OF assms(1-4)])
  then have "map (\<lambda>a. Some (nm a)) (map ev_addr (boot_events M fns k)) =
      map (\<lambda>a. Some (nm a)) (map ic_addr (filter (\<lambda>fn. \<not> is_listed M k (ic_addr fn)) fns))" by simp
  ultimately show ?thesis by (simp add: event_infos_names comp_def)
qed

definition demo_log :: string where
  "demo_log = joined CHR 0x0A
     [''[    0.000801] calling  demo_init+0x0/0x44 @ 1'',
      ''[    0.000813] [OSLAB] user : 0, nice : 0, system : 0, idle : 0, iowait : 0, irq : 0, softirq : 0'',
      ''[    0.000819] [OSLAB] MemTotal : 744152, MemFree : 726980'',
      ''[    0.000830] random: crng init done'',
      ''[    0.000846] initcall demo_init+0x0/0x44 returned 0 after 0 usecs'']"

theorem server_shows_boot_witness:
  "\<exists>infos. parse_dmesg [''/k/V1/dmesg.txt'' \<mapsto> demo_log] ''/k'' ''V1'' = Some infos \<and>
     map device_driver_name infos = [Some ''demo_init'']"
proof -
  let ?ts = "[(4, 0, 801), (4, 0, 813), (4, 0, 819), (4, 0, 846)] :: (nat \<times> nat \<times> nat) list"
  obtain k' where k: "run_initcalls demo_machine [demo_call] demo_kernel = Some k'" "klog k' = demo_lines"
    using run_initcalls_quiet [OF demo_facts(1-4)] demo_events demo_facts(5) by auto
  have n: "\<forall>fn\<in>set [demo_call]. plain_symbol demo_machine (ic_addr fn) ''demo_init''"
  proof -
    have "name_ok ''demo_init''" by (simp add: name_ok_def dmesg_sep_def js_has_def)
    moreover have "hexs 0 = ''0''" "hexs 68 = ''44''" by code_simp+
    then have "sprint_symbol demo_machine 0 = ''demo_init'' @ CHR ''+'' # offset_text 0 68"
      by (simp add: demo_symbol_offset offset_text_def)
    ultimately show ?thesis by (auto simp: plain_symbol_def demo_call_def)
  qed
  have c: "\<forall>n<2 ^ 64. nsec_to_clock_t demo_machine n < 2 ^ 63" by (auto simp: demo_machine_def)
  have d: "decs 0 = ''0''" "decs 801 = ''801''" "decs 813 = ''813''" "decs 819 = ''819''" "decs 846 = ''846''"
    by (simp_all add: decs_def rdec.simps dig_simps)
  have r: "replicate 4 c = [c, c, c, c]" "replicate 3 c = [c, c, c]" for c :: char by (simp_all add: numeral_eq_Suc)
  have st: "stamp (4, 0, 801) = ''[    0.000801] ''" "stamp (4, 0, 813) = ''[    0.000813] ''"
    "stamp (4, 0, 819) = ''[    0.000819] ''" "stamp (4, 0, 846) = ''[    0.000846] ''"
    by (simp_all add: stamp_def padded_def zeros_def d r)
  have f: "filter marked (split_on CHR 0x0A demo_log) = stamped ?ts (klog k')"
    unfolding k(2) demo_lines_def by (simp add: demo_log_def stamped_def st marked_def js_has_def)
  have l: "length ?ts = length (klog k')" "\<forall>t\<in>set ?ts. snd (snd t) < 10 ^ 6" by (simp_all add: k(2) demo_lines_def)
  let ?fs = "[''/k/V1/dmesg.txt'' \<mapsto> demo_log]"
  have p: "?fs (''/k'' @ ''/'' @ ''V1'' @ ''/dmesg.txt'') = Some demo_log" by simp
  have "filter (\<lambda>fn. \<not> is_listed demo_machine demo_kernel (ic_addr fn)) [demo_call] = [demo_call]"
    by (simp add: is_listed_def demo_kernel_def)
  then show ?thesis
    using server_shows_boot [where nm = "\<lambda>a. ''demo_init''" and fs = ?fs, OF demo_facts n c k(1) p f l] by auto
qed



text \<open>C8: the memory share lies between 0 and 1: from a line of \<open>get_mem_usage\<close> with a positive total
  below \<open>2 ^ 53\<close> and no more free memory than that, the server computes zero or a positive number
  that is at most 1, in spite of rounding.\<close>
theorem mem_share_in_range:
  assumes "0 < x" "y \<le> x" "x * 4 < 2 ^ (b - 1)" "x * 4 \<le> 2 ^ 53"
  shows "\<exists>v. mem_util (obj (dmesg_line st (stamp (p, s, u) @ mem_text b x y))) = Some v \<and>
    (v = Zero False \<or> (\<exists>q. v = Fin q \<and> 0 < q \<and> q \<le> 1))"
proof -
  have "x * 4 < 2 ^ b" by (rule less_le_trans [OF assms(3)], rule power_increasing) simp_all
  then have s: "s_of b (x * 4) = int (x * 4)" "s_of b (y * 4) = int (y * 4)"
    using assms(2,3) by (simp_all add: s_of_def Let_def)
  have "0 < int (x * 4)" "int (x * 4) \<le> 2 ^ 53" "0 \<le> int (y * 4)" "int (y * 4) \<le> int (x * 4)"
    using assms by simp_all
  note share_of_memory [OF this]
  then show ?thesis unfolding line_mem s by auto
qed

theorem mem_share_in_range_witness:
  "\<exists>v. mem_util (obj (dmesg_line dmesg_start (stamp (4, 0, 819) @ mem_text 32 186038 181745))) = Some v \<and>
    (v = Zero False \<or> (\<exists>q. v = Fin q \<and> 0 < q \<and> q \<le> 1))"
  using mem_share_in_range [of 186038 181745 32 dmesg_start 4 0 819] by simp

text \<open>C11: an initcall whose name contains the letters \<^verbatim>\<open>nice\<close> is lost: the line of its return is taken
  for a line of CPU counters, and no object is added.\<close>
theorem nice_initcall_lost:
  assumes "js_has n ''nice''" "n \<noteq> []" "list_all (\<lambda>c. \<not> dmesg_sep c) n"
  shows "info_array (dmesg_line st (stamp t @ ''initcall '' @ n @ CHR ''+'' # m)) = info_array st"
proof -
  have "js_fields dmesg_sep (''initcall'' @ CHR '' '' # n @ CHR ''+'' # m) = ''initcall'' # n # js_fields dmesg_sep m"
    using assms(2,3) not_sep_letters(2) by (simp only: fields_word dmesg_sep_simps list.distinct not_False_eq_True)
  then have "js_has (stamp t @ ''initcall '' @ n @ CHR ''+'' # m) ''nice''"
    using assms(1) unfolding stamp_words by simp
  then show ?thesis by (simp add: dmesg_line_def Let_def)
qed

theorem nice_initcall_lost_witness:
  "info_array (dmesg_line dmesg_start (stamp (4, 1, 2) @ ''initcall '' @ ''nice_init'' @ CHR ''+'' # ''0x0/0x8 returned 0 after 1 usecs'')) = []"
  using nice_initcall_lost [of "''nice_init''" dmesg_start "(4, 1, 2)" "''0x0/0x8 returned 0 after 1 usecs''"]
  by (simp add: js_has_def dmesg_sep_def dmesg_start_def)

text \<open>C13: for an initcall of a module the return value and the duration are read from the wrong words:
  the module name in brackets after the symbol shifts the fields by one, and both come out as NaN.\<close>
theorem module_initcall_unread:
  assumes "name_ok n" "name_ok md"
  shows "info_array (dmesg_line st (stamp (p, s, u) @ ''initcall '' @ n @ CHR ''+'' # offset_text off sz @
      '' ['' @ md @ ''] returned '' @ ints r @ '' after '' @ decs d @ '' usecs'')) =
    info_array st @ [(obj st)\<lparr>init_time := Some NaN, return_value := Some NaN\<rparr>]"
proof -
  let ?m = "''initcall '' @ n @ CHR ''+'' # offset_text off sz @
      '' ['' @ md @ ''] returned '' @ ints r @ '' after '' @ decs d @ '' usecs''"
  let ?l = "stamp (p, s, u) @ ?m"
  have "js_fields dmesg_sep (''initcall'' @ CHR '' '' # n @ CHR ''+'' # offset_text off sz @ CHR '' '' # CHR ''['' # md @
      CHR '']'' # CHR '' '' # ''returned'' @ CHR '' '' # ints r @ CHR '' '' # ''after'' @ CHR '' '' # decs d @ CHR '' '' # ''usecs'') =
    [''initcall'', n, offset_text off sz, md, ''returned'', ints r, ''after'', decs d, ''usecs'']"
    using assms not_sep_letters ints_facts(1,2) offset_no_sep decs_no_sep
    by (simp only: fields_word js_fields_sep dmesg_sep_simps js_fields_last name_ok_def offset_nonempty decs_nonempty
        list.distinct not_False_eq_True)
  then have f: "js_fields dmesg_sep ?m = [''initcall'', n, offset_text off sz, md, ''returned'', ints r, ''after'', decs d, ''usecs'']"
    by simp
  have fl: "js_fields dmesg_sep ?l = (decs s @ CHR ''.'' # padded 6 u) # js_fields dmesg_sep ?m"
    by (rule js_fields_stamp)
  have i: "js_has ?l ''] initcall''" by (simp only: stamp_bracket) simp
  have w: "\<not> js_has ?l ''MemTotal''" "\<not> js_has ?l ''nice''"
    using assms offset_has decs_has ints_facts(3,4) unfolding stamp_words f by (auto simp: name_ok_def js_has_def)
  let ?a = "''initcall '' @ n @ CHR ''+'' # offset_text off sz @ '' ['' @ md"
  let ?v = "'' returned '' @ ints r @ '' after '' @ decs d @ '' usecs''"
  have "js_has (?a @ CHR '']'' # ?v) (CHR '']'' # '' calling'') \<longleftrightarrow> prefix '' calling'' ?v \<or> js_has ?v (CHR '']'' # '' calling'')"
    using name_no_bracket [OF assms(1)] name_no_bracket [OF assms(2)] offset_has(3) by (intro js_has_bracket) simp
  then have "\<not> js_has ?m ''] calling''"
    using js_has_absent [of "CHR '']''" ?v] ints_facts(5) decs_has(3) by simp
  then have c: "\<not> js_has ?l ''] calling''" by (simp only: stamp_bracket) simp
  have rc: "js_number (js_get (js_fields dmesg_sep ?l) 7) = NaN" "js_number (js_get (js_fields dmesg_sep ?l) 5) = NaN"
    unfolding fl f by (simp_all add: js_get_def not_numbers)
  show ?thesis
    by (simp only: dmesg_line_def c i w rc Let_def) (simp add: fdiv_def)
qed

theorem module_initcall_unread_witness:
  "info_array (dmesg_line dmesg_start (stamp (4, 0, 9) @ ''initcall '' @ ''foo_init'' @ CHR ''+'' # offset_text 0 68 @
      '' ['' @ ''foo'' @ ''] returned '' @ ints 0 @ '' after '' @ decs 12 @ '' usecs'')) =
    [new_info\<lparr>init_time := Some NaN, return_value := Some NaN\<rparr>]"
proof -
  have "name_ok ''foo_init''" "name_ok ''foo''" by (simp_all add: name_ok_def dmesg_sep_def js_has_def)
  note module_initcall_unread [OF this, of dmesg_start 4 0 9 0 68 0 12]
  then show ?thesis by (simp add: dmesg_start_def)
qed

end
