(* ===== verification/HashFile.thy ===== *)
theory HashFile
  imports Dmesg "HOL-Library.Multiset"
begin

text \<open>
  Registration of kernel versions by the web server, \<^verbatim>\<open>3-3/src/start.js\<close>: \<open>makeHashFile\<close> walks a
  source tree breadth first and writes a line with the MD5 sum of every file, and the start-up code
  gives directories that are not yet called \<open>V\<close> and a number such a name.  The file system is
  queried through the operations of Node; each may throw.  The walk is a loop that need not end on
  an arbitrary file system, so it is a partial function: \<^const>\<open>None\<close> is a run that does not return.
  The MD5 digest is a parameter.
\<close>

section \<open>The walk\<close>

record node_fs =
  readdirSync :: "string \<Rightarrow> string list option"
  is_directory_at :: "string \<Rightarrow> bool option"
  readFileSync :: "string \<Rightarrow> string option"

definition slash :: "string \<Rightarrow> string \<Rightarrow> string" where
  "slash a b = a @ ''/'' @ b"

definition hash_line :: "(string \<Rightarrow> string) \<Rightarrow> string \<Rightarrow> string \<Rightarrow> string" where
  "hash_line md5 path data = path @ '' '' @ md5 data @ [CHR 0x0A]"

fun scan_dir :: "(string \<Rightarrow> string) \<Rightarrow> node_fs \<Rightarrow> string \<Rightarrow> string \<Rightarrow> string list \<Rightarrow> string list \<Rightarrow> string list
    \<Rightarrow> (string list \<times> string list) option" where
  "scan_dir md5 fs pre_path first_elem [] queue out = Some (queue, out)"
| "scan_dir md5 fs pre_path first_elem (elem # elems) queue out =
     (let abs_path = slash (slash pre_path first_elem) elem in
      case is_directory_at fs abs_path of
        None \<Rightarrow> None
      | Some True \<Rightarrow> scan_dir md5 fs pre_path first_elem elems (queue @ [slash first_elem elem]) out
      | Some False \<Rightarrow>
          (case readFileSync fs abs_path of
             None \<Rightarrow> scan_dir md5 fs pre_path first_elem elems queue out
           | Some data \<Rightarrow>
               scan_dir md5 fs pre_path first_elem elems queue (out @ [hash_line md5 (slash first_elem elem) data])))"

definition walk_step :: "(string \<Rightarrow> string) \<Rightarrow> node_fs \<Rightarrow> string \<Rightarrow> string \<Rightarrow> string list \<Rightarrow> string list
    \<Rightarrow> (string list \<times> string list) option" where
  "walk_step md5 fs pre_path first_elem queue out =
     (case readdirSync fs (slash pre_path first_elem) of
        None \<Rightarrow> None
      | Some dir_file_list \<Rightarrow> scan_dir md5 fs pre_path first_elem dir_file_list queue out)"

datatype walk_result = Thrown | Written "string list"

partial_function (option) walk :: "(string \<Rightarrow> string) \<Rightarrow> node_fs \<Rightarrow> string \<Rightarrow> string list \<Rightarrow> string list
    \<Rightarrow> walk_result option" where
  "walk md5 fs pre_path queue out =
     (case queue of
        [] \<Rightarrow> Some (Written out)
      | first_elem # queue \<Rightarrow>
          (case walk_step md5 fs pre_path first_elem queue out of
             None \<Rightarrow> Some Thrown
           | Some (queue, out) \<Rightarrow> walk md5 fs pre_path queue out))"

definition makeHashFile :: "(string \<Rightarrow> string) \<Rightarrow> node_fs \<Rightarrow> string \<Rightarrow> string \<Rightarrow> walk_result option" where
  "makeHashFile md5 fs pre_path dir_path = walk md5 fs pre_path [dir_path] []"

section \<open>Trees\<close>

text \<open>
  A finite directory tree, with files that can be read and files that cannot, and what it means
  that the file system holds it at a path.
\<close>

datatype tree = File "string option" | Dir "(string \<times> tree) list"

fun holds :: "node_fs \<Rightarrow> string \<Rightarrow> string \<Rightarrow> tree \<Rightarrow> bool" where
  "holds fs pre p (File c) \<longleftrightarrow> is_directory_at fs (slash pre p) = Some False \<and> readFileSync fs (slash pre p) = c"
| "holds fs pre p (Dir es) \<longleftrightarrow> is_directory_at fs (slash pre p) = Some True \<and>
     readdirSync fs (slash pre p) = Some (map fst es) \<and>
     (\<forall>(n, t)\<in>set es. holds fs pre (slash p n) t)"

fun file_lines :: "(string \<Rightarrow> string) \<Rightarrow> string \<Rightarrow> tree \<Rightarrow> string list" where
  "file_lines md5 p (File None) = []"
| "file_lines md5 p (File (Some c)) = [hash_line md5 p c]"
| "file_lines md5 p (Dir es) = concat (map (\<lambda>(n, t). file_lines md5 (slash p n) t) es)"

fun dirs :: "tree \<Rightarrow> nat" where
  "dirs (File c) = 0"
| "dirs (Dir es) = Suc (sum_list (map (\<lambda>(n, t). dirs t) es))"

lemma slash_assoc: "slash (slash a b) c = slash a (slash b c)"
  by (simp add: slash_def)

definition is_dir_tree :: "tree \<Rightarrow> bool" where
  "is_dir_tree t \<longleftrightarrow> (\<exists>es. t = Dir es)"

lemma scan_dir_holds:
  assumes "\<forall>(n, t)\<in>set es. holds fs pre (slash p n) t"
  shows "scan_dir md5 fs pre p (map fst es) queue out =
    Some (queue @ map (\<lambda>(n, t). slash p n) (filter (\<lambda>(n, t). is_dir_tree t) es),
      out @ concat (map (\<lambda>(n, t). file_lines md5 (slash p n) t) (filter (\<lambda>(n, t). \<not> is_dir_tree t) es)))"
  using assms
proof (induction es arbitrary: queue out)
  case (Cons e es)
  obtain n t where e: "e = (n, t)" by (cases e) auto
  have h: "holds fs pre (slash p n) t" using Cons.prems e by simp
  show ?case
  proof (cases t)
    case (File c)
    then show ?thesis using Cons h by (cases c) (simp_all add: e slash_assoc is_dir_tree_def Let_def)
  next
    case (Dir fs)
    then show ?thesis using Cons h by (simp add: e slash_assoc is_dir_tree_def Let_def)
  qed
qed simp

lemma dirs_zero: "\<not> is_dir_tree t \<Longrightarrow> dirs t = 0"
  by (cases t) (simp_all add: is_dir_tree_def)

lemma walk_holds:
  assumes "\<forall>(p, t)\<in>set q. is_dir_tree t \<and> holds fs pre p t"
  shows "\<exists>out'. walk md5 fs pre (map fst q) out = Some (Written out') \<and>
    mset out' = mset out + mset (concat (map (\<lambda>(p, t). file_lines md5 p t) q))"
  using assms
proof (induction "sum_list (map (\<lambda>(p, t). dirs t) q)" arbitrary: q out rule: less_induct)
  case less
  show ?case
  proof (cases q)
    case Nil
    then show ?thesis by (subst walk.simps) simp
  next
    case (Cons pt q')
    then obtain p es where p: "pt = (p, Dir es)" "holds fs pre p (Dir es)"
      using less.prems by (cases pt) (auto simp: is_dir_tree_def)
    let ?ds = "filter (\<lambda>(n, t). is_dir_tree t) es"
    let ?fs = "filter (\<lambda>(n, t). \<not> is_dir_tree t) es"
    let ?q = "q' @ map (\<lambda>(n, t). (slash p n, t)) ?ds"
    let ?out = "out @ concat (map (\<lambda>(n, t). file_lines md5 (slash p n) t) ?fs)"
    have st: "walk_step md5 fs pre p (map fst q') out = Some (map fst ?q, ?out)"
      using p(2) scan_dir_holds [of es fs pre p md5 "map fst q'" out]
      by (simp add: walk_step_def comp_def case_prod_beta)
    then have w: "walk md5 fs pre (map fst q) out = walk md5 fs pre (map fst ?q) ?out"
      by (subst walk.simps) (simp add: Cons p(1))
    have s: "sum_list (map (\<lambda>(n, t). dirs t) es) = sum_list (map (\<lambda>(n, t). dirs t) ?ds)"
      by (induction es) (auto simp: dirs_zero)
    then have "sum_list (map (\<lambda>(p, t). dirs t) ?q) < sum_list (map (\<lambda>(p, t). dirs t) q)"
      by (simp add: Cons p(1) comp_def case_prod_unfold)
    moreover have "\<forall>(p, t)\<in>set ?q. is_dir_tree t \<and> holds fs pre p t"
      using less.prems p(2) Cons by auto
    ultimately obtain out' where o: "walk md5 fs pre (map fst ?q) ?out = Some (Written out')"
      "mset out' = mset ?out + mset (concat (map (\<lambda>(p, t). file_lines md5 p t) ?q))"
      using less.hyps by blast
    have m: "mset (concat (map (\<lambda>(n, t). file_lines md5 (slash p n) t) es)) =
        mset (concat (map (\<lambda>(n, t). file_lines md5 (slash p n) t) ?fs)) +
        mset (concat (map (\<lambda>(n, t). file_lines md5 (slash p n) t) ?ds))"
      by (induction es) auto
    show ?thesis using w o m by (auto simp: Cons p(1) comp_def case_prod_unfold)
  qed
qed

section \<open>Registration\<close>

text \<open>An entry of \<open>device_driver_info\<close> is what \<open>parse_dmesg\<close> made of the log, or a promise that was
  stored without waiting for it.\<close>

datatype entry = Parsed "info list" | Promise

record registry =
  kernel_dir_list :: "string list"
  count_version :: nat
  unregistered_file :: "nat list"
  device_driver_info :: "nat option \<rightharpoonup> entry"
  made_dirs :: "string list"
  hash_files :: "(string \<times> string list) list"

fun first_pass :: "files \<Rightarrow> string \<Rightarrow> nat \<Rightarrow> string list \<Rightarrow> registry \<Rightarrow> registry \<times> bool" where
  "first_pass fs dir list_index [] r = (r, True)"
| "first_pass fs dir list_index (n # ns) r =
     (if n \<noteq> [] \<and> hd n = CHR ''V'' then
        (case parse_dmesg fs dir n of
           None \<Rightarrow> (r, False)
         | Some info \<Rightarrow>
             first_pass fs dir (Suc list_index) ns
               (r\<lparr>device_driver_info := (device_driver_info r)(Some list_index \<mapsto> Parsed info),
                  count_version := count_version r + 1\<rparr>))
      else if n = ''ORG'' then first_pass fs dir (Suc list_index) ns r
      else first_pass fs dir (Suc list_index) ns (r\<lparr>unregistered_file := unregistered_file r @ [list_index]\<rparr>))"

definition version_name :: "nat \<Rightarrow> string" where
  "version_name n = ''V'' @ decs n"

fun second_pass :: "(string \<Rightarrow> string) \<Rightarrow> node_fs \<Rightarrow> string \<Rightarrow> nat \<Rightarrow> nat list \<Rightarrow> registry \<Rightarrow> (registry \<times> nat) option" where
  "second_pass md5 fs dir unregistered_index [] r = Some (r, unregistered_index)"
| "second_pass md5 fs dir unregistered_index (i # is) r =
     (case is_directory_at fs (slash dir (kernel_dir_list r ! i)) of
        None \<Rightarrow> Some (r, unregistered_index)
      | Some False \<Rightarrow> second_pass md5 fs dir (unregistered_index + 1) is r
      | Some True \<Rightarrow>
          let r = r\<lparr>count_version := count_version r + 1\<rparr>;
              new_dir_path = slash dir (version_name (count_version r)) in
          if is_directory_at fs new_dir_path \<noteq> None \<or> new_dir_path \<in> set (made_dirs r)
          then Some (r, unregistered_index)
          else
            let r = r\<lparr>made_dirs := made_dirs r @ [new_dir_path]\<rparr> in
            (case makeHashFile md5 fs dir (kernel_dir_list r ! i) of
               None \<Rightarrow> None
             | Some Thrown \<Rightarrow> Some (r, unregistered_index)
             | Some (Written out) \<Rightarrow>
                 second_pass md5 fs dir (unregistered_index + 1) is
                   (r\<lparr>hash_files := hash_files r @ [(slash new_dir_path ''hash.txt'', out)],
                      kernel_dir_list := (kernel_dir_list r)[i := version_name (count_version r)]\<rparr>)))"

definition late_parse :: "registry \<Rightarrow> nat \<Rightarrow> registry" where
  "late_parse r unregistered_index =
     r\<lparr>device_driver_info :=
        (device_driver_info r)(js_get (unregistered_file r) unregistered_index \<mapsto> Promise)\<rparr>"

definition register :: "(string \<Rightarrow> string) \<Rightarrow> node_fs \<Rightarrow> files \<Rightarrow> string \<Rightarrow> string list \<Rightarrow> registry option" where
  "register md5 fs logs dir names =
     (let r = \<lparr>kernel_dir_list = filter (\<lambda>n. n \<noteq> ''ORG'') names, count_version = 0, unregistered_file = [],
               device_driver_info = Map.empty, made_dirs = [], hash_files = []\<rparr>;
          (r, ok) = first_pass logs dir 0 (kernel_dir_list r) r in
      if \<not> ok then Some r
      else
        (case second_pass md5 fs dir 0 (unregistered_file r) r of
           None \<Rightarrow> None
         | Some (r, unregistered_index) \<Rightarrow>
             Some (if hash_files r = [] then r else late_parse r unregistered_index)))"

definition get_device_driver_info :: "registry \<Rightarrow> string \<Rightarrow> entry option" where
  "get_device_driver_info r kernel_version =
     (case js_get kernel_version 1 of
        None \<Rightarrow> None
      | Some c \<Rightarrow>
          if dec c \<and> c \<noteq> CHR ''0'' then device_driver_info r (Some (of_char c - 48 - 1)) else None)"


section \<open>Facts about registration\<close>

definition is_version :: "string \<Rightarrow> bool" where
  "is_version n \<longleftrightarrow> n \<noteq> [] \<and> hd n = CHR ''V''"

definition unversioned :: "nat \<Rightarrow> string list \<Rightarrow> nat list" where
  "unversioned i ns = map (\<lambda>j. i + j) (filter (\<lambda>j. \<not> is_version (ns ! j)) [0..<length ns])"

lemma unversioned_Cons:
  "unversioned i (n # ns) = (if is_version n then [] else [i]) @ unversioned (Suc i) ns"
proof -
  have "[0..<length (n # ns)] = 0 # map Suc [0..<length ns]"
    by (simp add: map_Suc_upt upt_conv_Cons del: upt_Suc)
  then show ?thesis by (simp add: unversioned_def filter_map comp_def)
qed

lemma first_pass_result:
  assumes "\<forall>n\<in>set ns. is_version n \<longrightarrow> parse_dmesg fs dir n \<noteq> None" "''ORG'' \<notin> set ns"
  shows "\<exists>d. first_pass fs dir i ns r =
    (r\<lparr>count_version := count_version r + length (filter is_version ns),
       unregistered_file := unregistered_file r @ unversioned i ns, device_driver_info := d\<rparr>, True) \<and>
    (\<forall>j\<in>set (unversioned i ns). d (Some j) = device_driver_info r (Some j)) \<and>
    (\<forall>j<i. d (Some j) = device_driver_info r (Some j))"
  using assms
proof (induction ns arbitrary: i r)
  case Nil
  then show ?case by (auto simp: unversioned_def intro: exI [of _ "device_driver_info r"])
next
  case (Cons n ns)
  show ?case
  proof (cases "is_version n")
    case True
    then obtain info where info: "parse_dmesg fs dir n = Some info" using Cons.prems(1) by auto
    let ?r = "r\<lparr>device_driver_info := (device_driver_info r)(Some i \<mapsto> Parsed info), count_version := count_version r + 1\<rparr>"
    have "\<forall>j\<in>set (unversioned (Suc i) ns). j \<noteq> i" by (auto simp: unversioned_def)
    then show ?thesis
      using Cons.IH [of "Suc i" ?r] Cons.prems True info
      by (auto simp: unversioned_Cons is_version_def)
  next
    case False
    let ?r = "r\<lparr>unregistered_file := unregistered_file r @ [i]\<rparr>"
    show ?thesis
      using Cons.IH [of "Suc i" ?r] Cons.prems False
      by (auto simp: unversioned_Cons is_version_def)
  qed
qed


lemma second_pass_blocked:
  assumes "is_directory_at fs (slash dir (kernel_dir_list r ! i)) = Some True"
    "is_directory_at fs (slash dir (version_name (Suc (count_version r)))) \<noteq> None"
  shows "second_pass md5 fs dir j (i # is) r = Some (r\<lparr>count_version := Suc (count_version r)\<rparr>, j)"
  using assms by (simp add: Let_def)

lemma second_pass_keeps:
  "second_pass md5 fs dir j is r = Some (r', j') \<Longrightarrow>
     device_driver_info r' = device_driver_info r \<and> unregistered_file r' = unregistered_file r"
proof (induction "is" arbitrary: j r)
  case (Cons i "is")
  then show ?case
    by (auto simp: Let_def split: option.splits bool.splits if_splits walk_result.splits dest!: Cons.IH)
qed simp

section \<open>Properties\<close>

text \<open>C14: \<open>makeHashFile\<close> terminates and misses nothing: on a file system that holds a finite
  directory tree below the given path, the walk ends, and the file it writes has exactly one line
  for every file of the tree that can be read, with its path and the digest of its contents.\<close>
theorem hash_file_complete:
  assumes "holds fs pre p (Dir es)"
  shows "\<exists>out. makeHashFile md5 fs pre p = Some (Written out) \<and> mset out = mset (file_lines md5 p (Dir es))"
  using walk_holds [of "[(p, Dir es)]" fs pre md5 "[]"] assms by (auto simp: makeHashFile_def is_dir_tree_def)

definition demo_fs :: node_fs where
  "demo_fs =
     \<lparr>readdirSync = [''/r/k'' \<mapsto> [''a'', ''d'', ''locked''], ''/r/k/d'' \<mapsto> [''b'']],
      is_directory_at = [''/r/k'' \<mapsto> True, ''/r/k/a'' \<mapsto> False, ''/r/k/d'' \<mapsto> True, ''/r/k/locked'' \<mapsto> False,
        ''/r/k/d/b'' \<mapsto> False, ''/r/V1'' \<mapsto> True, ''/r/V3'' \<mapsto> True],
      readFileSync = [''/r/k/a'' \<mapsto> ''x'', ''/r/k/d/b'' \<mapsto> ''y'']\<rparr>"

theorem hash_file_complete_witness:
  "\<exists>out. makeHashFile (\<lambda>c. ''#'' @ c) demo_fs ''/r'' ''k'' = Some (Written out) \<and>
     mset out = {#''k/a #x'' @ [CHR 0x0A], ''k/d/b #y'' @ [CHR 0x0A]#}"
proof -
  have "holds demo_fs ''/r'' ''k'' (Dir [(''a'', File (Some ''x'')), (''d'', Dir [(''b'', File (Some ''y''))]), (''locked'', File None)])"
    by (simp add: demo_fs_def slash_def)
  from hash_file_complete [OF this, of "\<lambda>c. ''#'' @ c"] show ?thesis
    by (simp add: hash_line_def slash_def)
qed



text \<open>The boot information of a version that was registered in this run is not found under its place
  in the list: it is stored, when the loop is over, under the value of the loop index at that time.\<close>
lemma new_version_unlisted:
  assumes "\<forall>n\<in>set ns. is_version n \<longrightarrow> parse_dmesg logs dir n \<noteq> None" "''ORG'' \<notin> set ns"
    "first_pass logs dir 0 ns r0 = (r1, True)" "device_driver_info r0 = Map.empty" "unregistered_file r0 = []"
    "second_pass md5 fs dir 0 (unregistered_file r1) r1 = Some (r2, length (unregistered_file r1))"
    "i \<in> set (unregistered_file r1)"
  shows "device_driver_info (late_parse r2 (length (unregistered_file r1))) (Some i) = None"
proof -
  have "device_driver_info r1 (Some i) = None"
    using first_pass_result [OF assms(1,2), of 0 r0] assms(3-5,7) by auto
  moreover have "device_driver_info r2 = device_driver_info r1" "unregistered_file r2 = unregistered_file r1"
    using second_pass_keeps [OF assms(6)] by auto
  ultimately show ?thesis by (simp add: late_parse_def js_get_def split: option.split)
qed

end
