(* ===== verification/DiffView.thy ===== *)
theory DiffView
  imports HashFile
begin

text \<open>
  The source browser of the web server, \<^verbatim>\<open>3-3/src/start.js\<close>: \<open>/getDirectoryJSON\<close> runs \<^verbatim>\<open>ssu_diff\<close> on
  two versions, cuts its output into the differences of single files, and builds from their paths a
  tree that is sent as HTML; \<open>/viewFile\<close> returns the differences of one file.  A JavaScript object
  built by \<open>createPathTree\<close> is a node with the file it stands for, if any, and its properties in
  the order of their creation.  A file's own properties (\<open>isFile\<close>, \<open>path\<close>, \<open>diffData\<close>) and the
  properties every object inherits are not among them, so the tree is the program's for paths
  none of whose components is one of the \<open>taken_names\<close>.  The command is run by a
  parameter.  A response is \<open>Sent\<close>, or \<open>Failed\<close> when the handler throws (the framework answers with
  an error), or \<open>Crashed\<close> when a callback throws and the process ends, or never sent.
\<close>

section \<open>The differences\<close>

type_synonym diff_entry = "string \<times> string list"

definition diff_line :: "diff_entry list \<times> diff_entry option \<Rightarrow> string \<Rightarrow> diff_entry list \<times> diff_entry option" where
  "diff_line st line =
     (case st of (diff_log, current_log) \<Rightarrow>
        if prefix ''diff '' line then
          ((case current_log of None \<Rightarrow> diff_log | Some c \<Rightarrow> diff_log @ [c]), Some (drop 5 line, []))
        else
          (diff_log, map_option (\<lambda>(path, diffdata). (path, diffdata @ [line])) current_log))"

definition diff_entries :: "string list \<Rightarrow> diff_entry list" where
  "diff_entries diff_lines =
     (case foldl diff_line ([], None) diff_lines of (diff_log, current_log) \<Rightarrow>
        case current_log of None \<Rightarrow> diff_log | Some c \<Rightarrow> diff_log @ [c])"

section \<open>The tree of paths\<close>

datatype jnode = JNode (jfile: "diff_entry option") (kids: "(string \<times> jnode) list")

fun obj_set :: "(string \<times> jnode) list \<Rightarrow> string \<Rightarrow> jnode \<Rightarrow> (string \<times> jnode) list" where
  "obj_set [] k v = [(k, v)]"
| "obj_set ((k', v') # ks) k v = (if k' = k then (k, v) # ks else (k', v') # obj_set ks k v)"

definition empty_obj :: jnode where
  "empty_obj = JNode None []"

fun insert_parts :: "string list \<Rightarrow> diff_entry \<Rightarrow> jnode \<Rightarrow> jnode" where
  "insert_parts [] f currentNode = currentNode"
| "insert_parts [part] f currentNode =
     JNode (jfile currentNode) (obj_set (kids currentNode) part (JNode (Some f) []))"
| "insert_parts (part # parts) f currentNode =
     (let next_node = (case map_of (kids currentNode) part of None \<Rightarrow> empty_obj | Some c \<Rightarrow> c) in
      JNode (jfile currentNode) (obj_set (kids currentNode) part (insert_parts parts f next_node)))"

definition after_mark :: "string list \<Rightarrow> string list" where
  "after_mark pathParts = tl (dropWhile (\<lambda>part. part \<noteq> ''kernel_management'') pathParts)"

text \<open>The names that an object has without any path component having been added: those of a file
  entry, and those every object inherits.\<close>

definition taken_names :: "string list" where
  "taken_names = [''isFile'', ''path'', ''diffData'', ''constructor'', ''__defineGetter__'', ''__defineSetter__'',
     ''hasOwnProperty'', ''__lookupGetter__'', ''__lookupSetter__'', ''isPrototypeOf'', ''propertyIsEnumerable'',
     ''toString'', ''valueOf'', ''__proto__'', ''toLocaleString'']"

definition tree_path :: "string \<Rightarrow> string list" where
  "tree_path path = after_mark (split_on CHR ''/'' path)"

definition createPathTree :: "diff_entry list \<Rightarrow> jnode" where
  "createPathTree paths = foldl (\<lambda>pathTree d. insert_parts (tree_path (fst d)) d pathTree) empty_obj paths"

section \<open>The page\<close>

definition is_index :: "string \<Rightarrow> bool" where
  "is_index s \<longleftrightarrow> list_all dec s \<and> s = decs (dec_val s) \<and> dec_val s < 2 ^ 32 - 1"

definition own_keys :: "(string \<times> 'a) list \<Rightarrow> (string \<times> 'a) list" where
  "own_keys ks = sort_key (\<lambda>(k, v). dec_val k) (filter (\<lambda>(k, v). is_index k) ks) @
     filter (\<lambda>(k, v). \<not> is_index k) ks"

definition TABS :: "nat \<Rightarrow> string" where
  "TABS n = replicate n CHR 0x09"

definition file_item :: "string \<Rightarrow> string \<Rightarrow> string" where
  "file_item path key =
     ''<li id='' @ QUOTE @ path @ QUOTE @ '' onclick='' @ QUOTE @ ''selectFile(this.id)'' @ QUOTE @ ''>'' @ key @ ''</li>'' @
     ''<script type='' @ QUOTE @ ''text/javascript'' @ QUOTE @ ''>'' @
     QUOTE @ path @ QUOTE @ ''.click(function() {'' @ [CHR 0x0A] @
     TABS 4 @ ''selectFile(node[key].diffData);'' @ [CHR 0x0A] @ TABS 3 @ ''});'' @ ''</script>''"

definition folder_open :: "string \<Rightarrow> string" where
  "folder_open key = ''<details close><summary class='' @ QUOTE @ ''folder'' @ QUOTE @ ''>'' @ key @ ''</summary>'' @ ''<ul>''"

definition folder_close :: string where
  "folder_close = ''</ul>'' @ ''</details>''"

fun generateHtmlTree :: "jnode \<Rightarrow> string" where
  "generateHtmlTree (JNode f ks) =
     concat (map snd (own_keys (map (\<lambda>(key, c).
       (key, case jfile c of
               Some (path, d) \<Rightarrow> file_item path key
             | None \<Rightarrow> folder_open key @ generateHtmlTree c @ folder_close)) ks)))"

section \<open>The directory of one version\<close>

definition not_selected :: string where
  "not_selected = ''No kernel version has been selected yet!!<br>Please select a kernel version to compare''"

definition basename :: "string \<Rightarrow> string" where
  "basename p = last (split_on CHR ''/'' (rev (dropWhile (\<lambda>c. c = CHR ''/'') (rev p))))"

record browser =
  selected_1 :: "string option"
  selected_2 :: "string option"
  diff_log :: "diff_entry list"
  html_list :: string
  html_cnt :: nat

definition say :: "string \<Rightarrow> browser \<Rightarrow> browser" where
  "say s b = b\<lparr>html_list := html_list b @ s\<rparr>"

definition counted :: "browser \<Rightarrow> browser" where
  "counted b = b\<lparr>html_cnt := html_cnt b + 1\<rparr>"

definition folder_head :: "string \<Rightarrow> string" where
  "folder_head nm = ''<details close> <summary class='' @ QUOTE @ ''folder'' @ QUOTE @ ''>'' @ nm @ ''</summary>'' @ ''<ul>''"

definition list_item :: "string \<Rightarrow> string" where
  "list_item filename =
     ''<li id='' @ QUOTE @ filename @ QUOTE @ '' onclick='' @ QUOTE @ ''selectFile(this.id)'' @ QUOTE @ ''>'' @
     basename filename @ ''</li>''"

fun getDirectoryArchitectureToJSONformat :: "nat \<Rightarrow> node_fs \<Rightarrow> string \<Rightarrow> browser \<Rightarrow> (string option \<times> browser) option"
and list_children :: "nat \<Rightarrow> node_fs \<Rightarrow> string \<Rightarrow> string list \<Rightarrow> browser \<Rightarrow> (bool \<times> browser) option" where
  "getDirectoryArchitectureToJSONformat 0 fs filename b = None"
| "getDirectoryArchitectureToJSONformat (Suc fuel) fs filename b =
     (if strstr filename ''Vundefined'' \<noteq> Some 0 then Some (Some not_selected, b)
      else
        (case is_directory_at fs filename of
           None \<Rightarrow> Some (None, b)
         | Some True \<Rightarrow>
             (let b = say (folder_head (basename filename)) b in
              case readdirSync fs filename of
                None \<Rightarrow> Some (None, b)
              | Some children \<Rightarrow>
                  (case list_children fuel fs filename children b of
                     None \<Rightarrow> None
                   | Some (False, b) \<Rightarrow> Some (None, b)
                   | Some (True, b) \<Rightarrow>
                       (let b = counted (say ''</ul></details></li>'' b) in Some (Some (html_list b), b))))
         | Some False \<Rightarrow>
             (let b = counted (say (list_item filename) b) in Some (Some (html_list b), b))))"
| "list_children fuel fs filename [] b = Some (True, b)"
| "list_children fuel fs filename (child # children) b =
     (case getDirectoryArchitectureToJSONformat fuel fs (filename @ ''/'' @ child) b of
        None \<Rightarrow> None
      | Some (None, b) \<Rightarrow> Some (False, b)
      | Some (Some r, b) \<Rightarrow> list_children fuel fs filename children b)"

section \<open>The handlers\<close>

datatype response = Sent string | Failed | Crashed | Unanswered

definition kernel_dir_path :: string where
  "kernel_dir_path = ''/home/keti/oslab_profiler/kernel_management''"

definition kernel_dir_org :: string where
  "kernel_dir_org = kernel_dir_path @ ''/ORG''"

definition text_of :: "string option \<Rightarrow> string" where
  "text_of q = (case q of None \<Rightarrow> ''undefined'' | Some s \<Rightarrow> s)"

definition diff_command :: "string option \<Rightarrow> string option \<Rightarrow> string" where
  "diff_command q1 q2 =
     (let kernel_1 = kernel_dir_path @ ''/V'' @ text_of q1 @ ''/kernel-source__molt'';
          kernel_2 = kernel_dir_path @ ''/V'' @ text_of q2 @ ''/kernel-source__molt'';
          kernel_org = kernel_dir_org @ ''/kernel-source'' in
      ''./comp_kernel/ssu_diff '' @ kernel_org @ '' '' @ kernel_1 @ '' '' @ kernel_2)"

definition getDirectoryJSON :: "nat \<Rightarrow> node_fs \<Rightarrow> (string \<Rightarrow> string option) \<Rightarrow> string option \<Rightarrow> string option
    \<Rightarrow> browser \<Rightarrow> (response \<times> browser) option" where
  "getDirectoryJSON fuel fs execSync q1 q2 b =
     (let b = b\<lparr>selected_1 := q1, selected_2 := q2, html_list := ''<ul>''\<rparr> in
      if js_number q2 = NaN then
        (case getDirectoryArchitectureToJSONformat fuel fs (kernel_dir_path @ ''/V'' @ text_of q1 @ ''/linux'') b of
           None \<Rightarrow> None
         | Some (None, b) \<Rightarrow> Some (Failed, b)
         | Some (Some json_list, b) \<Rightarrow>
             (let b = b\<lparr>html_list := json_list @ ''</ul>''\<rparr> in Some (Sent (html_list b), b)))
      else
        let b = b\<lparr>diff_log := []\<rparr> in
        (case execSync (diff_command q1 q2) of
           None \<Rightarrow> Some (Failed, b)
         | Some stdout \<Rightarrow>
             let b = b\<lparr>diff_log := diff_entries (split_on CHR 0x0A stdout)\<rparr> in
             if diff_log b \<noteq> [] then Some (Sent (generateHtmlTree (createPathTree (diff_log b))), b)
             else Some (Unanswered, b)))"

definition viewFile :: "files \<Rightarrow> browser \<Rightarrow> string \<Rightarrow> response" where
  "viewFile fs b file_path =
     (if selected_2 b = None \<or> selected_2 b = Some [] then
        (case fs file_path of None \<Rightarrow> Crashed | Some contents \<Rightarrow> Sent contents)
      else if diff_log b = [] then Failed
      else
        (case find (\<lambda>l. fst l = file_path) (diff_log b) of
           None \<Rightarrow> Unanswered
         | Some l \<Rightarrow> Sent (joined CHR 0x0A (snd l))))"

definition get_pre_function_name :: "string \<Rightarrow> string option" where
  "get_pre_function_name function_name =
     (case strstr function_name ''_platform'' of
        Some index \<Rightarrow> Some (take index function_name)
      | None \<Rightarrow>
          (case strstr function_name ''_driver'' of
             Some index \<Rightarrow> Some (take index function_name)
           | None \<Rightarrow> None))"

section \<open>What ssu_diff prints is what the server keeps\<close>

definition entry_lines :: "diff_entry \<Rightarrow> string list" where
  "entry_lines e = (''diff '' @ fst e) # snd e"

definition out_text :: "string list \<Rightarrow> string" where
  "out_text ls = concat (map (\<lambda>l. l @ [CHR 0x0A]) ls)"

definition plain_line :: "string \<Rightarrow> bool" where
  "plain_line l \<longleftrightarrow> CHR 0x0A \<notin> set l \<and> \<not> prefix ''diff '' l"

definition plain_entry :: "diff_entry \<Rightarrow> bool" where
  "plain_entry e \<longleftrightarrow> CHR 0x0A \<notin> set (fst e) \<and> list_all plain_line (snd e)"

definition kept :: "diff_entry list \<Rightarrow> diff_entry list" where
  "kept gs = (if gs = [] then [] else butlast gs @ [(fst (last gs), snd (last gs) @ [[]])])"

lemma split_out_text: "list_all (\<lambda>l. CHR 0x0A \<notin> set l) ls \<Longrightarrow> split_on CHR 0x0A (out_text ls) = ls @ [[]]"
  by (induction ls) (simp_all add: out_text_def split_on_append split_on_notin)

lemma foldl_plain:
  "list_all plain_line ls \<Longrightarrow>
   foldl diff_line (lg, cur) ls = (lg, map_option (\<lambda>(p, d). (p, d @ ls)) cur)"
proof (induction ls arbitrary: cur)
  case Nil
  then show ?case by (cases cur) auto
next
  case (Cons l ls)
  then show ?case by (cases cur) (auto simp: diff_line_def plain_line_def)
qed

lemma foldl_entries:
  "list_all plain_entry gs \<Longrightarrow> gs \<noteq> [] \<Longrightarrow>
   foldl diff_line (lg, cur) (concat (map entry_lines gs)) =
     (lg @ (case cur of None \<Rightarrow> [] | Some c \<Rightarrow> [c]) @ butlast gs, Some (last gs))"
proof (induction gs arbitrary: lg cur)
  case (Cons g gs)
  have "foldl diff_line (lg, cur) (entry_lines g) = (lg @ (case cur of None \<Rightarrow> [] | Some c \<Rightarrow> [c]), Some g)"
    using Cons.prems foldl_plain [of "snd g"]
    by (cases cur) (simp_all add: entry_lines_def diff_line_def plain_entry_def)
  then show ?case using Cons by (cases "gs = []") simp_all
qed simp

lemma diff_entries_kept:
  assumes "list_all plain_line pre" "list_all plain_entry gs"
  shows "diff_entries (split_on CHR 0x0A (out_text (pre @ concat (map entry_lines gs)))) = kept gs"
proof -
  have "list_all (\<lambda>l. CHR 0x0A \<notin> set l) (pre @ concat (map entry_lines gs))"
    using assms by (auto simp: list_all_iff plain_line_def plain_entry_def entry_lines_def)
  note split = split_out_text [OF this]
  have e: "plain_line []" by (simp add: plain_line_def)
  show ?thesis
  proof (cases "gs = []")
    case True
    have "foldl diff_line ([], None) (pre @ [[]]) = ([], None)"
      using assms foldl_plain [of "pre @ [[]]" "[]" None] e by simp
    then show ?thesis using split True by (simp add: diff_entries_def kept_def del: foldl_append)
  next
    case False
    then show ?thesis using assms foldl_plain [of pre "[]" None] foldl_entries [OF assms(2) False, of "[]" None]
        foldl_plain [of "[[]]" "butlast gs" "Some (last gs)"] e
      by (simp add: split diff_entries_def kept_def case_prod_unfold del: foldl_Cons)
  qed
qed

lemma kept_paths: "map fst (kept gs) = map fst gs"
  by (cases gs rule: rev_cases) (simp_all add: kept_def)

section \<open>Where the tree keeps an entry\<close>

fun node_at :: "jnode \<Rightarrow> string list \<Rightarrow> jnode option" where
  "node_at n [] = Some n"
| "node_at n (k # ks) = (case map_of (kids n) k of None \<Rightarrow> None | Some c \<Rightarrow> node_at c ks)"

lemma map_of_obj_set [simp]: "map_of (obj_set ks k v) = (map_of ks)(k \<mapsto> v)"
  by (induction ks k v rule: obj_set.induct) (auto simp: fun_eq_iff)

lemma node_at_inserted: "parts \<noteq> [] \<Longrightarrow> node_at (insert_parts parts f n) parts = Some (JNode (Some f) [])"
  by (induction parts f n rule: insert_parts.induct) (simp_all add: Let_def)

lemma jfile_empty [simp]: "jfile empty_obj = None"
  by (simp add: empty_obj_def)

lemma node_at_empty: "node_at empty_obj q = (if q = [] then Some empty_obj else None)"
  by (cases q) (simp_all add: empty_obj_def)

lemma node_at_other: "parts \<parallel> q \<Longrightarrow> node_at (insert_parts parts f n) q = node_at n q"
proof (induction parts f n arbitrary: q rule: insert_parts.induct)
  case (2 part f n)
  then obtain k ks where "q = k # ks" "k \<noteq> part" by (cases q) auto
  then show ?case by simp
next
  case (3 part p ps f n)
  then obtain k ks where q: "q = k # ks" "k = part \<longrightarrow> p # ps \<parallel> ks"
    by (cases q) (auto simp: parallel_def)
  then have "ks \<noteq> []" if "k = part" using that by auto
  then show ?case using 3 q
    by (auto simp: Let_def node_at_empty split: option.split)
qed auto

lemma node_at_file:
  "node_at (insert_parts parts f n) r = Some m \<Longrightarrow> jfile m \<noteq> None \<Longrightarrow>
   r = parts \<or> (\<exists>m'. node_at n r = Some m' \<and> jfile m' \<noteq> None)"
proof (induction parts f n arbitrary: r rule: insert_parts.induct)
  case (2 part f n)
  then show ?case by (cases r; cases "tl r") (auto split: if_splits option.splits)
next
  case (3 part p ps f n)
  show ?case
  proof (cases r)
    case (Cons k ks)
    show ?thesis
    proof (cases "k = part")
      case True
      let ?c = "case map_of (kids n) part of None \<Rightarrow> empty_obj | Some c \<Rightarrow> c"
      have "node_at (insert_parts (p # ps) f ?c) ks = Some m" using 3(2) True Cons by (simp add: Let_def)
      then have "ks = p # ps \<or> (\<exists>m'. node_at ?c ks = Some m' \<and> jfile m' \<noteq> None)" using 3(1,3) by blast
      then show ?thesis using True Cons
        by (auto simp: node_at_empty split: option.splits if_splits)
    qed (use 3(2,3) Cons in \<open>auto simp: Let_def split: option.splits\<close>)
  qed (use 3(2,3) in \<open>auto simp: Let_def\<close>)
qed auto

lemma tree_file:
  "node_at (foldl (\<lambda>t d. insert_parts (tree_path (fst d)) d t) t gs) r = Some m \<Longrightarrow> jfile m \<noteq> None \<Longrightarrow>
   r \<in> (tree_path \<circ> fst) ` set gs \<or> (\<exists>m'. node_at t r = Some m' \<and> jfile m' \<noteq> None)"
proof (induction gs arbitrary: t)
  case (Cons g gs)
  then show ?case using node_at_file [of "tree_path (fst g)" g t r] by (fastforce simp del: node_at.simps)
qed auto

lemma tree_keeps:
  "\<forall>g\<in>set gs. tree_path (fst g) \<parallel> q \<Longrightarrow>
   node_at (foldl (\<lambda>t d. insert_parts (tree_path (fst d)) d t) t gs) q = node_at t q"
  by (induction gs arbitrary: t) (simp_all add: node_at_other)

definition apart :: "string list list \<Rightarrow> bool" where
  "apart qs \<longleftrightarrow> [] \<notin> set qs \<and> sorted_wrt (\<parallel>) qs"

lemma apart_prefix: "apart qs \<Longrightarrow> q \<in> set qs \<Longrightarrow> r \<in> set qs \<Longrightarrow> prefix r q \<Longrightarrow> r = q"
  unfolding apart_def
  by (induction qs) (auto simp: parallel_def)

lemma createPathTree_at:
  assumes "apart (map (tree_path \<circ> fst) gs)" "g \<in> set gs"
  shows "node_at (createPathTree gs) (tree_path (fst g)) = Some (JNode (Some g) [])"
proof -
  obtain us vs where gs: "gs = us @ g # vs" using assms(2) by (auto dest: split_list)
  have "\<forall>h\<in>set vs. tree_path (fst h) \<parallel> tree_path (fst g)" "tree_path (fst g) \<noteq> []"
    using assms(1) by (auto simp: gs apart_def sorted_wrt_append parallel_commute)
  then show ?thesis by (simp add: createPathTree_def gs tree_keeps node_at_inserted)
qed

lemma createPathTree_folders:
  assumes "apart (map (tree_path \<circ> fst) gs)" "g \<in> set gs" "strict_prefix r (tree_path (fst g))"
    "node_at (createPathTree gs) r = Some m"
  shows "jfile m = None"
proof (rule ccontr)
  assume "jfile m \<noteq> None"
  then have "r \<in> (tree_path \<circ> fst) ` set gs \<or> (\<exists>m'. node_at empty_obj r = Some m' \<and> jfile m' \<noteq> None)"
    using assms(4) tree_file unfolding createPathTree_def by blast
  then have "r \<in> (tree_path \<circ> fst) ` set gs" by (auto simp: node_at_empty split: if_splits)
  then show False using apart_prefix [OF assms(1), of "tree_path (fst g)" r] assms(2,3) by (auto simp: strict_prefix_def)
qed

section \<open>The page shows every entry\<close>

lemma set_own_keys: "set (own_keys ks) = set ks"
  by (auto simp: own_keys_def)

lemma sublist_concat_elem: "x \<in> set xs \<Longrightarrow> sublist x (concat xs)"
  by (auto dest!: split_list)

lemma page_shows:
  "q \<noteq> [] \<Longrightarrow> node_at t q = Some m \<Longrightarrow> jfile m = Some (p, d) \<Longrightarrow>
   (\<And>r n. r \<noteq> [] \<Longrightarrow> strict_prefix r q \<Longrightarrow> node_at t r = Some n \<Longrightarrow> jfile n = None) \<Longrightarrow>
   sublist (file_item p (last q)) (generateHtmlTree t)"
proof (induction q arbitrary: t)
  case (Cons k ks)
  obtain f cs where t: "t = JNode f cs" by (cases t)
  obtain c where c: "map_of cs k = Some c" "node_at c ks = Some m"
    using Cons.prems(2) by (auto simp: t split: option.splits)
  let ?html = "case jfile c of Some (path, d) \<Rightarrow> file_item path k | None \<Rightarrow> folder_open k @ generateHtmlTree c @ folder_close"
  have "?html \<in> snd ` set (own_keys (map (\<lambda>(key, c).
       (key, case jfile c of
               Some (path, d) \<Rightarrow> file_item path key
             | None \<Rightarrow> folder_open key @ generateHtmlTree c @ folder_close)) cs))"
    using map_of_SomeD [OF c(1)] unfolding set_own_keys by (force simp: image_iff)
  then have page: "sublist ?html (generateHtmlTree t)" by (simp add: t sublist_concat_elem)
  show ?case
  proof (cases "ks = []")
    case True
    then show ?thesis using c(2) Cons.prems(3) page by simp
  next
    case False
    have "jfile c = None" using Cons.prems(4) [of "[k]" c] c False by (simp add: t strict_prefix_def)
    moreover have "sublist (file_item p (last ks)) (generateHtmlTree c)"
    proof (rule Cons.IH [OF False c(2) Cons.prems(3)])
      fix r n assume "r \<noteq> []" "strict_prefix r ks" "node_at c r = Some n"
      then show "jfile n = None" using Cons.prems(4) [of "k # r" n] c(1) by (simp add: t)
    qed
    moreover have "sublist (generateHtmlTree c) (folder_open k @ generateHtmlTree c @ folder_close)" by auto
    ultimately show ?thesis using page False by (metis last_ConsR option.simps(4) sublist_order.order_trans)
  qed
qed simp

lemma apart_distinct: "apart qs \<Longrightarrow> distinct qs"
  unfolding apart_def by (induction qs) (auto simp: parallel_def)

lemma find_kept:
  assumes "distinct (map fst gs)" "(p, d) \<in> set gs"
  shows "\<exists>d'\<in>{d, d @ [[]]}. find (\<lambda>l. fst l = p) (kept gs) = Some (p, d') \<and> (p, d') \<in> set (kept gs)"
proof -
  have "(p, d) \<in> set (kept gs) \<or> (p, d @ [[]]) \<in> set (kept gs)"
    using assms(2) by (cases gs rule: rev_cases) (auto simp: kept_def)
  moreover have "find (\<lambda>l. fst l = p) xs = Some (p, e)" if "(p, e) \<in> set xs" "distinct (map fst xs)" for e and xs :: "diff_entry list"
    using that by (induction xs) force+
  moreover have "distinct (map fst (kept gs))" using assms(1) by (simp add: kept_paths)
  ultimately show ?thesis by blast
qed

lemma kept_apart: "apart (map (tree_path \<circ> fst) (kept gs)) \<longleftrightarrow> apart (map (tree_path \<circ> fst) gs)"
  using kept_paths [of gs] by (metis list.map_comp)

lemma getDirectoryJSON_shows:
  assumes "execSync (diff_command q1 (Some v)) = Some (out_text (pre @ concat (map entry_lines gs)))"
    and "list_all plain_line pre" "list_all plain_entry gs" "apart (map (tree_path \<circ> fst) gs)"
    and "js_number (Some v) \<noteq> NaN" "v \<noteq> []" "(p, d) \<in> set gs"
  shows "\<exists>page b'. getDirectoryJSON fuel fs execSync q1 (Some v) b = Some (Sent page, b') \<and>
    sublist (file_item p (last (tree_path p))) page \<and>
    (\<exists>d'\<in>{d, d @ [[]]}. viewFile ds b' p = Sent (joined CHR 0x0A d'))"
proof -
  let ?t = "createPathTree (kept gs)"
  have ap: "apart (map (tree_path \<circ> fst) (kept gs))" using assms(4) kept_apart by blast
  have "distinct (map fst gs)" using apart_distinct [OF assms(4)] by (metis distinct_map list.map_comp)
  then obtain d' where d': "d' \<in> {d, d @ [[]]}" "find (\<lambda>l. fst l = p) (kept gs) = Some (p, d')" "(p, d') \<in> set (kept gs)"
    using find_kept [OF _ assms(7)] by blast
  have at: "node_at ?t (tree_path p) = Some (JNode (Some (p, d')) [])"
    using createPathTree_at [OF ap d'(3)] by simp
  have "tree_path p \<in> set (map (tree_path \<circ> fst) gs)" using assms(7) by force
  then have "tree_path p \<noteq> []" using assms(4) by (metis apart_def)
  then have "sublist (file_item p (last (tree_path p))) (generateHtmlTree ?t)"
    using page_shows [OF _ at, of p d'] createPathTree_folders [OF ap d'(3)] by simp
  then show ?thesis using assms(1,5,6) d' diff_entries_kept [OF assms(2,3)]
    by (auto simp: getDirectoryJSON_def viewFile_def Let_def)
qed

section \<open>The directory of one version is never listed\<close>

lemma strstr_start: "strstr (c # s) (d # t) = Some 0 \<Longrightarrow> c = d"
  by (auto split: if_splits option.splits)

text \<open>C28: the source tree of a single version is never shown: without a second version the handler
  answers, whatever version was selected and whatever the file system holds, with the message that no
  version has been selected, because the position \<open>-1\<close> of a search that fails counts as true.\<close>
theorem directory_never_listed:
  assumes "js_number q2 = NaN"
  shows "\<exists>b'. getDirectoryJSON (Suc fuel) fs execSync q1 q2 b = Some (Sent (not_selected @ ''</ul>''), b')"
proof -
  have "strstr (kernel_dir_path @ x) ''Vundefined'' \<noteq> Some 0" for x
    using strstr_start by (fastforce simp: kernel_dir_path_def)
  then show ?thesis using assms by (simp add: getDirectoryJSON_def Let_def)
qed

theorem directory_never_listed_witness:
  "\<exists>b'. getDirectoryJSON 1 demo_fs (\<lambda>c. None) (Some ''1'') None
     \<lparr>selected_1 = None, selected_2 = None, diff_log = [], html_list = [], html_cnt = 0\<rparr> =
     Some (Sent (not_selected @ ''</ul>''), b')"
  using directory_never_listed [of None 0 demo_fs "\<lambda>c. None" "Some ''1''"
      "\<lparr>selected_1 = None, selected_2 = None, diff_log = [], html_list = [], html_cnt = 0\<rparr>"]
  by (simp add: js_number_def)

end
