(* ===== verification/Browse.thy ===== *)
theory Browse
  imports DiffView SsuDiff
begin

text \<open>
  From the comparison of two molts to the web page: the server runs \<^verbatim>\<open>ssu_diff\<close>
  (\<^verbatim>\<open>comp_kernel/ssu_diff.c\<close>) on two versions and shows what it reports.
\<close>

section \<open>What ssu_diff prints, as entries\<close>

definition molt_base :: "nat \<Rightarrow> string" where
  "molt_base v = kernel_dir_path @ ''/V'' @ decs v @ ''/kernel-source''"

definition org_tree :: string where
  "org_tree = kernel_dir_org @ ''/kernel-source''"

text \<open>\<open>diff\<close> in its normal format prints whole lines, none of which begins with \<open>diff\<close> and a blank: a
  line is an edit command, a separator, a note, or begins with an angle bracket.\<close>

definition out_lines :: "string \<Rightarrow> string list" where
  "out_lines s = butlast (split_on CHR 0x0A s)"

definition normal_diff :: "(string \<Rightarrow> fs \<Rightarrow> string) \<Rightarrow> bool" where
  "normal_diff po \<longleftrightarrow> (\<forall>c f. cstring (po c f) \<and> po c f = out_text (out_lines (po c f)) \<and>
     list_all plain_line (out_lines (po c f)))"

definition entry_of :: "(string \<Rightarrow> fs \<Rightarrow> string) \<Rightarrow> fs \<Rightarrow> string \<times> string \<Rightarrow> diff_entry" where
  "entry_of po f p = (snd p, out_lines (po (diff_cmd (fst p) (snd p)) f))"

definition stdout_of :: "stop \<Rightarrow> string option" where
  "stdout_of st = (case st of Exit n w \<Rightarrow> if n = 0 then Some (outs w) else None | Undef u \<Rightarrow> None)"

lemma out_text_append: "out_text (xs @ ys) = out_text xs @ out_text ys"
  by (simp add: out_text_def)

lemma emit1_entry:
  assumes "normal_diff po"
  shows "emit1 po p1 p2 f = out_text (entry_lines (entry_of po f (p1, p2)))"
proof -
  have "copy_lines (po (diff_cmd p1 p2) f) = out_text (out_lines (po (diff_cmd p1 p2) f))"
    using assms copy_lines_cstring by (metis normal_diff_def)
  then show ?thesis by (simp add: emit1_def entry_lines_def entry_of_def out_text_def NL_def)
qed

lemma report_entries:
  assumes "normal_diff po"
  shows "concat (map (report (emit1 po) f A B op m1 m2) rs) =
    out_text (concat (map entry_lines (map (\<lambda>r. entry_of po f (pair_of f A B op m1 m2 r)) rs)))"
  by (induction rs)
    (simp_all add: report_def emit1_entry [OF assms] out_text_append case_prod_unfold, simp_all add: out_text_def)

definition banner_lines :: "string \<Rightarrow> string \<Rightarrow> string list" where
  "banner_lines b1 b2 = [''skin_path : '' @ b1 @ ''__skin | '' @ b2 @ ''__skin'',
     ''molt_path : '' @ b1 @ ''__molt | '' @ b2 @ ''__molt'', '' '' @ b1 @ ''__skin '' @ b2 @ ''__skin'']"

lemma banner_out: "banner b1 b2 = out_text (banner_lines b1 b2)"
  by (simp add: banner_def banner_lines_def out_text_def NL_def)

lemma decs_plain: "c \<in> set (decs n) \<Longrightarrow> c \<noteq> CHR 0x0A \<and> c \<noteq> CHR ''/''"
  using dec_decs [of n] by (auto simp: list_all_iff dec_def)

lemma banner_plain: "list_all plain_line (banner_lines (molt_base v1) (molt_base v2))"
  using decs_plain [of "CHR 0x0A"] by (auto simp: banner_lines_def plain_line_def molt_base_def kernel_dir_path_def)

section \<open>Where the entries go\<close>

lemma split_join_path:
  "\<forall>n\<in>set r. CHR ''/'' \<notin> set n \<Longrightarrow> split_on CHR ''/'' (m @ join_path r) = split_on CHR ''/'' m @ r"
proof (induction r arbitrary: m)
  case (Cons n r)
  then have "split_on CHR ''/'' ((m @ CHR ''/'' # n) @ join_path r) = split_on CHR ''/'' m @ n # r"
    by (subst Cons.IH) (simp_all add: split_on_append split_on_notin)
  then show ?case by (simp add: SLASH_def)
qed simp

definition top_of :: "string list \<Rightarrow> string list" where
  "top_of ds = [''home'', ''keti'', ''oslab_profiler'', ''kernel_management''] @ ds"

lemma split_dir: "split_on CHR ''/'' (kernel_dir_path @ CHR ''/'' # s) = [] # top_of (split_on CHR ''/'' s)"
  by (simp add: split_on_append top_of_def kernel_dir_path_def)

lemma tree_path_under:
  assumes "\<forall>n\<in>set r. CHR ''/'' \<notin> set n"
  shows "tree_path (molt_base v @ ''__molt'' @ join_path r) = [''V'' @ decs v, ''kernel-source__molt''] @ r"
    "tree_path (org_tree @ join_path r) = [''ORG'', ''kernel-source''] @ r"
proof -
  have "CHR ''/'' \<notin> set (decs v)" using decs_plain [of "CHR ''/''" v] by blast
  then have "split_on CHR ''/'' (CHR ''V'' # decs v @ CHR ''/'' # ''kernel-source__molt'') = [''V'' @ decs v, ''kernel-source__molt'']"
    using split_on_append [of "CHR ''/''" "CHR ''V'' # decs v" "''kernel-source__molt''"] by (simp add: split_on_notin)
  then have "split_on CHR ''/'' (molt_base v @ ''__molt'') = [] # top_of [''V'' @ decs v, ''kernel-source__molt'']"
    using split_dir [of "CHR ''V'' # decs v @ CHR ''/'' # ''kernel-source__molt''"] by (simp add: molt_base_def)
  then show "tree_path (molt_base v @ ''__molt'' @ join_path r) = [''V'' @ decs v, ''kernel-source__molt''] @ r"
    using split_join_path [OF assms, of "molt_base v @ ''__molt''"] by (simp add: tree_path_def after_mark_def top_of_def)
  have "split_on CHR ''/'' org_tree = [] # top_of [''ORG'', ''kernel-source'']"
    using split_dir [of "''ORG/kernel-source''"] by (simp add: org_tree_def kernel_dir_org_def)
  then show "tree_path (org_tree @ join_path r) = [''ORG'', ''kernel-source''] @ r"
    using split_join_path [OF assms, of org_tree] by (simp add: tree_path_def after_mark_def top_of_def)
qed

lemma reported_file:
  assumes "reported f Or A B SA SB r"
  shows "fs_get f (A @ r) \<noteq> Some Directory \<or> fs_get f (B @ r) \<noteq> Some Directory"
    "fs_get f (A @ r) \<noteq> None \<or> fs_get f (B @ r) \<noteq> None"
  using assms by (auto simp: reported_def reported_at_def is_reg_def names_in_def)

lemma reported_names:
  assumes "fs_wf f" "reported f Or A B SA SB r" "n \<in> set r"
  shows "CHR ''/'' \<notin> set n"
  using reported_file(2) [OF assms(2)] fstore.names_valid [OF assms(1), of "A @ r" n]
    fstore.names_valid [OF assms(1), of "B @ r" n] assms(3)
  by (auto simp: valid_name_def SLASH_def)

lemma reported_apart:
  assumes "fs_wf f" "reported f Or A B SA SB r" "reported f Or A B SA SB r'" "r \<noteq> r'"
  shows "r \<parallel> r'"
proof -
  have below: False if a: "reported f Or A B SA SB r" "reported f Or A B SA SB r'" "strict_prefix r r'" for r r'
  proof -
    from a(2) obtain q n where q: "r' = q @ [n]" "common_dir f A B q" by (auto simp: reported_def)
    then have "prefix r q" using a(3) by (auto simp: strict_prefix_def)
    then obtain s where "q = r @ s" by (auto simp: prefix_def)
    then have d: "fs_get f ((A @ r) @ s) = Some Directory" "fs_get f ((B @ r) @ s) = Some Directory"
      using q(2) by (simp_all add: common_dir_def)
    have "fs_get f p = Some Directory" if "fs_get f (p @ s) = Some Directory" for p
      using that fstore.get_above [OF assms(1), of p "hd s" "tl s"] by (cases s) auto
    from this [OF d(1)] this [OF d(2)] have "fs_get f (A @ r) = Some Directory" "fs_get f (B @ r) = Some Directory" .
    then show False using reported_file(1) [OF a(1)] by simp
  qed
  show ?thesis using below [of r r'] below [of r' r] assms(2-4) by (auto simp: parallel_def strict_prefix_def)
qed

lemma sorted_wrt_map: "distinct xs \<Longrightarrow> (\<And>x y. x \<in> set xs \<Longrightarrow> y \<in> set xs \<Longrightarrow> x \<noteq> y \<Longrightarrow> P (f x) (f y)) \<Longrightarrow> sorted_wrt P (map f xs)"
  by (induction xs) auto

lemma pair_tree_path:
  assumes "fs_wf f" "reported f Or A B SA SB r"
  shows "tree_path (snd (pair_of f A B org_tree m1 (molt_base v @ ''__molt'') r)) =
    (if fs_get f (A @ r) \<noteq> None \<and> fs_get f (B @ r) = None then [''ORG'', ''kernel-source''] @ r
     else [''V'' @ decs v, ''kernel-source__molt''] @ r)"
  using tree_path_under(1) [of r v] tree_path_under(2) [of r] reported_names [OF assms] by (auto simp: pair_of_def)

lemma entries_apart:
  assumes "fs_wf f" "distinct rs" "\<forall>r\<in>set rs. reported f Or A B SA SB r"
  shows "apart (map (tree_path \<circ> fst) (map (\<lambda>r. entry_of po f (pair_of f A B org_tree m1 (molt_base v @ ''__molt'') r)) rs))"
proof -
  let ?t = "\<lambda>r. tree_path (snd (pair_of f A B org_tree m1 (molt_base v @ ''__molt'') r))"
  have "?t x \<parallel> ?t y" if "x \<in> set rs" "y \<in> set rs" "x \<noteq> y" for x y
  proof -
    have "x \<parallel> y" using reported_apart [OF assms(1)] assms(3) that by blast
    moreover have "reported f Or A B SA SB x" "reported f Or A B SA SB y" using that assms(3) by blast+
    ultimately show ?thesis
      by (simp only: pair_tree_path [OF assms(1)] parallel_def) (simp add: parallel_def)
  qed
  then have "sorted_wrt (\<parallel>) (map ?t rs)" using assms(2) by (intro sorted_wrt_map)
  moreover have "?t x \<noteq> []" if "x \<in> set rs" for x
    using pair_tree_path [OF assms(1), of Or A B SA SB x m1 v] assms(3) that by simp
  then have "[] \<notin> set (map ?t rs)" by (metis (no_types, lifting) imageE list.set_map)
  moreover have "map (tree_path \<circ> fst) (map (\<lambda>r. entry_of po f (pair_of f A B org_tree m1 (molt_base v @ ''__molt'') r)) rs) = map ?t rs"
    by (simp add: entry_of_def)
  ultimately show ?thesis by (simp only: apart_def simp_thms not_False_eq_True)
qed

lemma pair_plain:
  assumes "\<forall>n\<in>set r. CHR 0x0A \<notin> set n"
  shows "CHR 0x0A \<notin> set (snd (pair_of f A B org_tree m1 (molt_base v @ ''__molt'') r))"
proof -
  have "CHR 0x0A \<notin> set (join_path r)" using assms by (induction r) (auto simp: SLASH_def)
  then show ?thesis using decs_plain [of "CHR 0x0A" v]
    by (auto simp: pair_of_def molt_base_def org_tree_def kernel_dir_org_def kernel_dir_path_def)
qed

section \<open>Properties\<close>

text \<open>C2: a change between two versions can be seen in the browser.  When the server compares the molts
  of two versions with \<open>ssu_diff\<close>, every file that differs is an entry of the page that it sends, under its
  name, and asking for that entry afterwards returns the lines \<open>diff\<close> printed for the file and for no
  other.\<close>
theorem changes_browsable:
  assumes run: "execSync (diff_command (Some (decs v1)) (Some (decs v2))) =
      stdout_of (ssu_diff_main po prog [org_tree, molt_base v1 @ ''__molt'', molt_base v2 @ ''__molt''] w)"
    and po: "normal_diff po" and w: "outs w = []"
    and args: "cmp_args w org_tree (molt_base v1 @ ''__molt'') (molt_base v2 @ ''__molt'') (molt_base v1 @ ''__skin'')
      (molt_base v2 @ ''__skin'') Or A B SA SB"
    and pre: "cmp_pre (files w) org_tree (molt_base v1 @ ''__molt'') (molt_base v2 @ ''__molt'') (molt_base v1 @ ''__skin'')
      (molt_base v2 @ ''__skin'') Or A B SA SB"
    and names: "\<forall>r. reported (files w) Or A B SA SB r \<longrightarrow> (\<forall>n\<in>set r. CHR 0x0A \<notin> set n \<and> n \<notin> set taken_names)"
    and rep: "reported (files w) Or A B SA SB r"
    and pair: "pair_of (files w) A B org_tree (molt_base v1 @ ''__molt'') (molt_base v2 @ ''__molt'') r = (p1, p2)"
  shows "\<exists>page b'. getDirectoryJSON fuel fs execSync (Some (decs v1)) (Some (decs v2)) b = Some (Sent page, b') \<and>
    sublist (file_item p2 (last r)) page \<and>
    (let d = out_lines (po (diff_cmd p1 p2) (files w)) in
     \<exists>d'\<in>{d, d @ [[]]}. viewFile ds b' p2 = Sent (joined CHR 0x0A d'))"
proof -
  let ?m1 = "molt_base v1 @ ''__molt''" and ?m2 = "molt_base v2 @ ''__molt''"
  let ?e = "\<lambda>r. entry_of po (files w) (pair_of (files w) A B org_tree ?m1 ?m2 r)"
  have wf: "fs_wf (files w)" using args by (simp add: cmp_args_def)
  have abs: "hd org_tree = SLASH" "hd ?m1 = SLASH" "hd ?m2 = SLASH"
    by (simp_all add: org_tree_def molt_base_def kernel_dir_org_def kernel_dir_path_def SLASH_def)
  obtain rs where rs: "sorted_wrt (<) rs" "set rs = {r. reported (files w) Or A B SA SB r}"
    "stdout_of (ssu_diff_main po prog [org_tree, ?m1, ?m2] w) =
       Some (banner (molt_base v1) (molt_base v2) @ concat (map (report (emit1 po) (files w) A B org_tree ?m1 ?m2) rs))"
    using printer1.ssu_body_compared [OF abs args pre, of po prog] w
    by (auto simp: compared_def ssu_diff_main_def printf_out_def stdout_of_def)
  then have out: "execSync (diff_command (Some (decs v1)) (Some (decs v2))) =
      Some (out_text (banner_lines (molt_base v1) (molt_base v2) @ concat (map entry_lines (map ?e rs))))"
    using run by (simp add: banner_out report_entries [OF po] out_text_append)
  have all: "\<forall>r\<in>set rs. reported (files w) Or A B SA SB r" using rs(2) by simp
  have plain: "list_all plain_entry (map ?e rs)"
    using all names po by (auto simp: list_all_iff plain_entry_def entry_of_def normal_diff_def pair_plain)
  have num: "js_number (Some (decs v2)) \<noteq> NaN"
    by (simp add: js_number_decs round64_def Let_def)
  have "(p2, out_lines (po (diff_cmd p1 p2) (files w))) \<in> set (map ?e rs)"
    using rep rs(2) pair by (force simp: entry_of_def)
  moreover have "apart (map (tree_path \<circ> fst) (map ?e rs))"
    using rs(1) by (intro entries_apart [OF wf _ all]) (simp add: strict_sorted_iff)
  ultimately have "\<exists>page b'. getDirectoryJSON fuel fs execSync (Some (decs v1)) (Some (decs v2)) b = Some (Sent page, b') \<and>
    sublist (file_item p2 (last (tree_path p2))) page \<and>
    (\<exists>d'\<in>{out_lines (po (diff_cmd p1 p2) (files w)), out_lines (po (diff_cmd p1 p2) (files w)) @ [[]]}.
      viewFile ds b' p2 = Sent (joined CHR 0x0A d'))"
    using out banner_plain plain num decs_nonempty by (intro getDirectoryJSON_shows)
  moreover have "r \<noteq> []" using rep by (auto simp: reported_def)
  then have "last (tree_path p2) = last r" using pair_tree_path [OF wf rep, of ?m1 v2] pair by (auto split: if_splits)
  ultimately show ?thesis by (simp add: Let_def)
qed

section \<open>A concrete comparison\<close>

definition demo_top :: "string list" where
  "demo_top = [''home'', ''keti'', ''oslab_profiler'', ''kernel_management'']"

definition demo_tree :: fs where
  "demo_tree =
    [([''home''], Directory), ([''home'', ''keti''], Directory), ([''home'', ''keti'', ''oslab_profiler''], Directory),
     (demo_top, Directory), (demo_top @ [''ORG''], Directory), (demo_top @ [''V1''], Directory), (demo_top @ [''V2''], Directory),
     (demo_top @ [''ORG'', ''kernel-source''], Directory), (demo_top @ [''ORG'', ''kernel-source'', ''f''], Reg ''x''),
     (demo_top @ [''V1'', ''kernel-source__molt''], Directory), (demo_top @ [''V1'', ''kernel-source__molt'', ''f''], Reg ''y''),
     (demo_top @ [''V2'', ''kernel-source__molt''], Directory), (demo_top @ [''V2'', ''kernel-source__molt'', ''f''], Reg ''z''),
     (demo_top @ [''V1'', ''kernel-source__skin''], Directory),
     (demo_top @ [''V1'', ''kernel-source__skin'', ''f''], Reg (skin_rec (replicate 32 (CHR ''1'')) ''/a/f'')),
     (demo_top @ [''V2'', ''kernel-source__skin''], Directory),
     (demo_top @ [''V2'', ''kernel-source__skin'', ''f''], Reg (skin_rec (replicate 32 (CHR ''2'')) ''/b/f''))]"

definition demo_diff :: "string \<Rightarrow> fs \<Rightarrow> string" where
  "demo_diff c f = out_text [''1c1'', ''< y'', ''---'', ''> z'']"

lemma demo_diff_normal: "normal_diff demo_diff" "out_lines (demo_diff c f) = [''1c1'', ''< y'', ''---'', ''> z'']"
  by (simp_all add: normal_diff_def demo_diff_def out_lines_def out_text_def plain_line_def cstring_def NUL_def)

lemma demo_numbers: "decs 1 = ''1''" "decs (Suc 0) = ''1''" "decs 2 = ''2''"
  by code_simp+

lemma demo_args:
  "cmp_args (boot_world demo_tree) org_tree (molt_base 1 @ ''__molt'') (molt_base 2 @ ''__molt'') (molt_base 1 @ ''__skin'')
     (molt_base 2 @ ''__skin'') (demo_top @ [''ORG'', ''kernel-source'']) (demo_top @ [''V1'', ''kernel-source__molt''])
     (demo_top @ [''V2'', ''kernel-source__molt'']) (demo_top @ [''V1'', ''kernel-source__skin'']) (demo_top @ [''V2'', ''kernel-source__skin''])"
  by (simp add: cmp_args_def world_eval demo_tree_def demo_top_def org_tree_def molt_base_def kernel_dir_org_def
      kernel_dir_path_def demo_numbers)

lemma demo_pre:
  "cmp_pre demo_tree org_tree (molt_base 1 @ ''__molt'') (molt_base 2 @ ''__molt'') (molt_base 1 @ ''__skin'')
     (molt_base 2 @ ''__skin'') (demo_top @ [''ORG'', ''kernel-source'']) (demo_top @ [''V1'', ''kernel-source__molt''])
     (demo_top @ [''V2'', ''kernel-source__molt'']) (demo_top @ [''V1'', ''kernel-source__skin'']) (demo_top @ [''V2'', ''kernel-source__skin''])"
proof -
  have "wf_skin (skin_rec (replicate 32 (CHR ''1'')) ''/a/f'')" "wf_skin (skin_rec (replicate 32 (CHR ''2'')) ''/b/f'')"
    by (rule wf_skinI; simp add: cstring_def NUL_def)+
  note e = this fs_get_def demo_tree_def demo_top_def cmp_fits_def diff_cmd_def is_reg_def Let_def
    org_tree_def molt_base_def kernel_dir_org_def kernel_dir_path_def demo_numbers
  show ?thesis by (rule cmp_pre_check) (simp_all add: e)
qed

lemma demo_reported:
  "reported demo_tree (demo_top @ [''ORG'', ''kernel-source'']) (demo_top @ [''V1'', ''kernel-source__molt''])
     (demo_top @ [''V2'', ''kernel-source__molt'']) (demo_top @ [''V1'', ''kernel-source__skin''])
     (demo_top @ [''V2'', ''kernel-source__skin'']) [''f'']"
proof -
  have "reported_at demo_tree (demo_top @ [''ORG'', ''kernel-source'']) (demo_top @ [''V1'', ''kernel-source__molt''])
     (demo_top @ [''V2'', ''kernel-source__molt'']) (demo_top @ [''V1'', ''kernel-source__skin''])
     (demo_top @ [''V2'', ''kernel-source__skin'']) (names_in demo_tree (demo_top @ [''V1'', ''kernel-source__molt'']) [])
      (names_in demo_tree (demo_top @ [''V2'', ''kernel-source__molt'']) []) [] ''f''"
    by (simp add: reported_at_def names_in_def is_reg_def hash_of_def fs_get_def demo_tree_def demo_top_def skin_hash_def skin_rec_def)
  then show ?thesis
    unfolding reported_def by (auto simp: common_dir_def visible_def fs_get_def demo_tree_def demo_top_def)
qed

lemma demo_names:
  assumes "reported demo_tree Or A B SA SB r"
  shows "\<forall>n\<in>set r. CHR 0x0A \<notin> set n \<and> n \<notin> set taken_names"
proof -
  have "\<forall>k\<in>set (map fst demo_tree). \<forall>n\<in>set k. CHR 0x0A \<notin> set n \<and> n \<notin> set taken_names"
    by (simp add: demo_tree_def demo_top_def taken_names_def)
  moreover have "k \<in> set (map fst demo_tree)" if "fs_get demo_tree k \<noteq> None" "k \<noteq> []" for k
    using that by (auto simp: fs_get_def map_of_eq_None_iff)
  ultimately show ?thesis using reported_file(2) [OF assms] by (metis Un_iff append_is_Nil_conv empty_iff list.set(1) set_append)
qed

theorem changes_browsable_witness:
  "\<exists>page b'. getDirectoryJSON 1 demo_fs
      (\<lambda>c. stdout_of (ssu_diff_main demo_diff ''ssu_diff'' [org_tree, molt_base 1 @ ''__molt'', molt_base 2 @ ''__molt''] (boot_world demo_tree)))
      (Some (decs 1)) (Some (decs 2)) \<lparr>selected_1 = None, selected_2 = None, diff_log = [], html_list = [], html_cnt = 0\<rparr> =
      Some (Sent page, b') \<and>
    sublist (file_item ''/home/keti/oslab_profiler/kernel_management/V2/kernel-source__molt/f'' ''f'') page \<and>
    (\<exists>d'\<in>{[''1c1'', ''< y'', ''---'', ''> z''], [''1c1'', ''< y'', ''---'', ''> z'', []]}.
      viewFile Map.empty b' ''/home/keti/oslab_profiler/kernel_management/V2/kernel-source__molt/f'' = Sent (joined CHR 0x0A d'))"
proof -
  let ?p2 = "''/home/keti/oslab_profiler/kernel_management/V2/kernel-source__molt/f''"
  have w: "outs (boot_world demo_tree) = []" "files (boot_world demo_tree) = demo_tree" by (simp_all add: boot_world_def)
  have pair: "pair_of demo_tree (demo_top @ [''V1'', ''kernel-source__molt''])
     (demo_top @ [''V2'', ''kernel-source__molt'']) org_tree (molt_base 1 @ ''__molt'') (molt_base 2 @ ''__molt'') [''f''] =
     (molt_base 1 @ ''__molt/f'', ?p2)"
    by (simp add: pair_of_def fs_get_def demo_tree_def demo_top_def molt_base_def kernel_dir_path_def demo_numbers SLASH_def)
  show ?thesis
    using changes_browsable [where execSync = "\<lambda>c. stdout_of (ssu_diff_main demo_diff ''ssu_diff''
        [org_tree, molt_base 1 @ ''__molt'', molt_base 2 @ ''__molt''] (boot_world demo_tree))" and r = "[''f'']" and ds = Map.empty,
        OF refl demo_diff_normal(1) w(1) demo_args, unfolded w(2), OF demo_pre _ demo_reported pair] demo_names
    by (simp add: demo_diff_normal(2) Let_def)
qed

end
