(* ===== verification/Stats.thy ===== *)
theory Stats
  imports JsLang
begin

text \<open>
  Request statistics of the web server, \<^verbatim>\<open>3-3/src/start.js\<close>: a middleware notes the time at which a
  request arrives and, when its response is finished, updates two JSON files, the response times of
  every kind of request and the list of the kinds seen.  A file is modelled by the value it parses
  to, \<^const>\<open>None\<close> when it cannot be read or parsed; files with other contents than those the
  middleware writes are not modelled.  Requests overlap, so the server is a transition system.
\<close>

section \<open>The middleware\<close>

record request =
  req_method :: string
  req_route :: "string option"
  req_baseUrl :: "string option"

record stat =
  Count :: nat
  Time :: "(string \<times> int) list"

type_synonym stats = "(string \<times> stat) list"

record collector =
  s_time :: int
  e_time :: int
  report_json :: "stats option"
  httpcodereport_json :: "string list option option"

definition getRoute :: "request \<Rightarrow> string" where
  "getRoute req =
     (let route = (case req_route req of Some r \<Rightarrow> r | None \<Rightarrow> []);
          baseUrl = (case req_baseUrl req of Some b \<Rightarrow> b | None \<Rightarrow> []) in
      if route \<noteq> [] then (if baseUrl = ''/'' then [] else baseUrl) @ route else ''unknown route'')"

definition readStats :: "collector \<Rightarrow> stats" where
  "readStats c = (case report_json c of Some s \<Rightarrow> s | None \<Rightarrow> [])"

definition readHttpCode :: "collector \<Rightarrow> string list option" where
  "readHttpCode c = (case httpcodereport_json c of Some l \<Rightarrow> l | None \<Rightarrow> None)"

definition dumpStats :: "bool \<Rightarrow> stats \<Rightarrow> collector \<Rightarrow> collector" where
  "dumpStats ok s c = (if ok then c\<lparr>report_json := Some s\<rparr> else c)"

definition dumpHttpinfo :: "bool \<Rightarrow> string list option \<Rightarrow> collector \<Rightarrow> collector" where
  "dumpHttpinfo ok l c = (if ok then c\<lparr>httpcodereport_json := Some l\<rparr> else c)"

definition event_name :: "request \<Rightarrow> nat \<Rightarrow> string" where
  "event_name req statusCode = req_method req @ ''_'' @ getRoute req @ ''_'' @ decs statusCode"

definition add_time :: "int \<Rightarrow> stat \<Rightarrow> stat" where
  "add_time time st =
     (let n = (if Count st \<noteq> 0 then Count st + 1 else 1);
          tmp = ''Response_time_'' @ decs n in
      st\<lparr>Count := n, Time := Time st @ [(tmp, time)]\<rparr>)"

fun set_stat :: "string \<Rightarrow> (stat \<Rightarrow> stat) \<Rightarrow> stats \<Rightarrow> stats" where
  "set_stat ev f [] = [(ev, f \<lparr>Count = 0, Time = []\<rparr>)]"
| "set_stat ev f ((k, st) # ss) = (if k = ev then (k, f st) # ss else (k, st) # set_stat ev f ss)"

definition arrive :: "int \<Rightarrow> collector \<Rightarrow> collector" where
  "arrive now c = c\<lparr>s_time := now\<rparr>"

definition finish :: "bool \<Rightarrow> bool \<Rightarrow> request \<Rightarrow> nat \<Rightarrow> int \<Rightarrow> collector \<Rightarrow> collector" where
  "finish ok1 ok2 req statusCode now c =
     (let stats = readStats c;
          httpCode = readHttpCode c;
          event = event_name req statusCode;
          request_info = (case httpCode of None \<Rightarrow> [] | Some l \<Rightarrow> l);
          c = c\<lparr>e_time := now\<rparr>;
          stats = set_stat event (add_time (now - s_time c)) stats;
          c = (if event \<notin> set request_info then dumpHttpinfo ok2 (Some (request_info @ [event])) c else c) in
      dumpStats ok1 stats c)"

section \<open>The server\<close>

text \<open>A server with the requests that have arrived and are not finished, each with its time of
  arrival; \<open>true_times\<close> records what should be measured.\<close>

record server =
  coll :: collector
  open_reqs :: "(nat \<times> int) list"
  true_times :: "(string \<times> int) list"

definition arrives :: "nat \<Rightarrow> int \<Rightarrow> server \<Rightarrow> server" where
  "arrives rid now s = s\<lparr>coll := arrive now (coll s), open_reqs := open_reqs s @ [(rid, now)]\<rparr>"

definition finishes :: "bool \<Rightarrow> bool \<Rightarrow> nat \<Rightarrow> int \<Rightarrow> request \<Rightarrow> nat \<Rightarrow> int \<Rightarrow> server \<Rightarrow> server" where
  "finishes ok1 ok2 rid t req statusCode now s =
     s\<lparr>coll := finish ok1 ok2 req statusCode now (coll s),
       open_reqs := filter (\<lambda>r. fst r \<noteq> rid) (open_reqs s),
       true_times := true_times s @ [(event_name req statusCode, now - t)]\<rparr>"

inductive step :: "server \<Rightarrow> server \<Rightarrow> bool" where
  arrival: "rid \<notin> fst ` set (open_reqs s) \<Longrightarrow> step s (arrives rid now s)"
| finished: "(rid, t) \<in> set (open_reqs s) \<Longrightarrow> step s (finishes ok1 ok2 rid t req statusCode now s)"

text \<open>A step of a server that serves one request at a time and whose disk does not fail.\<close>

inductive serial_step :: "server \<Rightarrow> server \<Rightarrow> bool" where
  next_arrival: "open_reqs s = [] \<Longrightarrow> serial_step s (arrives rid now s)"
| next_finished: "open_reqs s = [(rid, t)] \<Longrightarrow> serial_step s (finishes True ok2 rid t req statusCode now s)"

inductive_cases stepE: "step s s'"
inductive_cases serial_stepE: "serial_step s s'"

definition fresh :: server where
  "fresh = \<lparr>coll = \<lparr>s_time = 0, e_time = 0, report_json = None, httpcodereport_json = None\<rparr>,
     open_reqs = [], true_times = []\<rparr>"

section \<open>The files stay consistent\<close>

definition stat_ok :: "stat \<Rightarrow> bool" where
  "stat_ok st \<longleftrightarrow> Count st = length (Time st) \<and>
     map fst (Time st) = map (\<lambda>i. ''Response_time_'' @ decs i) [1..<Suc (length (Time st))]"

definition files_ok :: "collector \<Rightarrow> bool" where
  "files_ok c \<longleftrightarrow> distinct (map fst (readStats c)) \<and> (\<forall>(ev, st)\<in>set (readStats c). stat_ok st) \<and>
     (case readHttpCode c of None \<Rightarrow> True | Some l \<Rightarrow> distinct l)"

lemma stat_ok_add_time: "stat_ok st \<Longrightarrow> stat_ok (add_time t st)"
  by (simp add: stat_ok_def add_time_def Let_def)

lemma set_stat_keys: "set (map fst (set_stat ev f ss)) = insert ev (set (map fst ss))"
  by (induction ev f ss rule: set_stat.induct) auto

lemma set_stat_ok:
  assumes "\<And>st. stat_ok st \<Longrightarrow> stat_ok (f st)"
  shows "\<forall>(k, st)\<in>set ss. stat_ok st \<Longrightarrow> \<forall>(k, st)\<in>set (set_stat ev f ss). stat_ok st"
proof (induction ss)
  case Nil
  have "stat_ok \<lparr>Count = 0, Time = []\<rparr>" by (simp add: stat_ok_def)
  then show ?case using assms by simp
next
  case (Cons s ss)
  then show ?case using assms by (cases s) (auto split: if_splits)
qed

lemma set_stat_distinct: "distinct (map fst ss) \<Longrightarrow> distinct (map fst (set_stat ev f ss))"
proof (induction ss)
  case (Cons s ss)
  then show ?case using set_stat_keys [of ev f ss] by (cases s) auto
qed simp

lemma finish_reads:
  "readStats (finish ok1 ok2 req n now c) =
     (if ok1 then set_stat (event_name req n) (add_time (now - s_time c)) (readStats c) else readStats c)"
  "readHttpCode (finish ok1 ok2 req n now c) =
     (let l = (case readHttpCode c of None \<Rightarrow> [] | Some l \<Rightarrow> l) in
      if event_name req n \<notin> set l \<and> ok2 then Some (l @ [event_name req n]) else readHttpCode c)"
  "s_time (finish ok1 ok2 req n now c) = s_time c"
  by (simp_all add: finish_def dumpStats_def dumpHttpinfo_def readStats_def readHttpCode_def Let_def)

lemma finish_ok:
  assumes "files_ok c"
  shows "files_ok (finish ok1 ok2 req n now c)"
  using assms set_stat_ok [where f = "add_time (now - s_time c)" and ss = "readStats c" and ev = "event_name req n"]
    set_stat_distinct [of "readStats c"] stat_ok_add_time
  by (auto simp: files_ok_def finish_reads Let_def split: option.splits)

lemma step_ok: "step s s' \<Longrightarrow> files_ok (coll s) \<Longrightarrow> files_ok (coll s')"
  by (erule stepE) (simp_all add: arrives_def arrive_def finishes_def finish_ok, simp add: files_ok_def readStats_def readHttpCode_def)

section \<open>Times are true when requests do not overlap\<close>

definition recorded :: "collector \<Rightarrow> string \<Rightarrow> int list" where
  "recorded c ev = (case map_of (readStats c) ev of None \<Rightarrow> [] | Some st \<Rightarrow> map snd (Time st))"

definition measured :: "server \<Rightarrow> string \<Rightarrow> int list" where
  "measured s ev = map snd (filter (\<lambda>(e, t). e = ev) (true_times s))"

definition serial_inv :: "server \<Rightarrow> bool" where
  "serial_inv s \<longleftrightarrow> (\<forall>ev. recorded (coll s) ev = measured s ev) \<and>
     (\<forall>(rid, t)\<in>set (open_reqs s). s_time (coll s) = t) \<and> length (open_reqs s) \<le> 1"

lemma map_of_set_stat:
  "map_of (set_stat ev f ss) k =
     (if k = ev then Some (f (case map_of ss ev of None \<Rightarrow> \<lparr>Count = 0, Time = []\<rparr> | Some st \<Rightarrow> st)) else map_of ss k)"
  by (induction ss) auto

lemma recorded_finish:
  "recorded (finish True ok2 req n now c) ev =
     recorded c ev @ (if ev = event_name req n then [now - s_time c] else [])"
  by (simp add: recorded_def finish_reads map_of_set_stat add_time_def Let_def split: option.split)

lemma serial_step_inv: "serial_step s s' \<Longrightarrow> serial_inv s \<Longrightarrow> serial_inv s'"
proof (erule serial_stepE)
  fix rid now assume "s' = arrives rid now s" "open_reqs s = []" "serial_inv s"
  then show "serial_inv s'"
    by (simp add: serial_inv_def arrives_def arrive_def recorded_def measured_def readStats_def)
next
  fix rid t ok2 req n now
  assume s: "s' = finishes True ok2 rid t req n now s" "open_reqs s = [(rid, t)]" "serial_inv s"
  then have "measured s' ev = recorded (coll s') ev" for ev
    by (auto simp: serial_inv_def finishes_def measured_def recorded_finish)
  then show "serial_inv s'" using s by (simp add: serial_inv_def finishes_def)
qed

section \<open>Properties\<close>

text \<open>C15: the statistics files stay consistent under any interleaving of requests and any failures to
  write them: every kind of request has one entry, its count is the number of its recorded times, these
  are labelled with consecutive numbers from 1, and no kind is listed twice.\<close>
theorem stats_consistent:
  assumes "step\<^sup>*\<^sup>* fresh s"
  shows "files_ok (coll s)"
  using assms
proof (induction rule: rtranclp_induct)
  case base
  then show ?case by (simp add: fresh_def files_ok_def readStats_def readHttpCode_def)
qed (rule step_ok)

theorem stats_consistent_witness:
  "files_ok (coll (finishes True True 0 5 \<lparr>req_method = ''GET'', req_route = Some ''/fan'', req_baseUrl = None\<rparr> 200 9
     (arrives 1 7 (arrives 0 5 fresh))))"
proof -
  have "step fresh (arrives 0 5 fresh)" by (rule step.arrival) (simp add: fresh_def)
  moreover have "step (arrives 0 5 fresh) (arrives 1 7 (arrives 0 5 fresh))"
    by (rule step.arrival) (simp add: fresh_def arrives_def)
  moreover have "step (arrives 1 7 (arrives 0 5 fresh)) (finishes True True 0 5
      \<lparr>req_method = ''GET'', req_route = Some ''/fan'', req_baseUrl = None\<rparr> 200 9 (arrives 1 7 (arrives 0 5 fresh)))"
    by (rule step.finished) (simp add: fresh_def arrives_def)
  ultimately show ?thesis by (intro stats_consistent) (meson rtranclp.rtrancl_into_rtrancl rtranclp.rtrancl_refl)
qed

text \<open>C16: while requests are served one at a time, the recorded response times are the true ones: for
  every kind of request the file holds, in order, the times from the arrival of each such request to
  its finish.\<close>
theorem serial_times_true:
  assumes "serial_step\<^sup>*\<^sup>* fresh s"
  shows "recorded (coll s) ev = measured s ev"
proof -
  have "serial_inv s"
    using assms
  proof (induction rule: rtranclp_induct)
    case base
    then show ?case by (simp add: fresh_def serial_inv_def recorded_def measured_def readStats_def)
  qed (rule serial_step_inv)
  then show ?thesis by (simp add: serial_inv_def)
qed

theorem serial_times_true_witness:
  "recorded (coll (finishes True True 0 5 \<lparr>req_method = ''GET'', req_route = Some ''/fan'', req_baseUrl = None\<rparr> 200 9
     (arrives 0 5 fresh))) ''GET_/fan_200'' = [4]"
proof -
  let ?req = "\<lparr>req_method = ''GET'', req_route = Some ''/fan'', req_baseUrl = None\<rparr>"
  let ?s = "finishes True True 0 5 ?req 200 9 (arrives 0 5 fresh)"
  have "serial_step fresh (arrives 0 5 fresh)" by (rule serial_step.next_arrival) (simp add: fresh_def)
  moreover have "serial_step (arrives 0 5 fresh) ?s"
    by (rule serial_step.next_finished) (simp add: fresh_def arrives_def)
  ultimately have "recorded (coll ?s) ''GET_/fan_200'' = measured ?s ''GET_/fan_200''"
    by (intro serial_times_true) (meson rtranclp.rtrancl_into_rtrancl rtranclp.rtrancl_refl)
  moreover have "event_name ?req 200 = ''GET_/fan_200''" by code_simp
  ultimately show ?thesis by (simp add: measured_def finishes_def arrives_def fresh_def)
qed

text \<open>C17: when requests overlap, a wrong time is recorded: the time of arrival is one variable of the
  whole server, so the finish of an earlier request is measured from the arrival of the latest one.\<close>
theorem overlap_mistimed:
  assumes "recorded (coll s) (event_name req n) = ts" "t1 < t2"
  shows "recorded (coll (finishes True ok2 r1 t1 req n now (arrives r2 t2 (arrives r1 t1 s)))) (event_name req n) =
      ts @ [now - t2] \<and>
    measured (finishes True ok2 r1 t1 req n now (arrives r2 t2 (arrives r1 t1 s))) (event_name req n) =
      measured s (event_name req n) @ [now - t1] \<and> now - t2 < now - t1"
proof -
  have "recorded (arrive t c) ev = recorded c ev" for t c ev
    by (simp add: recorded_def arrive_def readStats_def)
  then show ?thesis using assms
    by (simp add: finishes_def arrives_def recorded_finish measured_def) (simp add: arrive_def)
qed

theorem overlap_mistimed_witness:
  "recorded (coll (finishes True True 0 5 \<lparr>req_method = ''GET'', req_route = Some ''/fan'', req_baseUrl = None\<rparr> 200 9
     (arrives 1 7 (arrives 0 5 fresh)))) ''GET_/fan_200'' = [2]"
proof -
  have "event_name \<lparr>req_method = ''GET'', req_route = Some ''/fan'', req_baseUrl = None\<rparr> 200 = ''GET_/fan_200''" by code_simp
  then show ?thesis
    using overlap_mistimed [of fresh "\<lparr>req_method = ''GET'', req_route = Some ''/fan'', req_baseUrl = None\<rparr>" 200 "[]" 5 7 True 0 9 1]
    by (simp add: fresh_def recorded_def readStats_def)
qed

end
