(* ===== verification/Spec2Isabelle.thy ===== *)
theory Spec2Isabelle
  imports Pipeline SsuDiff Prompt KWords BootLog Browse Stats
begin

text \<open>
  stub
\<close>

end
